(* ===== verification/Prelude.thy ===== *)
theory Prelude
  imports Complex_Main "HOL-Library.Word" "HOL-Library.Multiset" "HOL-Library.Sublist"
    "HOL-Library.List_Lexorder"
begin

text \<open>
  Shared vocabulary of the development: machine integers, the error values that stand
  for the server's exceptions, byte-wise string comparison, the handful of C string
  functions the sources call, and generic list lemmas.

  C++ strings are \<^typ>\<open>string\<close> (lists of bytes).  Field names, regular
  expressions and channel names that travel as C strings end at the first NUL byte;
  \<open>c_str\<close> is that reading.
\<close>

named_theorems cmp_intros \<open>facts about three-way comparison results\<close>
named_theorems std_simps \<open>laws of the standard containers\<close>
named_theorems ps_simps \<open>field and frame equations of the pubsub state\<close>

type_synonym i32 = "32 word"
type_synonym i64 = "64 word"
type_synonym u64 = "64 word"
type_synonym byte = "8 word"

section \<open>Errors\<close>

text \<open>
  \<open>UserException c m\<close> is a failed \<open>uassert(c, m, ..)\<close>, \<open>MsgAssertion\<close> a
  failed \<open>massert\<close>, \<open>VerifyFailed\<close> a failed \<open>verify\<close>.  A function of the
  sources that may throw returns a value of \<open>'a result\<close>; \<open>Inl\<close> is the throw.
\<close>

datatype merror =
    UserException nat string
  | MsgAssertion nat string
  | VerifyFailed string

type_synonym 'a result = "merror + 'a"

definition uassert :: "nat \<Rightarrow> string \<Rightarrow> bool \<Rightarrow> unit result" where
  "uassert c m b = (if b then Inr () else Inl (UserException c m))"

definition rbind :: "'e + 'a \<Rightarrow> ('a \<Rightarrow> 'e + 'b) \<Rightarrow> 'e + 'b" where
  "rbind r f = (case r of Inl e \<Rightarrow> Inl e | Inr x \<Rightarrow> f x)"

lemma rbind_simps [simp]:
  "rbind (Inl e) f = Inl e"
  "rbind (Inr x) f = f x"
  by (simp_all add: rbind_def)

lemma rbind_Inr_iff: "rbind r f = Inr y \<longleftrightarrow> (\<exists>x. r = Inr x \<and> f x = Inr y)"
  by (cases r) (auto simp: rbind_def)

lemma rbind_Inl_iff: "rbind r f = Inl e \<longleftrightarrow> r = Inl e \<or> (\<exists>x. r = Inr x \<and> f x = Inl e)"
  by (cases r) (auto simp: rbind_def)

lemma rbind_cong [fundef_cong]:
  "r = r' \<Longrightarrow> (\<And>x. r' = Inr x \<Longrightarrow> f x = g x) \<Longrightarrow> rbind r f = rbind r' g"
  by (cases r') (auto simp: rbind_def)

lemma uassert_simps [simp]:
  "uassert c m True = Inr ()"
  "uassert c m False = Inl (UserException c m)"
  by (simp_all add: uassert_def)

lemma uassert_Inr_iff [simp]: "uassert c m b = Inr u \<longleftrightarrow> b"
  by (simp add: uassert_def)

text \<open>A loop whose body may throw: the first error stops it.\<close>

fun foldr_result :: "('a \<Rightarrow> 's \<Rightarrow> 'e + 's) \<Rightarrow> 'a list \<Rightarrow> 's \<Rightarrow> 'e + 's" where
  "foldr_result f [] s = Inr s"
| "foldr_result f (x # xs) s = rbind (f x s) (foldr_result f xs)"

lemma foldr_result_cong [fundef_cong]:
  "xs = ys \<Longrightarrow> s = t \<Longrightarrow> (\<And>x s. x \<in> set ys \<Longrightarrow> f x s = g x s) \<Longrightarrow>
   foldr_result f xs s = foldr_result g ys t"
  by (induction ys arbitrary: xs s t) (auto intro: rbind_cong)

section \<open>Byte-wise comparison\<close>

text \<open>
  The sign of \<open>memcmp\<close>/\<open>strcmp\<close>: bytes compare as unsigned characters and a
  proper prefix is smaller.
\<close>

fun byte_cmp :: "char list \<Rightarrow> char list \<Rightarrow> int" where
  "byte_cmp [] [] = 0"
| "byte_cmp [] (y # ys) = -1"
| "byte_cmp (x # xs) [] = 1"
| "byte_cmp (x # xs) (y # ys) =
     (if (of_char x :: nat) < of_char y then -1
      else if (of_char y :: nat) < of_char x then 1
      else byte_cmp xs ys)"

lemma of_char_nat_eq_iff [simp]: "(of_char x :: nat) = of_char y \<longleftrightarrow> x = y"
  by (rule of_char_eq_iff)

lemma byte_cmp_refl [simp]: "byte_cmp xs xs = 0"
  by (induction xs) auto

lemma byte_cmp_zero_iff [simp]: "byte_cmp xs ys = 0 \<longleftrightarrow> xs = ys"
  by (induction xs ys rule: byte_cmp.induct) (auto simp: not_less_iff_gr_or_eq)

lemma byte_cmp_anti: "byte_cmp ys xs = - byte_cmp xs ys"
  by (induction xs ys rule: byte_cmp.induct) auto

lemma byte_cmp_range [cmp_intros]: "byte_cmp xs ys \<in> {-1, 0, 1}"
  by (induction xs ys rule: byte_cmp.induct) auto

text \<open>The comparison is the lexicographic order of the unsigned byte values.\<close>

abbreviation bytes_of :: "char list \<Rightarrow> nat list" where
  "bytes_of xs \<equiv> map of_char xs"

lemma byte_cmp_less_iff: "byte_cmp xs ys < 0 \<longleftrightarrow> bytes_of xs < bytes_of ys"
  by (induction xs ys rule: byte_cmp.induct) (auto simp: not_less_iff_gr_or_eq)

lemma byte_cmp_trans_less: "byte_cmp xs ys < 0 \<Longrightarrow> byte_cmp ys zs < 0 \<Longrightarrow> byte_cmp xs zs < 0"
  unfolding byte_cmp_less_iff by (rule less_trans)

lemma byte_cmp_trans_le: "byte_cmp xs ys \<le> 0 \<Longrightarrow> byte_cmp ys zs \<le> 0 \<Longrightarrow> byte_cmp xs zs \<le> 0"
  using byte_cmp_trans_less [of xs ys zs] byte_cmp_zero_iff [of xs ys] byte_cmp_zero_iff [of ys zs]
  by (cases "xs = ys"; cases "ys = zs") (auto simp: le_less)

text \<open>\<open>memcmp(l, r, n)\<close> on buffers of at least \<open>n\<close> bytes.\<close>

definition memcmp :: "char list \<Rightarrow> char list \<Rightarrow> nat \<Rightarrow> int" where
  "memcmp l r n = byte_cmp (take n l) (take n r)"

section \<open>C strings\<close>

definition NUL :: char where
  "NUL = CHR 0x00"

definition c_str :: "string \<Rightarrow> string" where
  "c_str s = takeWhile (\<lambda>c. c \<noteq> NUL) s"

lemma c_str_append_NUL [simp]: "NUL \<notin> set s \<Longrightarrow> c_str (s @ [NUL]) = s"
  unfolding c_str_def by (subst takeWhile_append2) auto

lemma c_str_id: "NUL \<notin> set s \<Longrightarrow> c_str s = s"
  unfolding c_str_def by (rule takeWhile_eq_all_conv [THEN iffD2]) auto

lemma c_str_no_NUL [simp]: "NUL \<notin> set (c_str s)"
  unfolding c_str_def by (auto dest: set_takeWhileD)

fun digit_char :: "nat \<Rightarrow> char" where
  "digit_char d = char_of (48 + d)"

text \<open>Decimal printing, as \<open>operator<<\<close> and \<open>BSONObjBuilder::numStr\<close> print integers.\<close>

fun nat_str :: "nat \<Rightarrow> string" where
  "nat_str n = (if n < 10 then [digit_char n] else nat_str (n div 10) @ [digit_char (n mod 10)])"

declare nat_str.simps [simp del]

lemma nat_str_code:
  "n < 10 \<Longrightarrow> nat_str n = [digit_char n]"
  "\<not> n < 10 \<Longrightarrow> nat_str n = nat_str (n div 10) @ [digit_char (n mod 10)]"
  by (subst nat_str.simps, simp)+

definition int_str :: "int \<Rightarrow> string" where
  "int_str i = (if i < 0 then CHR ''-'' # nat_str (nat (- i)) else nat_str (nat i))"

definition isdigit :: "char \<Rightarrow> bool" where
  "isdigit c \<longleftrightarrow> 48 \<le> (of_char c :: nat) \<and> (of_char c :: nat) \<le> 57"

lemma of_char_digit_char [simp]: "d < 10 \<Longrightarrow> (of_char (digit_char d) :: nat) = 48 + d"
  by (simp add: of_char_of)

lemma isdigit_digit_char [simp]: "d < 10 \<Longrightarrow> isdigit (digit_char d)"
  by (simp add: isdigit_def del: digit_char.simps)

lemma digit_char_inj: "d < 10 \<Longrightarrow> e < 10 \<Longrightarrow> digit_char d = digit_char e \<longleftrightarrow> d = e"
  by (metis of_char_digit_char add_left_cancel)

declare digit_char.simps [simp del]

lemma nat_str_digits: "\<forall>c \<in> set (nat_str n). isdigit c"
proof (induction n rule: nat_str.induct)
  case (1 n)
  then show ?case by (cases "n < 10") (auto simp: nat_str_code(1) [of n] nat_str_code(2) [of n])
qed

lemma nat_str_nonempty [simp]: "nat_str n \<noteq> []" "[] \<noteq> nat_str n"
  by (cases "n < 10"; simp add: nat_str_code(1) [of n] nat_str_code(2) [of n])+

lemma nat_str_inj: "nat_str m = nat_str n \<Longrightarrow> m = n"
proof (induction m arbitrary: n rule: nat_str.induct)
  case (1 m)
  show ?case
  proof (cases "m < 10"; cases "n < 10")
    assume "m < 10" "n < 10"
    with "1.prems" show ?thesis by (simp add: nat_str_code digit_char_inj)
  next
    assume "m < 10" "\<not> n < 10"
    with "1.prems" show ?thesis
      by (simp add: nat_str_code(1) [of m] nat_str_code(2) [of n])
  next
    assume "\<not> m < 10" "n < 10"
    with "1.prems" show ?thesis
      by (simp add: nat_str_code(1) [of n] nat_str_code(2) [of m])
  next
    assume m: "\<not> m < 10" and n: "\<not> n < 10"
    with "1.prems" have div: "nat_str (m div 10) = nat_str (n div 10)"
      and mod: "digit_char (m mod 10) = digit_char (n mod 10)"
      by (simp_all only: nat_str_code(2) [OF m] nat_str_code(2) [OF n] append1_eq_conv)
    from "1.IH" [OF m div] mod have "10 * (m div 10) + m mod 10 = 10 * (n div 10) + n mod 10"
      by (simp only: digit_char_inj mod_less_divisor zero_less_numeral)
    then show ?thesis by (simp only: mult_div_mod_eq)
  qed
qed

section \<open>Lists\<close>

lemma foldr_result_Inr_Cons:
  "foldr_result f (x # xs) s = Inr t \<longleftrightarrow> (\<exists>u. f x s = Inr u \<and> foldr_result f xs u = Inr t)"
  by (simp add: rbind_Inr_iff)

lemma foldr_result_append:
  "foldr_result f (xs @ ys) s = rbind (foldr_result f xs s) (foldr_result f ys)"
  by (induction xs arbitrary: s) (auto simp: rbind_def split: sum.splits)

lemma foldr_result_total:
  "(\<And>x s. x \<in> set xs \<Longrightarrow> \<exists>t. f x s = Inr t) \<Longrightarrow> \<exists>t. foldr_result f xs s = Inr t"
proof (induction xs arbitrary: s)
  case (Cons x xs)
  obtain t where "f x s = Inr t" using Cons.prems [of x s] by auto
  with Cons show ?case by simp
qed simp

lemma foldr_result_concat:
  "(\<And>x. x \<in> set xs \<Longrightarrow> g x = Inr (h x)) \<Longrightarrow>
   foldr_result (\<lambda>x b. rbind (g x) (\<lambda>ys. Inr (b @ ys))) xs acc = Inr (acc @ concat (map h xs))"
  by (induction xs arbitrary: acc) auto

lemma foldr_result_concat_total:
  assumes "\<And>x. x \<in> set xs \<Longrightarrow> \<exists>ys. g x = Inr ys"
  shows "\<exists>t. foldr_result (\<lambda>x b. rbind (g x) (\<lambda>ys. Inr (b @ ys))) xs acc = Inr t"
  using foldr_result_concat [of xs g "\<lambda>x. projr (g x)" acc] assms by force

end
