(* ===== verification/StdLib.thy ===== *)
theory StdLib
  imports Prelude
begin

text \<open>
  The standard containers the sources use, each as a list kept in the order its
  comparator gives: \<open>std::map\<close> and \<open>std::set\<close> (ascending, one entry per
  equivalence class of keys) and \<open>std::priority_queue\<close> (the greatest element on top).
  The comparator is an argument, as it is in C++; what it must satisfy is the locale
  \<open>strict_weak_order\<close>, and what a client may rely on of a queue is the locale
  \<open>prio_queue\<close>.
\<close>

section \<open>Comparators\<close>

locale strict_weak_order =
  fixes lt :: "'k \<Rightarrow> 'k \<Rightarrow> bool"
  assumes asym: "lt x y \<Longrightarrow> \<not> lt y x"
    and neg_trans: "\<not> lt x y \<Longrightarrow> \<not> lt y z \<Longrightarrow> \<not> lt x z"
begin

lemma irrefl [simp]: "\<not> lt x x"
  using asym by blast

lemma trans: "lt x y \<Longrightarrow> lt y z \<Longrightarrow> lt x z"
  using asym neg_trans by blast

lemma less_equiv_less: "lt x y \<Longrightarrow> \<not> lt z y \<Longrightarrow> lt x z"
  using neg_trans by blast

lemma equiv_less_less: "\<not> lt y x \<Longrightarrow> lt y z \<Longrightarrow> lt x z"
  using neg_trans by blast

end

section \<open>std::map\<close>

type_synonym ('k, 'v) std_map = "('k \<times> 'v) list"

text \<open>\<open>insert\<close> leaves the map alone when an equivalent key is present.\<close>

fun map_insert :: "('k \<Rightarrow> 'k \<Rightarrow> bool) \<Rightarrow> 'k \<Rightarrow> 'v \<Rightarrow> ('k, 'v) std_map \<Rightarrow> ('k, 'v) std_map" where
  "map_insert lt k v [] = [(k, v)]"
| "map_insert lt k v ((k', v') # m) =
     (if lt k k' then (k, v) # (k', v') # m
      else if lt k' k then (k', v') # map_insert lt k v m
      else (k', v') # m)"

fun map_find :: "('k \<Rightarrow> 'k \<Rightarrow> bool) \<Rightarrow> 'k \<Rightarrow> ('k, 'v) std_map \<Rightarrow> 'v option" where
  "map_find lt k [] = None"
| "map_find lt k ((k', v') # m) =
     (if lt k k' then None else if lt k' k then map_find lt k m else Some v')"

fun map_erase :: "('k \<Rightarrow> 'k \<Rightarrow> bool) \<Rightarrow> 'k \<Rightarrow> ('k, 'v) std_map \<Rightarrow> ('k, 'v) std_map" where
  "map_erase lt k [] = []"
| "map_erase lt k ((k', v') # m) =
     (if lt k k' then (k', v') # m
      else if lt k' k then (k', v') # map_erase lt k m
      else m)"

text \<open>Assignment through an iterator or \<open>operator[]\<close>, to a key that is present.\<close>

fun map_assign :: "('k \<Rightarrow> 'k \<Rightarrow> bool) \<Rightarrow> 'k \<Rightarrow> 'v \<Rightarrow> ('k, 'v) std_map \<Rightarrow> ('k, 'v) std_map" where
  "map_assign lt k v [] = []"
| "map_assign lt k v ((k', v') # m) =
     (if lt k k' then (k', v') # m
      else if lt k' k then (k', v') # map_assign lt k v m
      else (k', v) # m)"

definition map_wf :: "('k \<Rightarrow> 'k \<Rightarrow> bool) \<Rightarrow> ('k, 'v) std_map \<Rightarrow> bool" where
  "map_wf lt m \<longleftrightarrow> sorted_wrt lt (map fst m)"

lemma map_wf_simps [simp]:
  "map_wf lt []"
  "map_wf lt (kv # m) \<longleftrightarrow> (\<forall>k \<in> set (map fst m). lt (fst kv) k) \<and> map_wf lt m"
  by (auto simp: map_wf_def)

lemma set_map_insert: "set (map_insert lt k v m) \<subseteq> insert (k, v) (set m)"
  by (induction m) (auto split: if_splits)

lemma keys_map_insert: "fst ` set (map_insert lt k v m) \<subseteq> insert k (fst ` set m)"
  using set_map_insert [of lt k v m] by auto

lemma set_map_erase: "set (map_erase lt k m) \<subseteq> set m"
  by (induction m) (auto split: if_splits)

lemma map_find_in_set: "map_find lt k m = Some v \<Longrightarrow> \<exists>k'. (k', v) \<in> set m \<and> \<not> lt k k' \<and> \<not> lt k' k"
  by (induction m) (auto split: if_splits)

lemma keys_map_assign [simp]: "map fst (map_assign lt k v m) = map fst m"
  by (induction m) auto

context strict_weak_order
begin

lemma map_wf_insert [std_simps]: "map_wf lt m \<Longrightarrow> map_wf lt (map_insert lt k v m)"
proof (induction m)
  case Nil
  then show ?case by simp
next
  case (Cons a m)
  obtain k' v' where a: "a = (k', v')" by (cases a)
  show ?case
    using Cons keys_map_insert [of lt k v m] trans [of k k']
    by (fastforce simp: a image_iff)
qed

lemma map_wf_erase [std_simps]: "map_wf lt m \<Longrightarrow> map_wf lt (map_erase lt k m)"
proof (induction m)
  case (Cons a m)
  then show ?case
    using set_map_erase [of lt k m] by (cases a) (auto simp: image_iff)
qed simp

lemma map_wf_assign [std_simps]: "map_wf lt m \<Longrightarrow> map_wf lt (map_assign lt k v m)"
  by (simp add: map_wf_def)

lemma map_find_outside: "\<forall>k' \<in> fst ` set m. lt k k' \<Longrightarrow> map_find lt k m = None"
  by (induction m) auto

lemma find_insert_same [std_simps]:
  "\<not> lt k k' \<Longrightarrow> \<not> lt k' k \<Longrightarrow>
   map_find lt k' (map_insert lt k v m) = (case map_find lt k m of None \<Rightarrow> Some v | Some w \<Rightarrow> Some w)"
proof (induction m)
  case (Cons a m)
  then show ?case
    by (cases a) (auto dest: less_equiv_less equiv_less_less trans split: option.splits)
qed auto

lemma find_insert_other [std_simps]:
  "lt k k' \<or> lt k' k \<Longrightarrow> map_wf lt m \<Longrightarrow>
   map_find lt k' (map_insert lt k v m) = map_find lt k' m"
proof (induction m)
  case (Cons a m)
  then show ?case
    by (cases a) (auto dest: less_equiv_less equiv_less_less trans asym)
qed auto

lemma find_erase_same [std_simps]:
  "\<not> lt k k' \<Longrightarrow> \<not> lt k' k \<Longrightarrow> map_wf lt m \<Longrightarrow> map_find lt k' (map_erase lt k m) = None"
proof (induction m)
  case (Cons a m)
  obtain b v where a: "a = (b, v)" by (cases a)
  consider "lt k b" | "lt b k" | "\<not> lt k b" "\<not> lt b k" by blast
  then show ?case
  proof cases
    case 3
    have "\<forall>c \<in> fst ` set m. lt k' c"
      using Cons.prems 3 a by (auto dest: equiv_less_less)
    then show ?thesis using 3 a by (simp add: map_find_outside)
  qed (use Cons a in \<open>auto dest: equiv_less_less less_equiv_less\<close>)
qed simp

lemma find_erase_other [std_simps]:
  "lt k k' \<or> lt k' k \<Longrightarrow> map_wf lt m \<Longrightarrow> map_find lt k' (map_erase lt k m) = map_find lt k' m"
proof (induction m)
  case (Cons a m)
  obtain b v where a: "a = (b, v)" by (cases a)
  consider "lt k b" | "lt b k" | "\<not> lt k b" "\<not> lt b k" by blast
  then show ?case
  proof cases
    case 3
    have bk: "lt k' b \<Longrightarrow> map_find lt k' m = None"
      using Cons.prems a by (intro map_find_outside) (auto dest: trans)
    have "lt k' b \<or> lt b k'"
      using Cons.prems(1) 3 by (auto dest: equiv_less_less less_equiv_less)
    then show ?thesis using 3 a bk by (auto dest: asym)
  qed (use Cons a in auto)
qed simp

lemma find_assign_same [std_simps]:
  "\<not> lt k k' \<Longrightarrow> \<not> lt k' k \<Longrightarrow>
   map_find lt k' (map_assign lt k v m) = map_option (\<lambda>_. v) (map_find lt k m)"
proof (induction m)
  case (Cons a m)
  then show ?case
    by (cases a) (auto dest: less_equiv_less equiv_less_less trans)
qed auto

lemma find_assign_other [std_simps]:
  "lt k k' \<or> lt k' k \<Longrightarrow> map_find lt k' (map_assign lt k v m) = map_find lt k' m"
proof (induction m)
  case (Cons a m)
  then show ?case
    by (cases a) (auto dest: less_equiv_less equiv_less_less trans asym)
qed auto

lemma find_in_wf [std_simps]:
  "map_wf lt m \<Longrightarrow> (k, v) \<in> set m \<Longrightarrow> map_find lt k m = Some v"
proof (induction m)
  case (Cons a m)
  then show ?case
    by (cases a) (force dest: asym)
qed simp

end

section \<open>std::set\<close>

type_synonym 'k std_set = "'k list"

fun set_insert :: "('k \<Rightarrow> 'k \<Rightarrow> bool) \<Rightarrow> 'k \<Rightarrow> 'k std_set \<Rightarrow> 'k std_set" where
  "set_insert lt k [] = [k]"
| "set_insert lt k (k' # s) =
     (if lt k k' then k # k' # s else if lt k' k then k' # set_insert lt k s else k' # s)"

fun set_count :: "('k \<Rightarrow> 'k \<Rightarrow> bool) \<Rightarrow> 'k \<Rightarrow> 'k std_set \<Rightarrow> bool" where
  "set_count lt k [] = False"
| "set_count lt k (k' # s) =
     (if lt k k' then False else if lt k' k then set_count lt k s else True)"

lemma set_set_insert: "set (set_insert lt k s) \<subseteq> insert k (set s)"
  by (induction s) (auto split: if_splits)

context strict_weak_order
begin

lemma sorted_set_insert [std_simps]: "sorted_wrt lt s \<Longrightarrow> sorted_wrt lt (set_insert lt k s)"
proof (induction s)
  case (Cons k' s)
  then show ?case
    using set_set_insert [of lt k s] trans [of k k'] by fastforce
qed simp

lemma set_count_insert [std_simps]:
  "sorted_wrt lt s \<Longrightarrow>
   set_count lt k' (set_insert lt k s) \<longleftrightarrow> (\<not> lt k k' \<and> \<not> lt k' k) \<or> set_count lt k' s"
proof (induction s)
  case (Cons a s)
  then show ?case
    by (auto dest: less_equiv_less equiv_less_less trans asym)
qed auto

lemma set_count_iff [std_simps]:
  "sorted_wrt lt s \<Longrightarrow> set_count lt k s \<longleftrightarrow> (\<exists>k' \<in> set s. \<not> lt k k' \<and> \<not> lt k' k)"
proof (induction s)
  case (Cons a s)
  then show ?case
    by (auto dest: less_equiv_less equiv_less_less trans asym)
qed simp

end

section \<open>std::priority_queue\<close>

type_synonym 'a pqueue = "'a list"

fun pq_push :: "('a \<Rightarrow> 'a \<Rightarrow> bool) \<Rightarrow> 'a \<Rightarrow> 'a pqueue \<Rightarrow> 'a pqueue" where
  "pq_push lt x [] = [x]"
| "pq_push lt x (y # q) = (if lt y x then x # y # q else y # pq_push lt x q)"

definition pq_empty :: "'a pqueue \<Rightarrow> bool" where
  "pq_empty q \<longleftrightarrow> q = []"

definition pq_top :: "'a pqueue \<Rightarrow> 'a option" where
  "pq_top q = (case q of [] \<Rightarrow> None | x # _ \<Rightarrow> Some x)"

definition pq_pop :: "'a pqueue \<Rightarrow> 'a pqueue" where
  "pq_pop q = tl q"

definition pq_inv :: "('a \<Rightarrow> 'a \<Rightarrow> bool) \<Rightarrow> 'a pqueue \<Rightarrow> bool" where
  "pq_inv lt q \<longleftrightarrow> sorted_wrt (\<lambda>x y. \<not> lt x y) q"

text \<open>
  The interface of a priority queue over a comparator: what \<open>push\<close>, \<open>top\<close> and
  \<open>pop\<close> promise.  Draining a queue yields a permutation of what was pushed in
  non-increasing order, whatever the queue does with equivalent elements.
\<close>

locale prio_queue = strict_weak_order lt for lt :: "'a \<Rightarrow> 'a \<Rightarrow> bool" +
  fixes push :: "'a \<Rightarrow> 'q \<Rightarrow> 'q"
    and top :: "'q \<Rightarrow> 'a option"
    and pop :: "'q \<Rightarrow> 'q"
    and inv :: "'q \<Rightarrow> bool"
    and contents :: "'q \<Rightarrow> 'a multiset"
  assumes inv_push: "inv q \<Longrightarrow> inv (push x q)"
    and inv_pop: "inv q \<Longrightarrow> inv (pop q)"
    and contents_push: "inv q \<Longrightarrow> contents (push x q) = add_mset x (contents q)"
    and contents_pop: "inv q \<Longrightarrow> top q = Some x \<Longrightarrow> contents q = add_mset x (contents (pop q))"
    and top_None: "inv q \<Longrightarrow> top q = None \<longleftrightarrow> contents q = {#}"
    and top_max: "inv q \<Longrightarrow> top q = Some x \<Longrightarrow> y \<in># contents q \<Longrightarrow> \<not> lt x y"
begin

text \<open>\<open>n\<close> rounds of \<open>top\<close> and \<open>pop\<close>.\<close>

fun drain :: "nat \<Rightarrow> 'q \<Rightarrow> 'a list" where
  "drain 0 q = []"
| "drain (Suc n) q = (case top q of None \<Rightarrow> [] | Some x \<Rightarrow> x # drain n (pop q))"

lemma mset_drain: "inv q \<Longrightarrow> size (contents q) \<le> n \<Longrightarrow> mset (drain n q) = contents q"
proof (induction n arbitrary: q)
  case (Suc n)
  then show ?case
    using contents_pop [of q] top_None [of q] inv_pop [of q] by (auto split: option.splits)
qed simp

lemma sorted_drain:
  "inv q \<Longrightarrow> size (contents q) \<le> n \<Longrightarrow> sorted_wrt (\<lambda>x y. \<not> lt x y) (drain n q)"
proof (induction n arbitrary: q)
  case (Suc n)
  show ?case
  proof (cases "top q")
    case (Some x)
    then have c: "contents q = add_mset x (contents (pop q))"
      using Suc.prems(1) contents_pop by blast
    then have sz: "size (contents (pop q)) \<le> n" using Suc.prems(2) by simp
    have i: "inv (pop q)" using Suc.prems(1) inv_pop by blast
    have "set (drain n (pop q)) = set_mset (contents (pop q))"
      using mset_drain [OF i sz] by (metis set_mset_mset)
    then show ?thesis
      using Some Suc.IH [OF i sz] top_max [OF Suc.prems(1) Some] c by simp
  qed simp
qed simp

end

lemma mset_pq_push [simp]: "mset (pq_push lt x q) = add_mset x (mset q)"
  by (induction q) auto

lemma set_pq_push [simp]: "set (pq_push lt x q) = insert x (set q)"
  by (induction q) auto

context strict_weak_order
begin

lemma pq_inv_push: "pq_inv lt q \<Longrightarrow> pq_inv lt (pq_push lt x q)"
proof (induction q)
  case (Cons y q)
  then show ?case
    by (auto simp: pq_inv_def dest: asym neg_trans)
qed (simp add: pq_inv_def)

lemma prio_queue_list:
  "prio_queue lt (pq_push lt) pq_top pq_pop (pq_inv lt) mset"
proof unfold_locales
  fix q x y
  show "pq_inv lt q \<Longrightarrow> pq_inv lt (pq_push lt x q)" by (rule pq_inv_push)
  show "pq_inv lt q \<Longrightarrow> pq_inv lt (pq_pop q)"
    by (cases q) (simp_all add: pq_inv_def pq_pop_def)
  show "mset (pq_push lt x q) = add_mset x (mset q)" by simp
  show "pq_top q = Some x \<Longrightarrow> mset q = add_mset x (mset (pq_pop q))"
    by (cases q) (simp_all add: pq_top_def pq_pop_def)
  show "pq_top q = None \<longleftrightarrow> mset q = {#}" by (cases q) (simp_all add: pq_top_def)
  show "pq_inv lt q \<Longrightarrow> pq_top q = Some x \<Longrightarrow> y \<in># mset q \<Longrightarrow> \<not> lt x y"
    by (cases q) (auto simp: pq_inv_def pq_top_def)
qed

end

end
