(* ===== verification/Oid.thy ===== *)
theory Oid
  imports StdLib
begin

unbundle bit_operations_syntax

text \<open>
  Object identifiers: \<open>src/src/mongo/bson/oid.h\<close>, \<open>oid.cpp\<close> and the hex
  helpers of \<open>util/hex.h\<close>.  An \<open>OID\<close> is its twelve bytes: four of
  time (big endian), five of machine and process id, three of counter (big endian).
  Multi-byte integers are read through memory of a little-endian host: \<open>byte_of x i\<close>
  is the byte at address \<open>i\<close> of the integer \<open>x\<close>.
\<close>

section \<open>Bytes of integers\<close>

definition byte_of :: "nat \<Rightarrow> nat \<Rightarrow> char" where
  "byte_of x i = char_of (x div 256 ^ i)"

fun be_bytes :: "nat \<Rightarrow> nat \<Rightarrow> string" where
  "be_bytes 0 x = []"
| "be_bytes (Suc n) x = byte_of x n # be_bytes n x"

lemma length_be_bytes [simp]: "length (be_bytes n x) = n"
  by (induction n) auto

lemma of_char_byte_of [simp]: "(of_char (byte_of x i) :: nat) = x div 256 ^ i mod 256"
  by (simp add: byte_of_def of_char_of)

lemma mod_Suc_power: "x mod 256 ^ Suc n = (x div 256 ^ n mod 256) * 256 ^ n + x mod 256 ^ n"
  for x :: nat
  using mod_mult2_eq [of x "256 ^ n" 256] by (simp add: algebra_simps)

lemma high_digit_less: "a < b \<Longrightarrow> r < m \<Longrightarrow> a * m + r < b * m + s" for a b r s m :: nat
proof -
  assume "a < b" "r < m"
  then have "a * m + r < Suc a * m" by simp
  also have "\<dots> \<le> b * m" using \<open>a < b\<close> by (intro mult_le_mono1) simp
  finally show ?thesis by simp
qed

lemma be_bytes_less_iff:
  "byte_cmp (be_bytes n x) (be_bytes n y) < 0 \<longleftrightarrow> x mod 256 ^ n < y mod 256 ^ n"
proof (induction n)
  case (Suc n)
  let ?a = "x div 256 ^ n mod 256" and ?b = "y div 256 ^ n mod 256"
  consider "?a < ?b" | "?b < ?a" | "?a = ?b" by linarith
  then show ?case
  proof cases
    case 1
    then show ?thesis
      using high_digit_less [OF 1, of "x mod 256 ^ n" "256 ^ n" "y mod 256 ^ n"]
      by (simp only: be_bytes.simps byte_cmp.simps of_char_byte_of mod_Suc_power) simp
  next
    case 2
    then show ?thesis
      using high_digit_less [OF 2, of "y mod 256 ^ n" "256 ^ n" "x mod 256 ^ n"]
      by (simp only: be_bytes.simps byte_cmp.simps of_char_byte_of mod_Suc_power) simp
  next
    case 3
    then show ?thesis
      using Suc.IH by (simp only: be_bytes.simps byte_cmp.simps of_char_byte_of mod_Suc_power) simp
  qed
qed simp

lemma be_bytes_eq_iff: "be_bytes n x = be_bytes n y \<longleftrightarrow> x mod 256 ^ n = y mod 256 ^ n"
  by (metis be_bytes_less_iff byte_cmp_refl byte_cmp_zero_iff byte_cmp_anti less_irrefl
      linorder_neqE_nat linorder_cases neg_0_less_iff_less)

section \<open>The OID class\<close>

datatype oid = OID (oid_data: string)

definition kOIDSize :: nat where
  "kOIDSize = 12"

definition oid_wf :: "oid \<Rightarrow> bool" where
  "oid_wf x \<longleftrightarrow> length (oid_data x) = kOIDSize"

definition oid_null :: oid where
  "oid_null = OID (replicate kOIDSize NUL)"

definition oid_compare :: "oid \<Rightarrow> oid \<Rightarrow> int" where
  "oid_compare x y = memcmp (oid_data x) (oid_data y) kOIDSize"

definition oid_lt :: "oid \<Rightarrow> oid \<Rightarrow> bool" where
  "oid_lt x y \<longleftrightarrow> oid_compare x y < 0"

definition oid_le :: "oid \<Rightarrow> oid \<Rightarrow> bool" where
  "oid_le x y \<longleftrightarrow> oid_compare x y \<le> 0"

text \<open>\<open>operator==\<close> compares the first eight bytes and the last four.\<close>

definition oid_eq :: "oid \<Rightarrow> oid \<Rightarrow> bool" where
  "oid_eq x y \<longleftrightarrow> take 8 (oid_data x) = take 8 (oid_data y)
     \<and> take 4 (drop 8 (oid_data x)) = take 4 (drop 8 (oid_data y))"

definition oid_isSet :: "oid \<Rightarrow> bool" where
  "oid_isSet x \<longleftrightarrow> x \<noteq> oid_null"

lemma oid_compare_eq_0: "oid_wf x \<Longrightarrow> oid_wf y \<Longrightarrow> oid_compare x y = 0 \<longleftrightarrow> x = y"
  by (cases x; cases y) (simp add: oid_compare_def memcmp_def oid_wf_def)

lemma oid_compare_anti: "oid_compare y x = - oid_compare x y"
  by (simp add: oid_compare_def memcmp_def byte_cmp_anti [of "take kOIDSize (oid_data x)"])

interpretation oid_order: strict_weak_order oid_lt
proof
  fix x y z
  show "oid_lt x y \<Longrightarrow> \<not> oid_lt y x"
    by (simp add: oid_lt_def oid_compare_anti [of x y])
  show "\<not> oid_lt x y \<Longrightarrow> \<not> oid_lt y z \<Longrightarrow> \<not> oid_lt x z"
    using byte_cmp_trans_le [of "take kOIDSize (oid_data z)" "take kOIDSize (oid_data y)"
        "take kOIDSize (oid_data x)"]
    by (simp add: oid_lt_def oid_compare_def memcmp_def byte_cmp_anti [of "take kOIDSize (oid_data z)"]
        byte_cmp_anti [of "take kOIDSize (oid_data y)" "take kOIDSize (oid_data x)"])
qed

lemma oid_lt_total: "oid_wf x \<Longrightarrow> oid_wf y \<Longrightarrow> oid_lt x y \<or> oid_lt y x \<or> x = y"
  using oid_compare_eq_0 [of x y] oid_compare_anti [of x y] by (auto simp: oid_lt_def)

lemma oid_equiv_eq: "oid_wf x \<Longrightarrow> oid_wf y \<Longrightarrow> \<not> oid_lt x y \<Longrightarrow> \<not> oid_lt y x \<Longrightarrow> x = y"
  using oid_lt_total by blast

lemma oid_eq_take: "oid_eq x y \<longleftrightarrow> take kOIDSize (oid_data x) = take kOIDSize (oid_data y)"
proof
  assume e: "oid_eq x y"
  have t: "take kOIDSize d = take 8 d @ take 4 (drop 8 d)" for d :: string
    using take_add [of 8 4 d] by (simp add: kOIDSize_def)
  show "take kOIDSize (oid_data x) = take kOIDSize (oid_data y)"
    using e unfolding t oid_eq_def by simp
next
  assume t: "take kOIDSize (oid_data x) = take kOIDSize (oid_data y)"
  have "take 8 d = take 8 (take kOIDSize d)" "take 4 (drop 8 d) = drop 8 (take kOIDSize d)" for d :: string
    by (simp_all add: kOIDSize_def drop_take)
  with t show "oid_eq x y" by (metis oid_eq_def)
qed

lemma oid_eq_iff: "oid_eq x y \<longleftrightarrow> \<not> oid_lt x y \<and> \<not> oid_lt y x"
proof -
  have "oid_eq x y \<longleftrightarrow> oid_compare x y = 0"
    by (simp add: oid_eq_take oid_compare_def memcmp_def)
  then show ?thesis by (auto simp: oid_lt_def oid_compare_anti [of x y])
qed

lemma oid_eq_wf: "oid_wf x \<Longrightarrow> oid_wf y \<Longrightarrow> oid_eq x y \<longleftrightarrow> x = y"
  by (auto simp: oid_eq_iff dest: oid_equiv_eq)

subsection \<open>Hexadecimal text\<close>

definition hexchars :: string where
  "hexchars = ''0123456789abcdef''"

definition toHexLower :: "string \<Rightarrow> string" where
  "toHexLower bs = concat (map (\<lambda>c. [hexchars ! (of_char c div 16), hexchars ! (of_char c mod 16)]) bs)"

definition fromHex_digit :: "char \<Rightarrow> nat result" where
  "fromHex_digit c =
     (let n = (of_char c :: nat) in
      if 48 \<le> n \<and> n \<le> 57 then Inr (n - 48)
      else if 97 \<le> n \<and> n \<le> 102 then Inr (n - 97 + 10)
      else if 65 \<le> n \<and> n \<le> 70 then Inr (n - 65 + 10)
      else Inl (VerifyFailed ''fromHex''))"

definition fromHex :: "char \<Rightarrow> char \<Rightarrow> char result" where
  "fromHex hi lo = rbind (fromHex_digit hi) (\<lambda>h. rbind (fromHex_digit lo) (\<lambda>l.
     Inr (char_of (push_bit 4 h OR l))))"

fun fromHex_pairs :: "string \<Rightarrow> string result" where
  "fromHex_pairs (hi # lo # s) =
     rbind (fromHex hi lo) (\<lambda>c. rbind (fromHex_pairs s) (\<lambda>cs. Inr (c # cs)))"
| "fromHex_pairs _ = Inr []"

definition oid_str :: "oid \<Rightarrow> string" where
  "oid_str x = toHexLower (oid_data x)"

definition oid_toIncString :: "oid \<Rightarrow> string" where
  "oid_toIncString x = toHexLower (drop 9 (oid_data x))"

definition oid_init_string :: "string \<Rightarrow> oid result" where
  "oid_init_string s =
     (if length s = 24 then rbind (fromHex_pairs s) (\<lambda>d. Inr (OID d))
      else Inl (VerifyFailed ''s.size() == 24''))"

lemma hex_digits_all: "list_all (\<lambda>n. fromHex_digit (hexchars ! n) = Inr n) [0..<16]"
  by code_simp

lemma hex_digit_roundtrip: "n < 16 \<Longrightarrow> fromHex_digit (hexchars ! n) = Inr n"
  using hex_digits_all by (simp add: list_all_iff)

lemma push_or_nibble: "h < 16 \<Longrightarrow> l < 16 \<Longrightarrow> push_bit 4 h OR l = h * 16 + l" for h l :: nat
proof -
  assume "h < 16" "l < 16"
  have "push_bit 4 h OR l = push_bit 4 h + l"
  proof (rule disjunctive_add [symmetric])
    fix n
    show "\<not> bit (push_bit 4 h) n \<or> \<not> bit l n"
      using \<open>l < 16\<close> bit_take_bit_iff [of 4 l n] take_bit_nat_eq_self [of l 4]
      by (auto simp: bit_push_bit_iff)
  qed
  then show ?thesis by (simp add: push_bit_eq_mult)
qed

lemma fromHex_toHex: "fromHex (hexchars ! (of_char c div 16)) (hexchars ! (of_char c mod 16)) = Inr c"
proof -
  have "of_char c div 16 < (16 :: nat)" using nat_of_char_less_256 [of c] by (simp add: less_mult_imp_div_less)
  then show ?thesis
    by (simp add: fromHex_def hex_digit_roundtrip push_or_nibble)
qed

lemma fromHex_pairs_toHexLower: "fromHex_pairs (toHexLower bs) = Inr bs"
  by (induction bs) (simp_all add: toHexLower_def fromHex_toHex)

lemma length_toHexLower [simp]: "length (toHexLower bs) = 2 * length bs"
  by (induction bs) (simp_all add: toHexLower_def)

subsection \<open>Generation\<close>

record machine_and_pid =
  machineNumber :: string
  mpid :: "16 word"

text \<open>The five bytes of a \<open>MachineAndPid\<close> as they lie in the packed OID.\<close>

definition mp_bytes :: "machine_and_pid \<Rightarrow> string" where
  "mp_bytes x = machineNumber x @ [byte_of (unat (mpid x)) 0, byte_of (unat (mpid x)) 1]"

definition mp_wf :: "machine_and_pid \<Rightarrow> bool" where
  "mp_wf x \<longleftrightarrow> length (machineNumber x) = 3"

definition foldInPid :: "32 word \<Rightarrow> machine_and_pid \<Rightarrow> machine_and_pid" where
  "foldInPid p x =
     (let rest = (of_char (machineNumber x ! 1) + 256 * of_char (machineNumber x ! 2) :: nat);
          rest' = (of_nat rest :: 16 word) XOR ucast (drop_bit 16 p)
      in x\<lparr>mpid := mpid x XOR ucast p,
           machineNumber := [machineNumber x ! 0, byte_of (unat rest') 0, byte_of (unat rest') 1]\<rparr>)"

text \<open>
  \<open>genMachineAndPid\<close> draws a random 64-bit integer; its first five bytes become
  \<open>ourMachine\<close>, and the process id is folded into the copy that is returned.
\<close>

definition machine_of_random :: "i64 \<Rightarrow> machine_and_pid" where
  "machine_of_random n =
     \<lparr>machineNumber = [byte_of (unat n) 0, byte_of (unat n) 1, byte_of (unat n) 2],
      mpid = ucast (drop_bit 24 n)\<rparr>"

definition genMachineAndPid :: "i64 \<Rightarrow> 32 word \<Rightarrow> machine_and_pid \<times> machine_and_pid" where
  "genMachineAndPid n p = (machine_of_random n, foldInPid p (machine_of_random n))"

definition getMachineId :: "machine_and_pid \<Rightarrow> nat" where
  "getMachineId ours =
     of_char (machineNumber ours ! 0) + 256 * of_char (machineNumber ours ! 1)
       + 256 ^ 2 * of_char (machineNumber ours ! 2)"

text \<open>\<open>init()\<close>: the time, our machine and process id, and the low three bytes of the counter.\<close>

definition oid_init :: "32 word \<Rightarrow> machine_and_pid \<Rightarrow> 32 word \<Rightarrow> oid \<times> 32 word" where
  "oid_init t ours inc =
     (let T = byte_of (unat t); new_inc = inc; I = byte_of (unat new_inc)
      in (OID ([T 3, T 2, T 1, T 0] @ mp_bytes ours @ [I 2, I 1, I 0]), inc + 1))"

definition oid_initSequential :: "32 word \<Rightarrow> u64 \<Rightarrow> oid \<times> u64" where
  "oid_initSequential t seq =
     (let T = byte_of (unat t); N = byte_of (unat seq)
      in (OID ([T 3, T 2, T 1, T 0] @ map (\<lambda>i. N (7 - i)) [0..<8]), seq + 1))"

definition oid_init_date :: "u64 \<Rightarrow> bool \<Rightarrow> oid" where
  "oid_init_date date mx =
     (let time = (ucast (date div 1000) :: 32 word); T = byte_of (unat time)
      in OID ([T 3, T 2, T 1, T 0] @ replicate 8 (if mx then CHR 0xFF else CHR 0x00)))"

definition oid_asTimeT :: "oid \<Rightarrow> i32" where
  "oid_asTimeT x =
     (let d = oid_data x
      in of_nat (of_char (d ! 3) + 256 * of_char (d ! 2) + 256 ^ 2 * of_char (d ! 1)
           + 256 ^ 3 * of_char (d ! 0)))"

subsection \<open>What generation guarantees\<close>

lemma time_bytes: "be_bytes 4 x = [byte_of x 3, byte_of x 2, byte_of x 1, byte_of x 0]"
  by (simp add: numeral_eq_Suc)

lemma inc_bytes: "be_bytes 3 x = [byte_of x 2, byte_of x 1, byte_of x 0]"
  by (simp add: numeral_eq_Suc)

lemma seq_bytes: "be_bytes 8 x = map (\<lambda>i. byte_of x (7 - i)) [0..<8]"
  by (simp add: numeral_eq_Suc upt_rec)

lemmas oid_bytes = time_bytes inc_bytes seq_bytes

lemma unat_32: "unat (x :: 32 word) < 2 ^ 32"
proof -
  have "unat x < 2 ^ LENGTH(32)" by (rule unsigned_less)
  then show ?thesis by simp
qed

lemma oid_init_alt:
  "oid_init t ours inc =
     (OID (be_bytes 4 (unat t) @ mp_bytes ours @ be_bytes 3 (unat inc)), inc + 1)"
  by (simp only: oid_init_def Let_def oid_bytes)

lemma oid_initSequential_alt:
  "oid_initSequential t seq = (OID (be_bytes 4 (unat t) @ be_bytes 8 (unat seq)), seq + 1)"
  by (simp only: oid_initSequential_def Let_def oid_bytes)

lemma oid_init_wf: "mp_wf ours \<Longrightarrow> oid_wf (fst (oid_init t ours inc))"
  by (simp add: oid_init_alt oid_wf_def mp_wf_def mp_bytes_def kOIDSize_def)

lemma byte_cmp_append_less: "length xs = length ys \<Longrightarrow> byte_cmp xs ys < 0 \<Longrightarrow> byte_cmp (xs @ us) (ys @ vs) < 0"
  by (induction xs ys rule: byte_cmp.induct) (auto split: if_splits)

lemma byte_cmp_append_same [simp]: "byte_cmp (xs @ us) (xs @ vs) = byte_cmp us vs"
  by (induction xs) auto

text \<open>A run of \<open>init()\<close>, one call per clock reading.\<close>

fun oid_gen :: "32 word list \<Rightarrow> machine_and_pid \<Rightarrow> 32 word \<Rightarrow> oid list" where
  "oid_gen [] ours inc = []"
| "oid_gen (t # ts) ours inc =
     (let (x, inc') = oid_init t ours inc in x # oid_gen ts ours inc')"

lemma length_oid_gen [simp]: "length (oid_gen ts ours inc) = length ts"
  by (induction ts arbitrary: inc) (simp_all add: oid_init_alt)

lemma oid_gen_nth:
  "i < length ts \<Longrightarrow> oid_gen ts ours inc ! i = fst (oid_init (ts ! i) ours (inc + of_nat i))"
proof (induction ts arbitrary: inc i)
  case (Cons t ts)
  then show ?case by (cases i) (simp_all add: oid_init_alt add.assoc)
qed simp

lemma counter_bytes_inj:
  assumes "i < 2 ^ 24" "j < 2 ^ 24"
    and "unat (inc + of_nat i :: 32 word) mod 2 ^ 24 = unat (inc + of_nat j :: 32 word) mod 2 ^ 24"
  shows "i = j"
proof -
  have u32: "unat (inc + of_nat k :: 32 word) = (unat inc + k) mod 2 ^ 32" for k
    by (simp add: unat_word_ariths(1) unat_of_nat mod_add_right_eq)
  have u: "unat (inc + of_nat k :: 32 word) mod 2 ^ 24 = (unat inc + k) mod 2 ^ 24" for k
    unfolding u32 by (rule mod_mod_cancel) (simp add: le_imp_power_dvd)
  from assms(3) have "(unat inc + i) mod 2 ^ 24 = (unat inc + j) mod 2 ^ 24" by (simp only: u)
  then have "i mod 2 ^ 24 = j mod 2 ^ 24"
    by (simp only: nat_mod_eq_iff) auto
  with assms(1,2) show ?thesis by simp
qed

section \<open>Properties\<close>

text \<open>C28. Printing an object id as 24 hex digits and reading the text back gives the id.\<close>

theorem oid_str_roundtrip:
  assumes "oid_wf x"
  shows "oid_init_string (oid_str x) = Inr x"
  using assms
  by (simp add: oid_init_string_def oid_str_def oid_wf_def kOIDSize_def fromHex_pairs_toHexLower)

theorem oid_str_roundtrip_witness:
  "oid_wf (OID ''abcdefghijkl'') \<and>
   oid_init_string (oid_str (OID ''abcdefghijkl'')) = Inr (OID ''abcdefghijkl'')"
proof -
  have "oid_wf (OID ''abcdefghijkl'')" by (simp add: oid_wf_def kOIDSize_def)
  then show ?thesis using oid_str_roundtrip by blast
qed

text \<open>
  Ids generated by one process are pairwise distinct over any run of at most
  \<open>2 ^ 24\<close> calls, whatever the clock does and wherever the counter starts.
\<close>

theorem oid_init_distinct:
  assumes "length ts \<le> 2 ^ 24"
  shows "distinct (oid_gen ts ours inc)"
proof (unfold distinct_conv_nth length_oid_gen, intro allI impI)
  fix i j
  assume i: "i < length ts" and j: "j < length ts" and "i \<noteq> j"
  have "i = j" if "oid_gen ts ours inc ! i = oid_gen ts ours inc ! j"
  proof (rule counter_bytes_inj)
    show "i < 2 ^ 24" "j < 2 ^ 24" using i j assms by (auto intro: less_le_trans)
    from that have "be_bytes 3 (unat (inc + of_nat i)) = be_bytes 3 (unat (inc + of_nat j))"
      using i j by (simp add: oid_gen_nth oid_init_alt)
    then show "unat (inc + of_nat i) mod 2 ^ 24 = unat (inc + of_nat j) mod 2 ^ 24"
      by (simp add: be_bytes_eq_iff)
  qed
  with \<open>i \<noteq> j\<close> show "oid_gen ts ours inc ! i \<noteq> oid_gen ts ours inc ! j" by blast
qed

theorem oid_init_distinct_witness:
  "length [5, 5, 4 :: 32 word] \<le> 2 ^ 24 \<and>
   distinct (oid_gen [5, 5, 4] \<lparr>machineNumber = ''abc'', mpid = 7\<rparr> 4294967295)"
proof -
  have "length [5, 5, 4 :: 32 word] \<le> 2 ^ 24" by simp
  then show ?thesis using oid_init_distinct by blast
qed

text \<open>
  Object ids sort by creation time first: an id generated at an earlier second is
  smaller than one generated at a later second, on any machine and with any counter.
\<close>

theorem oid_time_order:
  assumes "unat t1 < unat t2"
  shows "oid_lt (fst (oid_init t1 m1 i1)) (fst (oid_init t2 m2 i2))"
proof -
  have "byte_cmp (be_bytes 4 (unat t1)) (be_bytes 4 (unat t2)) < 0"
    unfolding be_bytes_less_iff using assms unat_32 [of t1] unat_32 [of t2] by simp
  then have "byte_cmp (be_bytes 4 (unat t1) @ us) (be_bytes 4 (unat t2) @ vs) < 0" for us vs
    by (intro byte_cmp_append_less) simp_all
  then show ?thesis
    by (simp add: oid_lt_def oid_compare_def memcmp_def oid_init_alt kOIDSize_def)
qed

theorem oid_time_order_witness:
  "unat (255 :: 32 word) < unat (256 :: 32 word) \<and>
   oid_lt (fst (oid_init 255 \<lparr>machineNumber = ''zzz'', mpid = 9\<rparr> 8))
          (fst (oid_init 256 \<lparr>machineNumber = ''aaa'', mpid = 1\<rparr> 3))"
proof -
  have "unat (255 :: 32 word) < unat (256 :: 32 word)" by simp
  then show ?thesis using oid_time_order by blast
qed

text \<open>
  The ids produced by \<open>initSequential\<close> within one second are strictly increasing,
  up to the wrap-around of the 64-bit sequence number.
\<close>

theorem oid_initSequential_increasing:
  assumes "unat seq + 1 < 2 ^ 64"
  shows "oid_lt (fst (oid_initSequential t seq))
                (fst (oid_initSequential t (snd (oid_initSequential t seq))))"
proof -
  have "unat (seq + 1) = unat seq + 1"
    using assms by (simp add: unat_word_ariths(1))
  then have "byte_cmp (be_bytes 8 (unat seq)) (be_bytes 8 (unat (seq + 1))) < 0"
    unfolding be_bytes_less_iff using assms by simp
  then show ?thesis
    by (simp add: oid_lt_def oid_compare_def memcmp_def oid_initSequential_alt kOIDSize_def)
qed

theorem oid_initSequential_increasing_witness:
  "unat (255 :: u64) + 1 < 2 ^ 64 \<and>
   oid_lt (fst (oid_initSequential 7 255)) (fst (oid_initSequential 7 (snd (oid_initSequential 7 255))))"
proof -
  have "unat (255 :: u64) + 1 < 2 ^ 64" by simp
  then show ?thesis using oid_initSequential_increasing by blast
qed

text \<open>
  The two range ids of a date bound every id generated in that second from below and
  above.
\<close>

theorem oid_init_date_bounds:
  assumes "mp_wf ours"
  shows "oid_le (oid_init_date date False) (fst (oid_init (ucast (date div 1000)) ours inc)) \<and>
         oid_le (fst (oid_init (ucast (date div 1000)) ours inc)) (oid_init_date date True)"
proof -
  have lo: "byte_cmp (replicate (length xs) (CHR 0x00)) xs \<le> 0" for xs
    by (induction xs) auto
  have hi: "byte_cmp xs (replicate (length xs) (CHR 0xFF)) \<le> 0" for xs
  proof (induction xs)
    case (Cons x xs)
    have "(of_char x :: nat) < 256" by (rule nat_of_char_less_256)
    then have "(of_char x :: nat) \<le> 255" by linarith
    with Cons show ?case by simp
  qed simp
  define rest where "rest = mp_bytes ours @ be_bytes 3 (unat inc)"
  have len: "length rest = 8"
    using assms by (simp add: rest_def mp_bytes_def mp_wf_def)
  have "oid_init_date date b = OID (be_bytes 4 (unat (ucast (date div 1000) :: 32 word))
      @ replicate 8 (if b then CHR 0xFF else CHR 0x00))" for b
    by (simp only: oid_init_date_def Let_def oid_bytes)
  then show ?thesis
    using lo [of rest] hi [of rest] len
    by (simp add: oid_le_def oid_compare_def memcmp_def oid_init_alt kOIDSize_def
        flip: rest_def)
qed

theorem oid_init_date_bounds_witness:
  "mp_wf \<lparr>machineNumber = ''abc'', mpid = 7\<rparr> \<and>
   oid_le (oid_init_date 1400000000123 False)
     (fst (oid_init (ucast ((1400000000123 :: u64) div 1000)) \<lparr>machineNumber = ''abc'', mpid = 7\<rparr> 9)) \<and>
   oid_le (fst (oid_init (ucast ((1400000000123 :: u64) div 1000)) \<lparr>machineNumber = ''abc'', mpid = 7\<rparr> 9))
     (oid_init_date 1400000000123 True)"
proof -
  have "mp_wf \<lparr>machineNumber = ''abc'', mpid = 7\<rparr>" by (simp add: mp_wf_def)
  then show ?thesis using oid_init_date_bounds by blast
qed

end
