(* ===== verification/Bson.thy ===== *)
theory Bson
  imports Oid
begin

text \<open>
  BSON documents and their comparison: \<open>src/src/mongo/bson/bsontypes.h\<close>,
  \<open>bsonelement.h\<close>, \<open>bsonobj.h\<close>, \<open>bson-inl.h\<close> and \<open>db/jsobj.cpp\<close>.
  A document is the list of its elements in order; an element is its field name and its
  value; the end-of-object element that a failed lookup returns is \<open>EOO_elem\<close>.

  Integers keep their widths.  A double is \<open>NaN\<close>, an infinity or a rational;
  converting a 64-bit integer rounds to 53 bits, half to even.  Converting a double that
  does not fit to an integer gives the value the x86-64 instruction gives (the smallest
  integer of the width); the language leaves it open.
\<close>

section \<open>Doubles\<close>

datatype dbl = DNaN | DNegInf | DFin rat | DPosInf

fun dbl_lt :: "dbl \<Rightarrow> dbl \<Rightarrow> bool" where
  "dbl_lt DNaN _ = False"
| "dbl_lt _ DNaN = False"
| "dbl_lt DNegInf y = (y \<noteq> DNegInf)"
| "dbl_lt (DFin x) (DFin y) = (x < y)"
| "dbl_lt (DFin x) y = (y = DPosInf)"
| "dbl_lt DPosInf _ = False"

fun dbl_eq :: "dbl \<Rightarrow> dbl \<Rightarrow> bool" where
  "dbl_eq DNaN _ = False"
| "dbl_eq x y = (x = y)"

fun bit_len :: "nat \<Rightarrow> nat" where
  "bit_len n = (if n = 0 then 0 else Suc (bit_len (n div 2)))"

declare bit_len.simps [simp del]

text \<open>The rounding of a conversion to double: to nearest, ties to even, 53 bits.\<close>

definition round53 :: "nat \<Rightarrow> nat" where
  "round53 n =
     (if bit_len n \<le> 53 then n
      else let s = bit_len n - 53; q = n div 2 ^ s; r = n mod 2 ^ s; h = 2 ^ (s - 1)
           in (if h < r \<or> (r = h \<and> odd q) then q + 1 else q) * 2 ^ s)"

definition dbl_of_int :: "int \<Rightarrow> dbl" where
  "dbl_of_int i = DFin (of_int (sgn i * int (round53 (nat \<bar>i\<bar>))))"

fun dbl_trunc :: "dbl \<Rightarrow> int option" where
  "dbl_trunc (DFin r) = Some (if 0 \<le> r then \<lfloor>r\<rfloor> else \<lceil>r\<rceil>)"
| "dbl_trunc _ = None"

definition dbl_to_i64 :: "dbl \<Rightarrow> i64" where
  "dbl_to_i64 d = (case dbl_trunc d of
     Some i \<Rightarrow> if - (2 ^ 63) \<le> i \<and> i < 2 ^ 63 then word_of_int i else word_of_int (- (2 ^ 63))
   | None \<Rightarrow> word_of_int (- (2 ^ 63)))"

definition dbl_to_i32 :: "dbl \<Rightarrow> i32" where
  "dbl_to_i32 d = (case dbl_trunc d of
     Some i \<Rightarrow> if - (2 ^ 31) \<le> i \<and> i < 2 ^ 31 then word_of_int i else word_of_int (- (2 ^ 31))
   | None \<Rightarrow> word_of_int (- (2 ^ 31)))"

definition dbl_floor :: "dbl \<Rightarrow> dbl" where
  "dbl_floor d = (case d of DFin r \<Rightarrow> DFin (of_int \<lfloor>r\<rfloor>) | _ \<Rightarrow> d)"

lemma round53_small: "n < 2 ^ 53 \<Longrightarrow> round53 n = n"
proof -
  have "n < 2 ^ k \<Longrightarrow> bit_len n \<le> k" for k
  proof (induction n arbitrary: k rule: bit_len.induct)
    case (1 n)
    show ?case
    proof (cases "n = 0")
      case True
      then show ?thesis by (simp add: bit_len.simps [of 0])
    next
      case False
      with "1.prems" obtain j where k: "k = Suc j" by (cases k) auto
      have "n div 2 < 2 ^ j" using "1.prems" k by simp
      with "1.IH" False k show ?thesis by (simp add: bit_len.simps [of n])
    qed
  qed
  moreover assume "n < 2 ^ 53"
  ultimately show ?thesis by (simp add: round53_def)
qed

lemma dbl_of_int_exact: "\<bar>i\<bar> < 2 ^ 53 \<Longrightarrow> dbl_of_int i = DFin (of_int i)"
proof -
  assume "\<bar>i\<bar> < 2 ^ 53"
  then have "nat \<bar>i\<bar> < 2 ^ 53" by (simp add: nat_less_iff)
  then show ?thesis by (simp add: dbl_of_int_def round53_small sgn_mult_abs)
qed

section \<open>Types\<close>

datatype btype =
    MinKey | EOO | NumberDouble | String | Object | Array | BinData | Undefined | jstOID
  | Bool | Date | jstNULL | RegEx | DBRef | Code | Symbol | CodeWScope | NumberInt
  | Timestamp | NumberLong | MaxKey

fun btype_code :: "btype \<Rightarrow> int" where
  "btype_code MinKey = -1"
| "btype_code EOO = 0"
| "btype_code NumberDouble = 1"
| "btype_code String = 2"
| "btype_code Object = 3"
| "btype_code Array = 4"
| "btype_code BinData = 5"
| "btype_code Undefined = 6"
| "btype_code jstOID = 7"
| "btype_code Bool = 8"
| "btype_code Date = 9"
| "btype_code jstNULL = 10"
| "btype_code RegEx = 11"
| "btype_code DBRef = 12"
| "btype_code Code = 13"
| "btype_code Symbol = 14"
| "btype_code CodeWScope = 15"
| "btype_code NumberInt = 16"
| "btype_code Timestamp = 17"
| "btype_code NumberLong = 18"
| "btype_code MaxKey = 127"

fun typeName :: "btype \<Rightarrow> string" where
  "typeName MinKey = ''MinKey''"
| "typeName EOO = ''EOO''"
| "typeName NumberDouble = ''NumberDouble''"
| "typeName String = ''String''"
| "typeName Object = ''Object''"
| "typeName Array = ''Array''"
| "typeName BinData = ''BinaryData''"
| "typeName Undefined = ''Undefined''"
| "typeName jstOID = ''OID''"
| "typeName Bool = ''Bool''"
| "typeName Date = ''Date''"
| "typeName jstNULL = ''NULL''"
| "typeName RegEx = ''RegEx''"
| "typeName DBRef = ''DBRef''"
| "typeName Code = ''Code''"
| "typeName Symbol = ''Symbol''"
| "typeName CodeWScope = ''CodeWScope''"
| "typeName NumberInt = ''NumberInt32''"
| "typeName Timestamp = ''Timestamp''"
| "typeName NumberLong = ''NumberLong64''"
| "typeName MaxKey = ''MaxKey''"

fun canonicalizeBSONType :: "btype \<Rightarrow> int" where
  "canonicalizeBSONType MinKey = -1"
| "canonicalizeBSONType MaxKey = 127"
| "canonicalizeBSONType EOO = 0"
| "canonicalizeBSONType Undefined = 0"
| "canonicalizeBSONType jstNULL = 5"
| "canonicalizeBSONType NumberDouble = 10"
| "canonicalizeBSONType NumberInt = 10"
| "canonicalizeBSONType NumberLong = 10"
| "canonicalizeBSONType String = 15"
| "canonicalizeBSONType Symbol = 15"
| "canonicalizeBSONType Object = 20"
| "canonicalizeBSONType Array = 25"
| "canonicalizeBSONType BinData = 30"
| "canonicalizeBSONType jstOID = 35"
| "canonicalizeBSONType Bool = 40"
| "canonicalizeBSONType Date = 45"
| "canonicalizeBSONType Timestamp = 45"
| "canonicalizeBSONType RegEx = 50"
| "canonicalizeBSONType DBRef = 55"
| "canonicalizeBSONType Code = 60"
| "canonicalizeBSONType CodeWScope = 65"

section \<open>Values, elements, objects\<close>

datatype bval =
    BMinKey
  | BEOO
  | BNumberDouble dbl
  | BString string
  | BObject "(string \<times> bval) list"
  | BArray "(string \<times> bval) list"
  | BBinData char string
  | BUndefined
  | BOid oid
  | BBool bool
  | BDate i64
  | BNull
  | BRegEx string string
  | BDBRef string oid
  | BCode string
  | BSymbol string
  | BCodeWScope string "(string \<times> bval) list"
  | BNumberInt i32
  | BTimestamp u64
  | BNumberLong i64
  | BMaxKey

type_synonym belem = "string \<times> bval"
type_synonym bobj = "belem list"

fun vtype :: "bval \<Rightarrow> btype" where
  "vtype BMinKey = MinKey"
| "vtype BEOO = EOO"
| "vtype (BNumberDouble _) = NumberDouble"
| "vtype (BString _) = String"
| "vtype (BObject _) = Object"
| "vtype (BArray _) = Array"
| "vtype (BBinData _ _) = BinData"
| "vtype BUndefined = Undefined"
| "vtype (BOid _) = jstOID"
| "vtype (BBool _) = Bool"
| "vtype (BDate _) = Date"
| "vtype BNull = jstNULL"
| "vtype (BRegEx _ _) = RegEx"
| "vtype (BDBRef _ _) = DBRef"
| "vtype (BCode _) = Code"
| "vtype (BSymbol _) = Symbol"
| "vtype (BCodeWScope _ _) = CodeWScope"
| "vtype (BNumberInt _) = NumberInt"
| "vtype (BTimestamp _) = Timestamp"
| "vtype (BNumberLong _) = NumberLong"
| "vtype BMaxKey = MaxKey"

definition etype :: "belem \<Rightarrow> btype" where
  "etype e = vtype (snd e)"

definition EOO_elem :: belem where
  "EOO_elem = ('''', BEOO)"

definition eoo :: "belem \<Rightarrow> bool" where
  "eoo e \<longleftrightarrow> etype e = EOO"

definition fieldName :: "belem \<Rightarrow> string" where
  "fieldName e = (if eoo e then '''' else fst e)"

definition canonicalType :: "belem \<Rightarrow> int" where
  "canonicalType e = canonicalizeBSONType (etype e)"

definition isABSONObj :: "belem \<Rightarrow> bool" where
  "isABSONObj e \<longleftrightarrow> etype e \<in> {Object, Array}"

definition mayEncapsulate :: "belem \<Rightarrow> bool" where
  "mayEncapsulate e \<longleftrightarrow> etype e \<in> {Object, Array, CodeWScope}"

definition isNumber :: "belem \<Rightarrow> bool" where
  "isNumber e \<longleftrightarrow> etype e \<in> {NumberLong, NumberDouble, NumberInt}"

definition isSimpleType :: "belem \<Rightarrow> bool" where
  "isSimpleType e \<longleftrightarrow>
     etype e \<in> {NumberLong, NumberDouble, NumberInt, String, Bool, Date, jstOID}"

text \<open>The elements under a document or array; \<open>[]\<close> for any other value.\<close>

fun subelems :: "bval \<Rightarrow> bobj" where
  "subelems (BObject fs) = fs"
| "subelems (BArray fs) = fs"
| "subelems _ = []"

definition embeddedObject :: "belem \<Rightarrow> bobj result" where
  "embeddedObject e =
     (if isABSONObj e then Inr (subelems (snd e)) else Inl (VerifyFailed ''isABSONObj()''))"

definition Obj :: "belem \<Rightarrow> bobj result" where
  "Obj e =
     (if isABSONObj e then Inr (subelems (snd e))
      else Inl (UserException 10065
             (''invalid parameter: expected an object ('' @ fieldName e @ '')'')))"

fun trueValue_v :: "bval \<Rightarrow> bool" where
  "trueValue_v (BNumberLong x) = (x \<noteq> 0)"
| "trueValue_v (BNumberDouble d) = (\<not> dbl_eq d (DFin 0))"
| "trueValue_v (BNumberInt x) = (x \<noteq> 0)"
| "trueValue_v (BBool b) = b"
| "trueValue_v BEOO = False"
| "trueValue_v BNull = False"
| "trueValue_v BUndefined = False"
| "trueValue_v _ = True"

definition trueValue :: "belem \<Rightarrow> bool" where
  "trueValue e = trueValue_v (snd e)"

definition numberDouble :: "belem \<Rightarrow> dbl" where
  "numberDouble e = (case snd e of
     BNumberDouble d \<Rightarrow> d
   | BNumberInt i \<Rightarrow> DFin (of_int (sint i))
   | BNumberLong i \<Rightarrow> dbl_of_int (sint i)
   | _ \<Rightarrow> DFin 0)"

definition numberInt :: "belem \<Rightarrow> i32" where
  "numberInt e = (case snd e of
     BNumberDouble d \<Rightarrow> dbl_to_i32 d
   | BNumberInt i \<Rightarrow> i
   | BNumberLong i \<Rightarrow> ucast i
   | _ \<Rightarrow> 0)"

definition numberLong :: "belem \<Rightarrow> i64" where
  "numberLong e = (case snd e of
     BNumberDouble d \<Rightarrow> dbl_to_i64 d
   | BNumberInt i \<Rightarrow> word_of_int (sint i)
   | BNumberLong i \<Rightarrow> i
   | _ \<Rightarrow> 0)"

definition safeNumberLong :: "belem \<Rightarrow> i64" where
  "safeNumberLong e = (case snd e of
     BNumberDouble d \<Rightarrow>
       if d = DNaN then 0
       else if dbl_lt (DFin (2 ^ 63)) d then word_of_int (2 ^ 63 - 1)
       else if dbl_lt d (DFin (- (2 ^ 63))) then word_of_int (- (2 ^ 63))
       else numberLong e
   | _ \<Rightarrow> numberLong e)"

section \<open>Field access\<close>

fun getField :: "string \<Rightarrow> bobj \<Rightarrow> belem" where
  "getField name [] = EOO_elem"
| "getField name (e # es) = (if name = fieldName e then e else getField name es)"

definition hasField :: "string \<Rightarrow> bobj \<Rightarrow> bool" where
  "hasField name obj \<longleftrightarrow> \<not> eoo (getField name obj)"

definition firstElement :: "bobj \<Rightarrow> belem" where
  "firstElement obj = (case obj of [] \<Rightarrow> EOO_elem | e # _ \<Rightarrow> e)"

definition nFields :: "bobj \<Rightarrow> nat" where
  "nFields obj = length (takeWhile (\<lambda>e. \<not> eoo e) obj)"

definition wrap :: "belem \<Rightarrow> bobj" where
  "wrap e = [e]"

definition wrap_as :: "string \<Rightarrow> belem \<Rightarrow> bobj" where
  "wrap_as newName e = [(newName, snd e)]"

definition getObjectField :: "string \<Rightarrow> bobj \<Rightarrow> bobj" where
  "getObjectField name obj =
     (let e = getField name obj in if etype e = Object \<or> etype e = Array then subelems (snd e) else [])"

function getFieldDotted :: "string \<Rightarrow> bobj \<Rightarrow> belem" where
  "getFieldDotted name obj =
     (let e = getField name obj in
      if eoo e \<and> CHR ''.'' \<in> set name then
        (let left = takeWhile (\<lambda>c. c \<noteq> CHR ''.'') name;
             right = drop (length left + 1) name;
             sub = getObjectField left obj
         in if sub = [] then EOO_elem else getFieldDotted right sub)
      else e)"
  by pat_completeness auto
termination
  by (relation "measure (\<lambda>(name, obj). length name)")
     (auto simp: length_pos_if_in_set intro!: diff_less)

definition getStringField :: "string \<Rightarrow> bobj \<Rightarrow> string" where
  "getStringField name obj = (case snd (getField name obj) of BString s \<Rightarrow> c_str s | _ \<Rightarrow> '''')"

definition getBoolField :: "string \<Rightarrow> bobj \<Rightarrow> bool" where
  "getBoolField name obj = (case snd (getField name obj) of BBool b \<Rightarrow> b | _ \<Rightarrow> False)"

definition valuestrsafe :: "belem \<Rightarrow> string" where
  "valuestrsafe e = (case snd e of BString s \<Rightarrow> c_str s | _ \<Rightarrow> '''')"

definition estr :: "belem \<Rightarrow> string" where
  "estr e = (case snd e of BString s \<Rightarrow> s | _ \<Rightarrow> '''')"

text \<open>The failure of \<open>chk(int)\<close>, which every accessor with a capital letter goes through.\<close>

definition chk_error :: "belem \<Rightarrow> btype \<Rightarrow> merror" where
  "chk_error e t = MsgAssertion 13111
     (if eoo e then ''field not found, expected type '' @ int_str (btype_code t)
      else ''wrong type for field ('' @ fieldName e @ '') '' @ int_str (btype_code (etype e))
           @ '' != '' @ int_str (btype_code t))"

definition eString :: "belem \<Rightarrow> string result" where
  "eString e = (case snd e of BString s \<Rightarrow> Inr s | _ \<Rightarrow> Inl (chk_error e String))"

definition eOID :: "belem \<Rightarrow> oid result" where
  "eOID e = (case snd e of BOid d \<Rightarrow> Inr d | _ \<Rightarrow> Inl (chk_error e jstOID))"

definition eBool :: "belem \<Rightarrow> bool result" where
  "eBool e = (case snd e of BBool b \<Rightarrow> Inr b | _ \<Rightarrow> Inl (chk_error e Bool))"

definition eInt :: "belem \<Rightarrow> i32 result" where
  "eInt e = (case snd e of BNumberInt i \<Rightarrow> Inr i | _ \<Rightarrow> Inl (chk_error e NumberInt))"

definition eLong :: "belem \<Rightarrow> i64 result" where
  "eLong e = (case snd e of BNumberLong i \<Rightarrow> Inr i | _ \<Rightarrow> Inl (chk_error e NumberLong))"

definition eDate :: "belem \<Rightarrow> i64 result" where
  "eDate e = (case snd e of BDate i \<Rightarrow> Inr i | _ \<Rightarrow> Inl (chk_error e Date))"

section \<open>Sizes in bytes\<close>

fun vsize :: "bval \<Rightarrow> nat" and osize :: "bobj \<Rightarrow> nat" where
  "vsize (BBool _) = 1"
| "vsize (BNumberInt _) = 4"
| "vsize (BTimestamp _) = 8"
| "vsize (BDate _) = 8"
| "vsize (BNumberDouble _) = 8"
| "vsize (BNumberLong _) = 8"
| "vsize (BOid _) = 12"
| "vsize (BSymbol s) = length s + 1 + 4"
| "vsize (BCode s) = length s + 1 + 4"
| "vsize (BString s) = length s + 1 + 4"
| "vsize (BDBRef s _) = length s + 1 + 4 + 12"
| "vsize (BCodeWScope s fs) = 4 + (4 + length s + 1) + osize fs"
| "vsize (BObject fs) = osize fs"
| "vsize (BArray fs) = osize fs"
| "vsize (BBinData _ d) = length d + 4 + 1"
| "vsize (BRegEx s t) = length s + 1 + length t + 1"
| "vsize _ = 0"
| "osize [] = 5"
| "osize (e # es) = vsize (snd e) + (length (fst e) + 1) + 1 + osize es"

definition esize :: "belem \<Rightarrow> nat" where
  "esize e = vsize (snd e) + (length (fst e) + 1) + 1"

lemma osize_ge: "5 \<le> osize fs"
  by (induction fs) auto

lemma osize_pos [simp]: "0 < osize fs"
  using osize_ge [of fs] by simp

lemma esize_mem: "e \<in> set fs \<Longrightarrow> esize e < osize fs"
proof (induction fs)
  case (Cons a fs)
  have "esize a < osize (a # fs)" using osize_ge [of fs] by (simp add: esize_def)
  moreover have "osize fs < osize (a # fs)" by simp
  ultimately show ?case using Cons by (auto intro: less_trans)
qed simp

lemma vsize_mem: "e \<in> set fs \<Longrightarrow> vsize (snd e) < osize fs"
  using esize_mem [of e fs] by (simp add: esize_def)

lemma osize_subelems: "vtype v \<in> {Object, Array} \<Longrightarrow> osize (subelems v) = vsize v"
  by (cases v) auto

lemma osize_subelems_le: "osize (subelems v) \<le> max 5 (vsize v)"
  by (cases v) auto

section \<open>Comparison\<close>

definition le32 :: "nat \<Rightarrow> string" where
  "le32 n = map char_of [n mod 256, n div 256 mod 256, n div 65536 mod 256, n div 16777216 mod 256]"

text \<open>
  The bytes after the first \<open>NUL\<close> of a code string with scope, up to the next one.  They are
  the rest of the code, or the first bytes of the scope's length word; a length word always
  contains a \<open>NUL\<close>, since no document is longer than 16 MB and 16 KB.
\<close>

definition codeWScopeScopeDataUnsafe :: "string \<Rightarrow> bobj \<Rightarrow> string" where
  "codeWScopeScopeDataUnsafe c scope =
     c_str (drop (length (c_str c) + 1) (c @ [NUL] @ le32 (osize scope)))"

definition cmp3 :: "bool \<Rightarrow> bool \<Rightarrow> int" where
  "cmp3 lt eq = (if lt then -1 else if eq then 0 else 1)"

definition compareDoubles :: "dbl \<Rightarrow> dbl \<Rightarrow> int" where
  "compareDoubles left right =
     (if dbl_lt left right then -1
      else if dbl_eq left right then 0
      else if left = DNaN then (if right = DNaN then 0 else -1)
      else 1)"

definition compareStrings :: "string \<Rightarrow> string \<Rightarrow> int" where
  "compareStrings l r =
     (let lsz = length l + 1; rsz = length r + 1;
          res = memcmp (l @ [NUL]) (r @ [NUL]) (min lsz rsz)
      in if res \<noteq> 0 then res else int lsz - int rsz)"

definition then_cmp :: "int \<Rightarrow> int \<Rightarrow> int" where
  "then_cmp f g = (if f \<noteq> 0 then f else g)"

text \<open>
  \<open>compareElementValues\<close> on values that are neither documents nor arrays.  Its contract is
  that both sides have the same canonical type; where the code would read the right-hand bytes
  as another type the model fails.
\<close>

definition unlike_types :: "int result" where
  "unlike_types = Inl (VerifyFailed ''must be same type when called'')"

fun datetime :: "bval \<Rightarrow> u64 option" where
  "datetime (BDate d) = Some d"
| "datetime (BTimestamp t) = Some t"
| "datetime _ = None"

fun strvalue :: "bval \<Rightarrow> string option" where
  "strvalue (BString s) = Some s"
| "strvalue (BSymbol s) = Some s"
| "strvalue (BCode s) = Some s"
| "strvalue _ = None"

definition compareScalars :: "belem \<Rightarrow> belem \<Rightarrow> int result" where
  "compareScalars l r = (case snd l of
     BBool a \<Rightarrow> (case snd r of BBool b \<Rightarrow> Inr (of_bool a - of_bool b) | _ \<Rightarrow> unlike_types)
   | BTimestamp a \<Rightarrow> (case datetime (snd r) of
       Some b \<Rightarrow> Inr (cmp3 (a < b) (a = b)) | None \<Rightarrow> unlike_types)
   | BDate a \<Rightarrow> rbind (eDate r) (\<lambda>b. Inr (cmp3 (sint a < sint b) (a = b)))
   | BNumberLong a \<Rightarrow> (case snd r of
       BNumberLong b \<Rightarrow> Inr (cmp3 (sint a < sint b) (a = b))
     | _ \<Rightarrow> Inr (compareDoubles (numberDouble l) (numberDouble r)))
   | BNumberInt a \<Rightarrow> (case snd r of
       BNumberInt b \<Rightarrow> Inr (cmp3 (sint a < sint b) (a = b))
     | _ \<Rightarrow> Inr (compareDoubles (numberDouble l) (numberDouble r)))
   | BNumberDouble a \<Rightarrow> Inr (compareDoubles (numberDouble l) (numberDouble r))
   | BOid a \<Rightarrow> (case snd r of
       BOid b \<Rightarrow> Inr (memcmp (oid_data a) (oid_data b) 12) | _ \<Rightarrow> unlike_types)
   | BCode a \<Rightarrow> (case strvalue (snd r) of Some b \<Rightarrow> Inr (compareStrings a b) | None \<Rightarrow> unlike_types)
   | BSymbol a \<Rightarrow> (case strvalue (snd r) of Some b \<Rightarrow> Inr (compareStrings a b) | None \<Rightarrow> unlike_types)
   | BString a \<Rightarrow> (case strvalue (snd r) of Some b \<Rightarrow> Inr (compareStrings a b) | None \<Rightarrow> unlike_types)
   | BDBRef a i \<Rightarrow> (case snd r of
       BDBRef b j \<Rightarrow> Inr (then_cmp (int (length a) - int (length b))
         (byte_cmp (a @ [NUL] @ oid_data i) (b @ [NUL] @ oid_data j))) | _ \<Rightarrow> unlike_types)
   | BBinData s a \<Rightarrow> (case snd r of
       BBinData t b \<Rightarrow> Inr (then_cmp (int (length a) - int (length b)) (byte_cmp (s # a) (t # b)))
     | _ \<Rightarrow> unlike_types)
   | BRegEx a f \<Rightarrow> (case snd r of
       BRegEx b g \<Rightarrow> Inr (then_cmp (byte_cmp (c_str a) (c_str b)) (byte_cmp (c_str f) (c_str g)))
     | _ \<Rightarrow> unlike_types)
   | BCodeWScope a s \<Rightarrow> (case snd r of
       BCodeWScope b t \<Rightarrow> Inr (then_cmp (byte_cmp (c_str a) (c_str b))
         (byte_cmp (codeWScopeScopeDataUnsafe a s) (codeWScopeScopeDataUnsafe b t)))
     | _ \<Rightarrow> Inr (canonicalType l - canonicalType r))
   | BObject _ \<Rightarrow> Inl (VerifyFailed ''isABSONObj()'')
   | BArray _ \<Rightarrow> Inl (VerifyFailed ''isABSONObj()'')
   | _ \<Rightarrow> Inr (cmp3 (canonicalType l < canonicalType r) (canonicalType l = canonicalType r)))"

function compareElementValues :: "belem \<Rightarrow> belem \<Rightarrow> int result"
  and woCompare :: "bool \<Rightarrow> belem \<Rightarrow> belem \<Rightarrow> int result"
  and woCompareObj :: "bobj \<Rightarrow> bobj \<Rightarrow> int result" where
  "compareElementValues l r =
     (if isABSONObj l \<and> isABSONObj r then woCompareObj (subelems (snd l)) (subelems (snd r))
      else compareScalars l r)"
| "woCompare considerFieldName l r =
     (let x = canonicalType l - canonicalType r in
      if x \<noteq> 0 \<and> (\<not> isNumber l \<or> \<not> isNumber r) then Inr x
      else let y = byte_cmp (c_str (fieldName l)) (c_str (fieldName r)) in
        if considerFieldName \<and> y \<noteq> 0 then Inr y
        else compareElementValues l r)"
| "woCompareObj [] r = Inr (if r = [] then 0 else -1)"
| "woCompareObj (x # xs) [] = Inr 1"
| "woCompareObj (x # xs) (y # ys) =
     rbind (woCompare True x y) (\<lambda>c. if c \<noteq> 0 then Inr c else woCompareObj xs ys)"
  by pat_completeness auto
termination
  by (relation "measure (\<lambda>p. case p of Inl (l, r) \<Rightarrow> 3 * vsize (snd l) + 1
        | Inr (Inl (b, l, r)) \<Rightarrow> 3 * vsize (snd l) + 2 | Inr (Inr (l, r)) \<Rightarrow> 3 * osize l)")
     (auto simp: isABSONObj_def etype_def osize_subelems)

declare compareElementValues.simps [simp del] woCompare.simps [simp del]

section \<open>The comparison as an order\<close>

text \<open>
  A value is order-safe when nothing in it makes the comparison fail or lose precision: no
  \<open>Timestamp\<close> (comparing a \<open>Date\<close> to one throws), and no 64-bit integer outside the range that
  a double represents exactly.
\<close>

fun osafe :: "bval \<Rightarrow> bool" and osafe_obj :: "bobj \<Rightarrow> bool" where
  "osafe (BTimestamp _) = False"
| "osafe (BNumberLong i) = (\<bar>sint i\<bar> < 2 ^ 53)"
| "osafe (BObject fs) = osafe_obj fs"
| "osafe (BArray fs) = osafe_obj fs"
| "osafe _ = True"
| "osafe_obj [] = True"
| "osafe_obj (e # es) = (osafe (snd e) \<and> osafe_obj es)"

text \<open>A sort key for every value that is neither a document nor an array.\<close>

definition num_key :: "dbl \<Rightarrow> rat list" where
  "num_key d = (case d of DNaN \<Rightarrow> [0] | DNegInf \<Rightarrow> [1] | DFin r \<Rightarrow> [2, r] | DPosInf \<Rightarrow> [3])"

definition str_key :: "string \<Rightarrow> rat list" where
  "str_key s = map (\<lambda>c. of_nat (of_char c)) s"

fun skey :: "bval \<Rightarrow> rat list" where
  "skey (BBool b) = [of_bool b]"
| "skey (BDate d) = [of_int (sint d)]"
| "skey (BNumberDouble d) = num_key d"
| "skey (BNumberInt i) = num_key (DFin (of_int (sint i)))"
| "skey (BNumberLong i) = num_key (DFin (of_int (sint i)))"
| "skey (BOid d) = str_key (take 12 (oid_data d))"
| "skey (BCode s) = str_key (s @ [NUL])"
| "skey (BSymbol s) = str_key (s @ [NUL])"
| "skey (BString s) = str_key (s @ [NUL])"
| "skey (BDBRef s d) = of_nat (length s) # str_key (s @ [NUL] @ oid_data d)"
| "skey (BBinData t d) = of_nat (length d) # str_key (t # d)"
| "skey (BRegEx s f) = str_key (c_str s) @ [-1] @ str_key (c_str f)"
| "skey (BCodeWScope s f) = str_key (c_str s) @ [-1] @ str_key (codeWScopeScopeDataUnsafe s f)"
| "skey _ = []"

definition kcmp :: "rat list \<Rightarrow> rat list \<Rightarrow> int" where
  "kcmp a b = cmp3 (a < b) (a = b)"

lemma kcmp_Cons: "kcmp (x # xs) (y # ys) = (if x < y then -1 else if y < x then 1 else kcmp xs ys)"
  by (auto simp: kcmp_def cmp3_def)

lemma kcmp_Nil [simp]: "kcmp [] [] = 0" "kcmp [] (y # ys) = -1" "kcmp (x # xs) [] = 1"
  by (auto simp: kcmp_def cmp3_def)

lemma kcmp_str: "kcmp (str_key a) (str_key b) = byte_cmp a b"
  by (induction a b rule: byte_cmp.induct)
     (auto simp: str_key_def kcmp_Cons not_less_iff_gr_or_eq)

lemma kcmp_str_then:
  "kcmp (str_key a @ [-1] @ str_key f) (str_key b @ [-1] @ str_key g)
   = then_cmp (byte_cmp a b) (byte_cmp f g)"
  by (induction a b rule: byte_cmp.induct)
     (auto simp: str_key_def kcmp_Cons then_cmp_def kcmp_str [unfolded str_key_def])

lemma kcmp_num: "kcmp (num_key a) (num_key b) = compareDoubles a b"
  by (cases a; cases b) (auto simp: num_key_def kcmp_Cons compareDoubles_def)

lemma kcmp_len_then:
  "kcmp (of_nat m # str_key a) (of_nat n # str_key b)
   = sgn (then_cmp (int m - int n) (byte_cmp a b))"
  using byte_cmp_range [of a b] by (auto simp: kcmp_Cons kcmp_str then_cmp_def)

lemma byte_cmp_memcmp:
  "byte_cmp xs ys = then_cmp (memcmp xs ys (min (length xs) (length ys)))
     (sgn (int (length xs) - int (length ys)))"
  by (induction xs ys rule: byte_cmp.induct) (auto simp: memcmp_def then_cmp_def)

lemma sgn_memcmp [simp]: "sgn (memcmp a b n) = memcmp a b n"
  using byte_cmp_range [of "take n a" "take n b"] by (auto simp: memcmp_def)

lemma sgn_compareStrings: "sgn (compareStrings a b) = byte_cmp (a @ [NUL]) (b @ [NUL])"
  unfolding byte_cmp_memcmp [of "a @ [NUL]"] compareStrings_def Let_def then_cmp_def by simp

lemma kcmp_int: "kcmp [of_int a] [of_int b] = cmp3 (a < b) (a = b)"
  by (auto simp: kcmp_Cons cmp3_def)

lemma sgn_kcmp [simp]: "sgn (kcmp a b) = kcmp a b"
  by (auto simp: kcmp_def cmp3_def)

lemma sgn_byte_cmp [simp]: "sgn (byte_cmp a b) = byte_cmp a b"
  using byte_cmp_range [of a b] by auto

lemma sgn_then_byte [simp]:
  "sgn (then_cmp (byte_cmp a b) (byte_cmp f g)) = then_cmp (byte_cmp a b) (byte_cmp f g)"
  by (simp add: then_cmp_def)

lemma sgn_compareDoubles [simp]: "sgn (compareDoubles a b) = compareDoubles a b"
  by (auto simp: compareDoubles_def)

lemma sgn_cmp3 [simp]: "sgn (cmp3 a b) = cmp3 a b"
  by (auto simp: cmp3_def)

lemma compareDoubles_ints:
  "compareDoubles (DFin (of_int a)) (DFin (of_int b)) = cmp3 (a < b) (a = b)"
  by (auto simp: compareDoubles_def cmp3_def)

lemma sint_inject [simp]: "sint a = sint b \<longleftrightarrow> a = b"
  by (metis signed_word_eqI)

lemma cmp3_simps [simp]: "cmp3 True q = -1" "cmp3 False True = 0" "cmp3 False False = 1"
  by (simp_all add: cmp3_def)

lemma kcmp_sint:
  "kcmp [of_int (sint a)] [of_int (sint b)] = cmp3 (sint a < sint b) (a = b)"
  by (simp add: kcmp_int del: of_int_sint)

lemma kcmp_bool: "kcmp [of_bool a] [of_bool b] = of_bool a - of_bool b"
  by (cases a; cases b) (simp_all add: kcmp_Cons)

lemma sgn_bool: "sgn (of_bool a - of_bool b) = (of_bool a - of_bool b :: int)"
  by (cases a; cases b) simp_all

lemmas kcmp_simps = kcmp_num kcmp_sint kcmp_bool sgn_bool kcmp_str kcmp_str_then kcmp_len_then
  sgn_compareStrings compareDoubles_ints

lemma compareScalars_key:
  assumes "canonicalType l = canonicalType r" "\<not> isABSONObj l" "osafe (snd l)" "osafe (snd r)"
  obtains c where "compareScalars l r = Inr c" "sgn c = kcmp (skey (snd l)) (skey (snd r))"
proof -
  have "\<exists>c. compareScalars l r = Inr c \<and> sgn c = kcmp (skey (snd l)) (skey (snd r))"
    using assms
    by (cases "snd l"; cases "snd r")
       (simp_all add: compareScalars_def canonicalType_def etype_def isABSONObj_def kcmp_simps
          eDate_def numberDouble_def dbl_of_int_exact memcmp_def
          del: of_int_sint append.simps byte_cmp.simps)
  with that show thesis by blast
qed

definition tri :: "int result \<Rightarrow> int result \<Rightarrow> int result \<Rightarrow> bool" where
  "tri ab bc ac \<longleftrightarrow> (\<exists>x y z. ab = Inr x \<and> bc = Inr y \<and> ac = Inr z \<and>
     (x \<le> 0 \<and> y \<le> 0 \<longrightarrow> z \<le> 0 \<and> (z = 0 \<longrightarrow> x = 0 \<and> y = 0)) \<and>
     (0 \<le> x \<and> 0 \<le> y \<longrightarrow> 0 \<le> z \<and> (z = 0 \<longrightarrow> x = 0 \<and> y = 0)))"

lemma tri_Inr: "tri (Inr x) (Inr y) (Inr z) \<longleftrightarrow>
     (x \<le> 0 \<and> y \<le> 0 \<longrightarrow> z \<le> 0 \<and> (z = 0 \<longrightarrow> x = 0 \<and> y = 0)) \<and>
     (0 \<le> x \<and> 0 \<le> y \<longrightarrow> 0 \<le> z \<and> (z = 0 \<longrightarrow> x = 0 \<and> y = 0))"
  by (auto simp: tri_def)

lemma tri_diff: "tri (Inr (a - b)) (Inr (b - c)) (Inr (a - c))"
  by (auto simp: tri_Inr)

lemma tri_byte: "tri (Inr (byte_cmp a b)) (Inr (byte_cmp b c)) (Inr (byte_cmp a c))"
proof -
  have "byte_cmp a b = cmp3 (str_key a < str_key b) (str_key a = str_key b)" for a b
    using kcmp_str [of a b] by (simp add: kcmp_def)
  then show ?thesis by (auto simp: tri_Inr cmp3_def)
qed

lemma tri_scalars:
  assumes "canonicalType a = canonicalType b" "canonicalType b = canonicalType c"
    "\<not> isABSONObj a" "\<not> isABSONObj b" "osafe (snd a)" "osafe (snd b)" "osafe (snd c)"
  shows "tri (compareScalars a b) (compareScalars b c) (compareScalars a c)"
proof -
  obtain x where x: "compareScalars a b = Inr x" "sgn x = kcmp (skey (snd a)) (skey (snd b))"
    using assms by (blast elim: compareScalars_key)
  obtain y where y: "compareScalars b c = Inr y" "sgn y = kcmp (skey (snd b)) (skey (snd c))"
    using assms by (blast elim: compareScalars_key)
  obtain z where z: "compareScalars a c = Inr z" "sgn z = kcmp (skey (snd a)) (skey (snd c))"
    using assms by (metis compareScalars_key)
  show ?thesis
    using x(2) y(2) z(2) unfolding x(1) y(1) z(1) tri_Inr kcmp_def cmp3_def
    by (auto simp: sgn_if split: if_splits)
qed

lemma tri_then:
  assumes "tri (Inr x) (Inr y) (Inr z)" "x = 0 \<Longrightarrow> y = 0 \<Longrightarrow> z = 0 \<Longrightarrow> tri p q r"
    "\<exists>v. p = Inr v" "\<exists>v. q = Inr v" "\<exists>v. r = Inr v"
  shows "tri (if x \<noteq> 0 then Inr x else p) (if y \<noteq> 0 then Inr y else q) (if z \<noteq> 0 then Inr z else r)"
  using assms by (auto simp: tri_Inr split: if_splits)

lemma canonical_number: "isNumber l \<Longrightarrow> isNumber r \<Longrightarrow> canonicalType l = canonicalType r"
  by (auto simp: isNumber_def canonicalType_def)

lemma canonical_object: "canonicalType l = canonicalType r \<Longrightarrow> isABSONObj l = isABSONObj r"
  by (cases "etype l"; cases "etype r") (simp_all add: canonicalType_def isABSONObj_def)

definition name_cmp :: "bool \<Rightarrow> belem \<Rightarrow> belem \<Rightarrow> int" where
  "name_cmp f l r = (if f then byte_cmp (c_str (fieldName l)) (c_str (fieldName r)) else 0)"

lemma woCompare_then:
  "woCompare f l r =
     (if canonicalType l \<noteq> canonicalType r then Inr (canonicalType l - canonicalType r)
      else if name_cmp f l r \<noteq> 0 then Inr (name_cmp f l r) else compareElementValues l r)"
  using canonical_number [of l r] unfolding woCompare.simps Let_def name_cmp_def by auto

lemma woCompare_same:
  "canonicalType l = canonicalType r \<Longrightarrow>
   woCompare f l r = (if name_cmp f l r \<noteq> 0 then Inr (name_cmp f l r) else compareElementValues l r)"
  by (simp add: woCompare_then)

lemma woCompare_diff:
  "woCompare f l r = (if canonicalType l - canonicalType r \<noteq> 0
     then Inr (canonicalType l - canonicalType r) else woCompare f l r)"
  by (simp add: woCompare_then)

lemma tri_name: "tri (Inr (name_cmp f a b)) (Inr (name_cmp f b c)) (Inr (name_cmp f a c))"
  by (cases f) (simp add: name_cmp_def tri_byte, simp add: name_cmp_def tri_Inr)

lemma osafe_subelems: "osafe v \<Longrightarrow> osafe_obj (subelems v)"
  by (cases v) auto

lemma woCompare_returns_all:
  "canonicalType l = canonicalType r \<Longrightarrow> osafe (snd l) \<Longrightarrow> osafe (snd r) \<Longrightarrow>
     \<exists>c. compareElementValues l r = Inr c"
  "osafe (snd l') \<Longrightarrow> osafe (snd r') \<Longrightarrow> \<exists>c. woCompare f l' r' = Inr c"
  "osafe_obj xs \<Longrightarrow> osafe_obj ys \<Longrightarrow> \<exists>c. woCompareObj xs ys = Inr c"
proof (induction l r and f l' r' and xs ys rule: compareElementValues_woCompare_woCompareObj.induct)
  case (1 l r)
  show ?case
  proof (cases "isABSONObj l")
    case True
    with canonical_object [OF "1.prems"(1)] have "isABSONObj r" by simp
    with 1 True show ?thesis by (simp add: compareElementValues.simps [of l r] osafe_subelems)
  next
    case False
    with "1.prems" obtain c where "compareScalars l r = Inr c" by (blast elim: compareScalars_key)
    with False show ?thesis by (simp add: compareElementValues.simps [of l r])
  qed
next
  case (2 f l r)
  then show ?case unfolding woCompare_then name_cmp_def by (auto simp: Let_def)
next
  case (5 x xs y ys)
  then obtain c where "woCompare True x y = Inr c" by auto
  with 5 show ?case by auto
qed auto

lemma woCompare_tri_all:
  "canonicalType l = canonicalType r \<Longrightarrow> canonicalType r = canonicalType c \<Longrightarrow>
     osafe (snd l) \<Longrightarrow> osafe (snd r) \<Longrightarrow> osafe (snd c) \<Longrightarrow>
     tri (compareElementValues l r) (compareElementValues r c) (compareElementValues l c)"
  "osafe (snd l') \<Longrightarrow> osafe (snd r') \<Longrightarrow> osafe (snd c') \<Longrightarrow>
     tri (woCompare f l' r') (woCompare f r' c') (woCompare f l' c')"
  "osafe_obj xs \<Longrightarrow> osafe_obj ys \<Longrightarrow> osafe_obj zs \<Longrightarrow>
     tri (woCompareObj xs ys) (woCompareObj ys zs) (woCompareObj xs zs)"
proof (induction l r and f l' r' and xs ys arbitrary: c and c' and zs
    rule: compareElementValues_woCompare_woCompareObj.induct)
  case (1 l r)
  then show ?case
    using canonical_object [of l r] canonical_object [of r c]
    by (cases "isABSONObj l")
       (simp_all add: compareElementValues.simps osafe_subelems tri_scalars)
next
  case (2 f l r c)
  note ret = woCompare_returns_all(1) woCompare_returns_all(2)
  have same: "tri (woCompare f l r) (woCompare f r c) (woCompare f l c)"
    if eq: "canonicalType l = canonicalType r" "canonicalType r = canonicalType c"
  proof -
    have lc: "canonicalType l = canonicalType c" using eq by simp
    show ?thesis
      unfolding woCompare_same [OF eq(1)] woCompare_same [OF eq(2)] woCompare_same [OF lc]
    proof (rule tri_then [OF tri_name])
      assume "name_cmp f l r = 0"
      then show "tri (compareElementValues l r) (compareElementValues r c) (compareElementValues l c)"
        using "2.IH" [OF refl _ refl _ eq "2.prems"] eq by (simp add: name_cmp_def split: if_splits)
    qed (rule ret, simp_all add: eq 2(2-4))+
  qed
  show ?case
    by (subst (1 2 3) woCompare_diff, rule tri_then [OF tri_diff])
       (simp_all add: same ret "2.prems")
next
  case (5 x xs y ys zs)
  show ?case
  proof (cases zs)
    case (Cons z zs')
    have safe: "osafe (snd x)" "osafe (snd y)" "osafe (snd z)"
      "osafe_obj xs" "osafe_obj ys" "osafe_obj zs'" using 5 Cons by auto
    then obtain u v w where *: "woCompare True x y = Inr u" "woCompare True y z = Inr v"
      "woCompare True x z = Inr w" by (meson woCompare_returns_all(2))
    have "tri (Inr u) (Inr v) (Inr w)" using "5.IH"(1) [of z] safe * by simp
    then have "tri (if u \<noteq> 0 then Inr u else woCompareObj xs ys)
        (if v \<noteq> 0 then Inr v else woCompareObj ys zs') (if w \<noteq> 0 then Inr w else woCompareObj xs zs')"
      using "5.IH"(2) [OF *(1)] safe by (intro tri_then woCompare_returns_all(3)) auto
    with Cons * show ?thesis by simp
  next
    case Nil
    then show ?thesis using woCompare_returns_all(3) [OF "5.prems"(1,2)] by (auto simp: tri_Inr)
  qed
next
  case (3 r zs)
  then obtain v where "woCompareObj r zs = Inr v" by (blast dest: woCompare_returns_all(3))
  then show ?case by (cases r; cases zs) (auto simp: tri_Inr)
next
  case (4 x xs zs)
  then obtain v where "woCompareObj (x # xs) zs = Inr v" by (blast dest: woCompare_returns_all(3))
  then show ?case by (cases zs) (auto simp: tri_Inr)
qed
lemma woCompare_refl_all:
  "osafe (snd l) \<Longrightarrow> l = r \<Longrightarrow> compareElementValues l r = Inr 0"
  "osafe (snd l') \<Longrightarrow> l' = r' \<Longrightarrow> woCompare f l' r' = Inr 0"
  "osafe_obj xs \<Longrightarrow> xs = ys \<Longrightarrow> woCompareObj xs ys = Inr 0"
proof (induction l r and f l' r' and xs ys rule: compareElementValues_woCompare_woCompareObj.induct)
  case (1 l r)
  show ?case
  proof (cases "isABSONObj l")
    case True
    with 1 show ?thesis by (simp add: compareElementValues.simps osafe_subelems)
  next
    case False
    with "1.prems" obtain c where "compareScalars l l = Inr c" "sgn c = kcmp (skey (snd l)) (skey (snd l))"
      using compareScalars_key [of l l] by blast
    with False "1.prems" show ?thesis
      by (simp add: compareElementValues.simps kcmp_def sgn_0_0)
  qed
next
  case (2 f l r)
  then show ?case by (simp add: woCompare_then name_cmp_def)
qed auto

lemma woCompare_anti:
  assumes "osafe (snd a)" "osafe (snd b)" "woCompare f a b = Inr x" "woCompare f b a = Inr y"
  shows "sgn y = - sgn x"
  using woCompare_tri_all(2) [of a b a f] woCompare_refl_all(2) [of a a f] assms
  by (auto simp: tri_Inr sgn_if)

text \<open>\<open>BSONObj::woCompare\<close> with a key pattern, whose iterator reads past the end and then fails.\<close>

fun iter_next :: "bobj option \<Rightarrow> (belem \<times> bobj option) result" where
  "iter_next (Some (e # es)) = Inr (e, Some es)"
| "iter_next (Some []) = Inr (EOO_elem, None)"
| "iter_next None = Inl (VerifyFailed ''_pos <= _theend'')"

fun woCompareKey :: "bobj \<Rightarrow> bobj \<Rightarrow> bool \<Rightarrow> bobj option \<Rightarrow> bool \<Rightarrow> int result" where
  "woCompareKey ls rs ordered k considerFieldName =
     rbind (if ordered then iter_next k else Inr (EOO_elem, k)) (\<lambda>(key, k').
       case ls of
         [] \<Rightarrow> Inr (if rs = [] then 0 else -1)
       | l # ls' \<Rightarrow> (case rs of
           [] \<Rightarrow> Inr 1
         | r # rs' \<Rightarrow>
             rbind (woCompare considerFieldName l r) (\<lambda>c.
               let x = (if ordered \<and> dbl_lt (numberDouble key) (DFin 0) then - c else c)
               in if x \<noteq> 0 then Inr x else woCompareKey ls' rs' ordered k' considerFieldName)))"

declare woCompareKey.simps [simp del]

definition woCompareBy :: "bobj \<Rightarrow> bobj \<Rightarrow> bobj \<Rightarrow> bool \<Rightarrow> int result" where
  "woCompareBy l r idxKey considerFieldName =
     (if l = [] then Inr (if r = [] then 0 else -1)
      else if r = [] then Inr 1
      else woCompareKey l r (idxKey \<noteq> []) (Some idxKey) considerFieldName)"

fun woSortOrder_loop :: "bobj \<Rightarrow> bobj \<Rightarrow> bobj \<Rightarrow> bool \<Rightarrow> int result" where
  "woSortOrder_loop obj other [] useDotted = Inr 0"
| "woSortOrder_loop obj other (f # fs) useDotted =
     (let get = (\<lambda>d. let e = (if useDotted then getFieldDotted (fieldName f) d
                              else getField (fieldName f) d)
                     in if eoo e then ('''', BNull) else e)
      in rbind (woCompare False (get obj) (get other)) (\<lambda>c.
           let x = (if dbl_lt (numberDouble f) (DFin 0) then - c else c)
           in if x \<noteq> 0 then Inr x else woSortOrder_loop obj other fs useDotted))"

definition woSortOrder :: "bobj \<Rightarrow> bobj \<Rightarrow> bobj \<Rightarrow> bool \<Rightarrow> int result" where
  "woSortOrder obj other sortKey useDotted =
     (if obj = [] then Inr (if other = [] then 0 else -1)
      else if other = [] then Inr 1
      else rbind (uassert 10060 ''woSortOrder needs a non-empty sortKey'' (sortKey \<noteq> []))
             (\<lambda>_. woSortOrder_loop obj other sortKey useDotted))"

fun isPrefixOf :: "bobj \<Rightarrow> bobj \<Rightarrow> bool result" where
  "isPrefixOf [] other = Inr True"
| "isPrefixOf (x # xs) [] = Inr False"
| "isPrefixOf (x # xs) (y # ys) =
     rbind (woCompare True x y) (\<lambda>c. if c \<noteq> 0 then Inr False else isPrefixOf xs ys)"

fun isFieldNamePrefixOf :: "bobj \<Rightarrow> bobj \<Rightarrow> bool" where
  "isFieldNamePrefixOf [] other = True"
| "isFieldNamePrefixOf (x # xs) [] = False"
| "isFieldNamePrefixOf (x # xs) (y # ys) =
     (if fieldName x \<noteq> fieldName y then False else isFieldNamePrefixOf xs ys)"

lemma woCompareKey_plain: "woCompareKey l r False k True = woCompareObj l r"
proof (induction l arbitrary: r)
  case Nil
  show ?case by (simp add: woCompareKey.simps [of "[]"])
next
  case (Cons x xs)
  then show ?case
    by (cases r) (simp_all add: woCompareKey.simps [of "x # xs"] Let_def cong: if_cong)
qed

section \<open>Sets of elements\<close>

text \<open>
  \<open>std::set<BSONElement, BSONElementCmpWithoutField>\<close> as the list of its elements in order; the
  comparator may throw.  The scan visits the elements from the smallest, where the tree of the
  standard library visits some of them.
\<close>

definition BSONElementCmpWithoutField :: "belem \<Rightarrow> belem \<Rightarrow> bool result" where
  "BSONElementCmpWithoutField l r = rbind (woCompare False l r) (\<lambda>c. Inr (c < 0))"

fun elset_insert :: "belem \<Rightarrow> belem list \<Rightarrow> belem list result" where
  "elset_insert e [] = Inr [e]"
| "elset_insert e (x # xs) =
     rbind (BSONElementCmpWithoutField e x) (\<lambda>b. if b then Inr (e # x # xs) else
     rbind (BSONElementCmpWithoutField x e) (\<lambda>b. if \<not> b then Inr (x # xs) else
     rbind (elset_insert e xs) (\<lambda>ys. Inr (x # ys))))"

fun elset_count :: "belem \<Rightarrow> belem list \<Rightarrow> bool result" where
  "elset_count e [] = Inr False"
| "elset_count e (x # xs) =
     rbind (BSONElementCmpWithoutField e x) (\<lambda>b. if b then Inr False else
     rbind (BSONElementCmpWithoutField x e) (\<lambda>b. if \<not> b then Inr True else elset_count e xs))"

definition elset_of :: "belem list \<Rightarrow> belem list result" where
  "elset_of es = foldl (\<lambda>acc e. rbind acc (elset_insert e)) (Inr []) es"

text \<open>Two values the order does not tell apart, and the specification of the set by them.\<close>

definition same_value :: "belem \<Rightarrow> belem \<Rightarrow> bool" where
  "same_value a b \<longleftrightarrow> woCompare False a b = Inr 0"

text \<open>
  The comparator as a total relation: values that are not order-safe come after all others and
  are not told apart.  On order-safe values it is what the code computes.
\<close>

definition elem_lt :: "belem \<Rightarrow> belem \<Rightarrow> bool" where
  "elem_lt a b \<longleftrightarrow> osafe (snd a) \<and>
     (osafe (snd b) \<longrightarrow> BSONElementCmpWithoutField a b = Inr True)"

lemma cmp_elem_lt:
  "osafe (snd a) \<Longrightarrow> osafe (snd b) \<Longrightarrow> BSONElementCmpWithoutField a b = Inr (elem_lt a b)"
  using woCompare_returns_all(2) [of a b False]
  by (auto simp: elem_lt_def BSONElementCmpWithoutField_def)

interpretation elem_order: strict_weak_order elem_lt
proof
  show "\<not> elem_lt y x" if "elem_lt x y" for x y
  proof
    assume "elem_lt y x"
    with that obtain a b where "osafe (snd x)" "osafe (snd y)"
      "woCompare False x y = Inr a" "a < 0" "woCompare False y x = Inr b" "b < 0"
      by (auto simp: elem_lt_def BSONElementCmpWithoutField_def rbind_Inr_iff)
    with woCompare_anti [of x y False a b] show False by simp
  qed
  show "\<not> elem_lt x y \<Longrightarrow> \<not> elem_lt y z \<Longrightarrow> \<not> elem_lt x z" for x y z
    using woCompare_tri_all(2) [of x y z False]
    by (auto simp: elem_lt_def BSONElementCmpWithoutField_def tri_def)
qed

lemma not_elem_lt_iff:
  assumes "osafe (snd a)" "osafe (snd b)"
  shows "\<not> elem_lt a b \<and> \<not> elem_lt b a \<longleftrightarrow> same_value a b"
proof -
  obtain x y where xy: "woCompare False a b = Inr x" "woCompare False b a = Inr y"
    using assms by (meson woCompare_returns_all(2))
  with woCompare_anti [OF assms] have "sgn y = - sgn x" by blast
  with xy assms show ?thesis
    by (auto simp: elem_lt_def BSONElementCmpWithoutField_def same_value_def sgn_if split: if_splits)
qed

lemma elset_insert_eq:
  "osafe (snd e) \<Longrightarrow> \<forall>x \<in> set xs. osafe (snd x) \<Longrightarrow>
   elset_insert e xs = Inr (set_insert elem_lt e xs)"
  by (induction xs) (auto simp: cmp_elem_lt)

lemma elset_count_eq:
  "osafe (snd e) \<Longrightarrow> \<forall>x \<in> set xs. osafe (snd x) \<Longrightarrow>
   elset_count e xs = Inr (set_count elem_lt e xs)"
  by (induction xs) (auto simp: cmp_elem_lt)

abbreviation elset :: "belem list \<Rightarrow> belem list" where
  "elset es \<equiv> foldl (\<lambda>s e. set_insert elem_lt e s) [] es"

lemma elset_subset: "set (elset es) \<subseteq> set es"
proof (induction es rule: rev_induct)
  case (snoc x xs)
  then show ?case using set_set_insert by fastforce
qed simp

lemma elset_of_eq: "\<forall>x \<in> set es. osafe (snd x) \<Longrightarrow> elset_of es = Inr (elset es)"
proof (induction es rule: rev_induct)
  case (snoc e es)
  with elset_subset [of es] have "\<forall>x \<in> set (elset es). osafe (snd x)" by auto
  with snoc show ?case by (simp add: elset_of_def elset_insert_eq)
qed (simp add: elset_of_def)

lemma elset_of_laws:
  "sorted_wrt elem_lt (elset es) \<and>
   (set_count elem_lt k (elset es)
    \<longleftrightarrow> (\<exists>e \<in> set es. \<not> elem_lt e k \<and> \<not> elem_lt k e))"
proof (induction es rule: rev_induct)
  case (snoc e es)
  then show ?case
    using elem_order.sorted_set_insert elem_order.set_count_insert by (auto)
qed simp

text \<open>
  C26.  Looking an element up in a set of elements built by inserting a list one by one finds it
  exactly when the list holds a value that compares equal, for order-safe values; neither the
  insertions nor the lookup throw.
\<close>

theorem elset_lookup:
  assumes "\<forall>x \<in> set es. osafe (snd x)" "osafe (snd k)"
  shows "rbind (elset_of es) (elset_count k) = Inr (\<exists>e \<in> set es. same_value k e)"
proof -
  from elset_subset [of es] assms(1) have "\<forall>x \<in> set (elset es). osafe (snd x)" by blast
  with assms have "rbind (elset_of es) (elset_count k) = Inr (set_count elem_lt k (elset es))"
    by (simp add: elset_of_eq elset_count_eq)
  then show ?thesis using elset_of_laws [of es k] assms not_elem_lt_iff [of k] by auto
qed

lemma elset_lookup_witness:
  "rbind (elset_of [(''a'', BNumberInt 1), (''b'', BString ''x'')]) (elset_count (''k'', BNumberInt 1))
   = Inr (\<exists>e \<in> set [(''a'', BNumberInt 1), (''b'', BString ''x'')]. same_value (''k'', BNumberInt 1) e)"
  by (rule elset_lookup) simp_all

text \<open>
  C25.  The comparison of elements is a total preorder on order-safe values: it returns, it is
  reflexive, swapping the sides negates it, and it is transitive, for equality and for order.
\<close>

theorem woCompare_total_preorder:
  assumes "osafe (snd a)" "osafe (snd b)" "osafe (snd c)"
  shows "\<exists>ab ba bc ac. woCompare f a b = Inr ab \<and> woCompare f b a = Inr ba \<and>
     woCompare f b c = Inr bc \<and> woCompare f a c = Inr ac \<and> woCompare f a a = Inr 0 \<and>
     sgn ba = - sgn ab \<and> (ab \<le> 0 \<and> bc \<le> 0 \<longrightarrow> ac \<le> 0) \<and> (ab = 0 \<and> bc = 0 \<longrightarrow> ac = 0)"
proof -
  obtain ab ba bc ac where r: "woCompare f a b = Inr ab" "woCompare f b a = Inr ba"
    "woCompare f b c = Inr bc" "woCompare f a c = Inr ac"
    using assms by (meson woCompare_returns_all(2))
  moreover have "tri (Inr ab) (Inr bc) (Inr ac)"
    using woCompare_tri_all(2) [OF assms, of f] r by simp
  moreover have "sgn ba = - sgn ab" using assms(1,2) r(1,2) by (rule woCompare_anti)
  moreover have "woCompare f a a = Inr 0" using assms(1) refl by (rule woCompare_refl_all)
  ultimately show ?thesis by (auto simp: tri_Inr)
qed

lemma woCompare_total_preorder_witness:
  "\<exists>ab ba bc ac. woCompare True (''n'', BNumberInt 1) (''n'', BNumberDouble DNaN) = Inr ab \<and>
     woCompare True (''n'', BNumberDouble DNaN) (''n'', BNumberInt 1) = Inr ba \<and>
     woCompare True (''n'', BNumberDouble DNaN) (''n'', BNull) = Inr bc \<and>
     woCompare True (''n'', BNumberInt 1) (''n'', BNull) = Inr ac \<and>
     woCompare True (''n'', BNumberInt 1) (''n'', BNumberInt 1) = Inr 0 \<and>
     sgn ba = - sgn ab \<and> (ab \<le> 0 \<and> bc \<le> 0 \<longrightarrow> ac \<le> 0) \<and> (ab = 0 \<and> bc = 0 \<longrightarrow> ac = 0)"
  by (rule woCompare_total_preorder) simp_all

end
