(* ===== verification/FieldRef.thy ===== *)
theory FieldRef
  imports Prelude
begin

text \<open>
  Dotted field paths: \<open>src/src/mongo/db/field_ref.h\<close> and \<open>field_ref.cpp\<close>.  A
  \<open>FieldRef\<close> keeps its first four parts in a fixed array and the rest in a vector, caches the
  dotted string and re-assembles it lazily after a part was replaced.  The parts are views into
  the cached string or into the replacements; the model keeps their contents.
\<close>

section \<open>State and operations\<close>

record field_ref =
  fr_size :: nat
  fr_fixed :: "string list"
  fr_variable :: "string list"
  fr_dotted :: string
  fr_replacements :: "string list"

definition kReserveAhead :: nat where
  "kReserveAhead = 4"

definition getIndex :: "nat \<Rightarrow> nat" where
  "getIndex i = i - kReserveAhead"

definition fr_empty :: field_ref where
  "fr_empty = \<lparr>fr_size = 0, fr_fixed = replicate kReserveAhead '''', fr_variable = [],
     fr_dotted = '''', fr_replacements = []\<rparr>"

definition numParts :: "field_ref \<Rightarrow> nat" where
  "numParts fr = fr_size fr"

definition fr_clear :: "field_ref \<Rightarrow> field_ref" where
  "fr_clear fr = fr\<lparr>fr_size := 0, fr_variable := [], fr_dotted := '''', fr_replacements := []\<rparr>"

definition getPart :: "field_ref \<Rightarrow> nat \<Rightarrow> string" where
  "getPart fr i = (if i < kReserveAhead then fr_fixed fr ! i else fr_variable fr ! getIndex i)"

text \<open>The write of a part that \<open>setPart\<close> and \<open>reserialize\<close> share.\<close>

definition putPart :: "field_ref \<Rightarrow> nat \<Rightarrow> string \<Rightarrow> field_ref" where
  "putPart fr i part =
     (if i < kReserveAhead then fr\<lparr>fr_fixed := (fr_fixed fr)[i := part]\<rparr>
      else fr\<lparr>fr_variable := (fr_variable fr)[getIndex i := part]\<rparr>)"

definition appendPart :: "field_ref \<Rightarrow> string \<Rightarrow> field_ref" where
  "appendPart fr part =
     (let fr' = (if fr_size fr < kReserveAhead
                 then fr\<lparr>fr_fixed := (fr_fixed fr)[fr_size fr := part]\<rparr>
                 else fr\<lparr>fr_variable := fr_variable fr @ [part]\<rparr>)
      in fr'\<lparr>fr_size := fr_size fr + 1\<rparr>)"

fun fr_parse_loop :: "string \<Rightarrow> string \<Rightarrow> field_ref \<Rightarrow> field_ref" where
  "fr_parse_loop seen [] fr = appendPart fr seen"
| "fr_parse_loop seen (c # cs) fr =
     (if c \<noteq> CHR ''.'' then fr_parse_loop (seen @ [c]) cs fr
      else fr_parse_loop [] cs (appendPart fr seen))"

definition fr_parse :: "field_ref \<Rightarrow> string \<Rightarrow> field_ref" where
  "fr_parse fr path =
     (if path = [] then fr
      else let fr' = (if fr_size fr \<noteq> 0 then fr_clear fr else fr)
           in fr_parse_loop [] path (fr'\<lparr>fr_dotted := path\<rparr>))"

definition FieldRef_of :: "string \<Rightarrow> field_ref" where
  "FieldRef_of path = fr_parse fr_empty path"

definition resize :: "nat \<Rightarrow> string list \<Rightarrow> string list" where
  "resize n xs = take n xs @ replicate (n - length xs) ''''"

definition setPart :: "field_ref \<Rightarrow> nat \<Rightarrow> string \<Rightarrow> field_ref" where
  "setPart fr i part =
     (let rs = (if length (fr_replacements fr) \<noteq> fr_size fr
                then resize (fr_size fr) (fr_replacements fr) else fr_replacements fr)
      in putPart (fr\<lparr>fr_replacements := rs[i := part]\<rparr>) i part)"

fun join_dot :: "string list \<Rightarrow> string" where
  "join_dot [] = []"
| "join_dot [p] = p"
| "join_dot (p # ps) = p @ ''.'' @ join_dot ps"

definition fr_parts :: "field_ref \<Rightarrow> string list" where
  "fr_parts fr = map (getPart fr) [0..<fr_size fr]"

fun fixup :: "field_ref \<Rightarrow> nat list \<Rightarrow> string \<Rightarrow> field_ref" where
  "fixup fr [] pos = fr"
| "fixup fr (i # is) pos =
     (let size = length (getPart fr i); rest = drop size pos
      in fixup (putPart fr i (take size pos)) is (if rest \<noteq> [] then tl rest else rest))"

definition reserialize :: "field_ref \<Rightarrow> field_ref" where
  "reserialize fr =
     (let nextDotted = join_dot (fr_parts fr)
      in (fixup (fr\<lparr>fr_dotted := nextDotted\<rparr>) [0..<fr_size fr] nextDotted)\<lparr>fr_replacements := []\<rparr>)"

fun strip_parts :: "field_ref \<Rightarrow> nat list \<Rightarrow> string \<Rightarrow> string" where
  "strip_parts fr [] result = result"
| "strip_parts fr (i # is) result = strip_parts fr is (drop (length (getPart fr i) + 1) result)"

text \<open>\<open>dottedField\<close> may re-serialise the cached string, so it returns the new state as well.\<close>

definition dottedField :: "field_ref \<Rightarrow> nat \<Rightarrow> string \<times> field_ref" where
  "dottedField fr offset =
     (if fr_size fr = 0 \<or> offset \<ge> numParts fr then ([], fr)
      else let fr' = (if fr_replacements fr \<noteq> [] then reserialize fr else fr)
           in (strip_parts fr' [0..<offset] (fr_dotted fr'), fr'))"

fun commonPrefixSize_loop :: "field_ref \<Rightarrow> field_ref \<Rightarrow> nat \<Rightarrow> nat \<Rightarrow> nat" where
  "commonPrefixSize_loop fr other prefixSize 0 = prefixSize"
| "commonPrefixSize_loop fr other prefixSize (Suc left) =
     (if getPart fr prefixSize \<noteq> getPart other prefixSize then prefixSize
      else commonPrefixSize_loop fr other (prefixSize + 1) left)"

definition commonPrefixSize :: "field_ref \<Rightarrow> field_ref \<Rightarrow> nat" where
  "commonPrefixSize fr other =
     (if fr_size fr = 0 \<or> fr_size other = 0 then 0
      else let maxPrefixSize = min (fr_size fr - 1) (fr_size other - 1)
           in commonPrefixSize_loop fr other 0 (maxPrefixSize + 1))"

definition fr_isPrefixOf :: "field_ref \<Rightarrow> field_ref \<Rightarrow> bool" where
  "fr_isPrefixOf fr other =
     (if fr_size fr \<ge> fr_size other then False
      else if fr_size fr = 0 then False
      else let common = commonPrefixSize fr other
           in common = fr_size fr \<and> fr_size other > common)"

text \<open>The loop of \<open>equalsDottedField\<close>, counting the parts that are left.\<close>

fun equalsDottedField_loop :: "field_ref \<Rightarrow> nat \<Rightarrow> nat \<Rightarrow> string \<Rightarrow> bool" where
  "equalsDottedField_loop fr i 0 rest = False"
| "equalsDottedField_loop fr i (Suc left) rest =
     (let part = getPart fr i in
      if take (length part) rest \<noteq> part then False
      else if i = fr_size fr - 1 then length rest = length part
      else if length rest = length part then False
      else if rest ! length part \<noteq> CHR ''.'' then False
      else equalsDottedField_loop fr (i + 1) left (drop (length part + 1) rest))"

definition equalsDottedField :: "field_ref \<Rightarrow> string \<Rightarrow> bool" where
  "equalsDottedField fr other = equalsDottedField_loop fr 0 (fr_size fr) other"

fun fr_compare_loop :: "field_ref \<Rightarrow> field_ref \<Rightarrow> nat \<Rightarrow> nat \<Rightarrow> int" where
  "fr_compare_loop fr other i 0 =
     (let rest = fr_size fr - i; otherRest = fr_size other - i
      in if rest = 0 \<and> otherRest = 0 then 0 else if rest < otherRest then -1 else 1)"
| "fr_compare_loop fr other i (Suc left) =
     (if getPart fr i = getPart other i then fr_compare_loop fr other (i + 1) left
      else if byte_cmp (getPart fr i) (getPart other i) < 0 then -1 else 1)"

definition fr_compare :: "field_ref \<Rightarrow> field_ref \<Rightarrow> int" where
  "fr_compare fr other = fr_compare_loop fr other 0 (min (fr_size fr) (fr_size other))"

section \<open>Specification: a path is the list of its parts\<close>

fun split_dot :: "string \<Rightarrow> string list" where
  "split_dot [] = [[]]"
| "split_dot (c # cs) =
     (if c = CHR ''.'' then [] # split_dot cs
      else (c # hd (split_dot cs)) # tl (split_dot cs))"

definition fr_shape :: "field_ref \<Rightarrow> bool" where
  "fr_shape fr \<longleftrightarrow> length (fr_fixed fr) = kReserveAhead
     \<and> length (fr_variable fr) = fr_size fr - kReserveAhead"

definition fr_wf :: "field_ref \<Rightarrow> bool" where
  "fr_wf fr \<longleftrightarrow> fr_shape fr \<and> (fr_replacements fr = [] \<longrightarrow> fr_dotted fr = join_dot (fr_parts fr))"

lemma split_dot_nonempty [simp]: "split_dot s \<noteq> []"
  by (cases s) auto

lemma join_dot_Cons: "ps \<noteq> [] \<Longrightarrow> join_dot (p # ps) = p @ ''.'' @ join_dot ps"
  by (cases ps) auto

lemma join_split_dot [simp]: "join_dot (split_dot s) = s"
proof (induction s)
  case (Cons c cs)
  show ?case
  proof (cases "c = CHR ''.''")
    case False
    obtain p ps where "split_dot cs = p # ps" by (meson list.exhaust split_dot_nonempty)
    with Cons False show ?thesis by (cases ps) auto
  qed (use Cons in \<open>simp add: join_dot_Cons\<close>)
qed simp

lemma length_fr_parts [simp]: "length (fr_parts fr) = fr_size fr"
  by (simp add: fr_parts_def)

lemma fr_parts_nth [simp]: "i < fr_size fr \<Longrightarrow> fr_parts fr ! i = getPart fr i"
  by (simp add: fr_parts_def)

lemma shape_appendPart: "fr_shape fr \<Longrightarrow> fr_shape (appendPart fr p)"
  by (auto simp: fr_shape_def appendPart_def Let_def)

lemma parts_appendPart: "fr_shape fr \<Longrightarrow> fr_parts (appendPart fr p) = fr_parts fr @ [p]"
  by (rule nth_equalityI)
     (auto simp: fr_parts_def appendPart_def Let_def getPart_def fr_shape_def getIndex_def
        nth_append nth_list_update less_Suc_eq)

lemma appendPart_simps [simp]:
  "fr_dotted (appendPart fr p) = fr_dotted fr" "fr_replacements (appendPart fr p) = fr_replacements fr"
  by (auto simp: appendPart_def Let_def)

lemma fr_parse_loop_parts:
  "fr_shape fr \<Longrightarrow>
   fr_shape (fr_parse_loop seen cs fr) \<and>
   fr_parts (fr_parse_loop seen cs fr) = fr_parts fr @ (seen @ hd (split_dot cs)) # tl (split_dot cs) \<and>
   fr_dotted (fr_parse_loop seen cs fr) = fr_dotted fr \<and>
   fr_replacements (fr_parse_loop seen cs fr) = fr_replacements fr"
  by (induction seen cs fr rule: fr_parse_loop.induct)
     (auto simp: shape_appendPart parts_appendPart)

lemma fr_parts_size_zero [simp]: "fr_size fr = 0 \<Longrightarrow> fr_parts fr = []"
  by (simp add: fr_parts_def)

lemma fr_parse_wf:
  assumes "fr_wf fr" "path \<noteq> []"
  shows "fr_wf (fr_parse fr path) \<and> fr_parts (fr_parse fr path) = split_dot path"
proof -
  define g where "g = (if fr_size fr \<noteq> 0 then fr_clear fr else fr)\<lparr>fr_dotted := path\<rparr>"
  have "fr_shape g" using assms by (auto simp: g_def fr_wf_def fr_shape_def fr_clear_def)
  moreover have "fr_parts g = []" by (auto simp: g_def fr_parts_def fr_clear_def)
  moreover have "fr_dotted g = path" by (simp add: g_def)
  moreover have "fr_parse fr path = fr_parse_loop [] path g"
    using assms(2) by (simp add: fr_parse_def g_def Let_def)
  ultimately show ?thesis
    using fr_parse_loop_parts [of g "[]" path] by (simp add: fr_wf_def)
qed

lemma fr_wf_empty [simp]: "fr_wf fr_empty"
  by (simp add: fr_wf_def fr_shape_def fr_empty_def)

lemma FieldRef_of_parts: "path \<noteq> [] \<Longrightarrow> fr_parts (FieldRef_of path) = split_dot path"
  and FieldRef_of_wf: "fr_wf (FieldRef_of path)"
  using fr_parse_wf [OF fr_wf_empty] by (auto simp: FieldRef_of_def fr_parse_def)

lemma shape_putPart: "fr_shape fr \<Longrightarrow> fr_shape (putPart fr i p)"
  by (auto simp: fr_shape_def putPart_def)

lemma size_putPart [simp]: "fr_size (putPart fr i p) = fr_size fr"
  by (simp add: putPart_def)

lemma parts_putPart: "fr_shape fr \<Longrightarrow> i < fr_size fr \<Longrightarrow> fr_parts (putPart fr i p) = (fr_parts fr)[i := p]"
  by (rule nth_equalityI)
     (auto simp: getPart_def putPart_def fr_shape_def getIndex_def nth_list_update)

text \<open>Re-pointing the parts into the joined string leaves their contents alone.\<close>

lemma fixup_parts:
  assumes "fr_shape fr" "i \<le> fr_size fr" "w = join_dot (drop i (fr_parts fr))"
  shows "fr_shape (fixup fr [i..<fr_size fr] w) \<and> fr_parts (fixup fr [i..<fr_size fr] w) = fr_parts fr
    \<and> fr_dotted (fixup fr [i..<fr_size fr] w) = fr_dotted fr"
  using assms
proof (induction "fr_size fr - i" arbitrary: fr i w)
  case (Suc n)
  then have i: "i < fr_size fr" by simp
  then have d: "drop i (fr_parts fr) = getPart fr i # drop (Suc i) (fr_parts fr)"
    by (metis Cons_nth_drop_Suc fr_parts_nth length_fr_parts)
  let ?g = "putPart fr i (getPart fr i)"
  have g: "fr_parts ?g = fr_parts fr" "fr_shape ?g" "fr_dotted ?g = fr_dotted fr"
    using parts_putPart [OF Suc.prems(1) i] shape_putPart [OF Suc.prems(1)] i list_update_id [of "fr_parts fr" i]
    by (auto simp: putPart_def)
  let ?rest = "drop (Suc i) (fr_parts fr)"
  have w: "take (length (getPart fr i)) w = getPart fr i"
    "(let r = drop (length (getPart fr i)) w in if r \<noteq> [] then tl r else r) = join_dot ?rest"
    using Suc.prems(3) by (cases ?rest; simp add: d join_dot_Cons)+
  have "fixup fr [i..<fr_size fr] w = fixup ?g [Suc i..<fr_size ?g] (join_dot ?rest)"
    using i w by (simp add: upt_rec [of i] Let_def)
  with Suc.hyps(1) [of ?g "Suc i"] Suc.hyps(2) g i show ?case by simp
qed simp

lemma reserialize_parts:
  assumes "fr_shape fr"
  shows "fr_wf (reserialize fr) \<and> fr_parts (reserialize fr) = fr_parts fr
    \<and> fr_dotted (reserialize fr) = join_dot (fr_parts fr)"
proof -
  let ?g = "fr\<lparr>fr_dotted := join_dot (fr_parts fr)\<rparr>"
  have up: "fr_parts (h\<lparr>fr_replacements := r\<rparr>) = fr_parts h" "fr_parts (h\<lparr>fr_dotted := s\<rparr>) = fr_parts h"
    for h r s by (simp_all add: fr_parts_def getPart_def)
  have "fr_shape ?g" using assms by (simp add: fr_shape_def)
  from fixup_parts [OF this, of 0] show ?thesis
    by (simp add: reserialize_def Let_def up fr_wf_def fr_shape_def)
qed

lemma drop_parts: "i < fr_size fr \<Longrightarrow> drop i (fr_parts fr) = getPart fr i # drop (Suc i) (fr_parts fr)"
  by (metis Cons_nth_drop_Suc fr_parts_nth length_fr_parts)

lemma drop_parts_nonempty [simp]: "i < fr_size fr \<Longrightarrow> drop i (fr_parts fr) \<noteq> []"
  by simp

lemma strip_parts_join:
  "i \<le> j \<Longrightarrow> j < fr_size fr \<Longrightarrow>
   strip_parts fr [i..<j] (join_dot (drop i (fr_parts fr))) = join_dot (drop j (fr_parts fr))"
proof (induction "j - i" arbitrary: i)
  case (Suc n)
  then have "strip_parts fr [Suc i..<j] (join_dot (drop (Suc i) (fr_parts fr))) = join_dot (drop j (fr_parts fr))"
    by simp
  with Suc show ?case by (simp add: upt_rec [of i] drop_parts [of i] join_dot_Cons)
qed simp

lemma dottedField_spec:
  assumes "fr_wf fr" "offset < fr_size fr"
  shows "fst (dottedField fr offset) = join_dot (drop offset (fr_parts fr))"
    and "fr_wf (snd (dottedField fr offset))" "fr_parts (snd (dottedField fr offset)) = fr_parts fr"
proof -
  define g where "g = (if fr_replacements fr \<noteq> [] then reserialize fr else fr)"
  have g: "fr_wf g" "fr_parts g = fr_parts fr" "fr_dotted g = join_dot (fr_parts fr)"
    using assms reserialize_parts [of fr] by (auto simp: g_def fr_wf_def)
  then have "fr_size g = fr_size fr" by (metis length_fr_parts)
  with g assms strip_parts_join [of 0 offset g] have
    "strip_parts g [0..<offset] (fr_dotted g) = join_dot (drop offset (fr_parts fr))" by simp
  moreover have "dottedField fr offset = (strip_parts g [0..<offset] (fr_dotted g), g)"
    using assms by (auto simp: dottedField_def numParts_def g_def Let_def)
  ultimately show "fst (dottedField fr offset) = join_dot (drop offset (fr_parts fr))"
    "fr_wf (snd (dottedField fr offset))" "fr_parts (snd (dottedField fr offset)) = fr_parts fr"
    using g by simp_all
qed

lemma parts_setPart:
  assumes "fr_wf fr" "i < fr_size fr"
  shows "fr_wf (setPart fr i p)" "fr_parts (setPart fr i p) = (fr_parts fr)[i := p]"
    "fr_size (setPart fr i p) = fr_size fr"
proof -
  have up: "fr_parts (fr\<lparr>fr_replacements := r\<rparr>) = fr_parts fr" "fr_shape (fr\<lparr>fr_replacements := r\<rparr>)"
    for r using assms(1) by (simp_all add: fr_parts_def getPart_def fr_wf_def fr_shape_def)
  show parts: "fr_parts (setPart fr i p) = (fr_parts fr)[i := p]"
    using parts_putPart [OF up(2), of i _ p] assms(2) by (simp add: setPart_def Let_def up(1))
  have "fr_replacements (setPart fr i p) \<noteq> []"
    using assms(2) by (auto simp: setPart_def Let_def putPart_def resize_def)
  moreover have "fr_shape (setPart fr i p)"
    using shape_putPart [OF up(2)] by (simp add: setPart_def Let_def)
  ultimately show "fr_wf (setPart fr i p)" by (simp add: fr_wf_def)
  show "fr_size (setPart fr i p) = fr_size fr" by (simp add: setPart_def Let_def)
qed

text \<open>
  The dotted name of a path after one of its parts was replaced is the join of the new
  parts, from any offset on; the cached string, the fixed array and the vector agree again.
\<close>

theorem dottedField_setPart:
  assumes "path \<noteq> []" "i < length (split_dot path)" "offset < length (split_dot path)"
  shows "fst (dottedField (setPart (FieldRef_of path) i p) offset)
    = join_dot (drop offset ((split_dot path)[i := p]))"
proof -
  note wf = FieldRef_of_wf [of path] and parts = FieldRef_of_parts [OF assms(1)]
  have i: "i < fr_size (FieldRef_of path)" "offset < fr_size (FieldRef_of path)"
    using assms(2,3) parts by (metis length_fr_parts)+
  show ?thesis
    using dottedField_spec(1) [OF parts_setPart(1) [OF wf i(1)], of offset p] i parts
    by (simp add: parts_setPart [OF wf])
qed

lemma dottedField_setPart_witness:
  "fst (dottedField (setPart (FieldRef_of ''a.b.c.d.e.f'') 5 ''xyz'') 3)
   = join_dot (drop 3 ((split_dot ''a.b.c.d.e.f'')[5 := ''xyz'']))"
  by (rule dottedField_setPart) simp_all

lemma append_Cons_iff_take:
  "rest = p @ c # t \<longleftrightarrow> take (length p) rest = p \<and> length rest \<noteq> length p \<and> rest ! length p = c
     \<and> drop (Suc (length p)) rest = t"
proof (cases "take (length p) rest = p")
  case True
  then obtain u where "rest = p @ u" by (metis append_take_drop_id)
  then show ?thesis by (cases u) auto
qed auto

lemma equalsDottedField_loop_iff:
  "i + left = fr_size fr \<Longrightarrow> 0 < left \<Longrightarrow>
   equalsDottedField_loop fr i left rest \<longleftrightarrow> rest = join_dot (drop i (fr_parts fr))"
proof (induction left arbitrary: i rest)
  case (Suc left)
  let ?p = "getPart fr i"
  have d: "drop i (fr_parts fr) = ?p # drop (Suc i) (fr_parts fr)" using Suc.prems by (simp add: drop_parts)
  show ?case
  proof (cases "left = 0")
    case True
    with Suc.prems d show ?thesis by (auto simp: Let_def)
  next
    case False
    then have j: "join_dot (drop i (fr_parts fr)) = ?p @ ''.'' @ join_dot (drop (Suc i) (fr_parts fr))"
      using Suc.prems d by (simp add: join_dot_Cons)
    note split = append_Cons_iff_take [of rest ?p "CHR ''.''" "join_dot (drop (Suc i) (fr_parts fr))"]
    have "i \<noteq> fr_size fr - 1" using Suc.prems False by simp
    with Suc.IH [of "i + 1"] Suc.prems False j split show ?thesis by (simp add: Let_def)
  qed
qed simp

text \<open>
  A non-empty path that was parsed equals exactly the dotted string it was parsed from, and
  prints as it.
\<close>

theorem equalsDottedField_iff:
  assumes "path \<noteq> []"
  shows "(equalsDottedField (FieldRef_of path) other \<longleftrightarrow> other = path)
    \<and> fst (dottedField (FieldRef_of path) 0) = path"
proof -
  have parts: "fr_parts (FieldRef_of path) = split_dot path" using assms by (rule FieldRef_of_parts)
  then have "0 < fr_size (FieldRef_of path)" by (metis length_fr_parts length_greater_0_conv split_dot_nonempty)
  with parts FieldRef_of_wf [of path] show ?thesis
    by (simp add: equalsDottedField_def equalsDottedField_loop_iff dottedField_spec)
qed

lemma equalsDottedField_iff_witness:
  "(equalsDottedField (FieldRef_of ''a.b'') ''a.b.c'' \<longleftrightarrow> ''a.b.c'' = ''a.b'')
   \<and> fst (dottedField (FieldRef_of ''a.b'') 0) = ''a.b''"
  by (rule equalsDottedField_iff) simp

lemma commonPrefixSize_loop_spec:
  "i + left = min (fr_size fr) (fr_size other) \<Longrightarrow>
   take i (fr_parts fr) = take i (fr_parts other) \<Longrightarrow>
   commonPrefixSize_loop fr other i left
   = length (longest_common_prefix (fr_parts fr) (fr_parts other))"
proof (induction left arbitrary: i)
  case 0
  let ?m = "min (fr_size fr) (fr_size other)"
  have "i \<le> length (longest_common_prefix (fr_parts fr) (fr_parts other))"
    using 0 longest_common_prefix_max_prefix [of "take i (fr_parts fr)" "fr_parts fr" "fr_parts other"]
    by (metis length_fr_parts length_take min.absorb2 min.cobounded1 add_0_right prefix_length_le take_is_prefix)
  moreover have "length (longest_common_prefix (fr_parts fr) (fr_parts other)) \<le> ?m"
    using longest_common_prefix_prefix1 longest_common_prefix_prefix2
    by (metis length_fr_parts min.boundedI prefix_length_le)
  ultimately show ?case using 0 by (auto intro: le_antisym)
next
  case (Suc left)
  then have i: "i < fr_size fr" "i < fr_size other" by auto
  show ?case
  proof (cases "getPart fr i = getPart other i")
    case True
    with Suc.prems i have "take (Suc i) (fr_parts fr) = take (Suc i) (fr_parts other)"
      by (simp add: take_Suc_conv_app_nth)
    with Suc True show ?thesis by simp
  next
    case False
    have split: "fr_parts fr = take i (fr_parts fr) @ getPart fr i # drop (Suc i) (fr_parts fr)"
      "fr_parts other = take i (fr_parts fr) @ getPart other i # drop (Suc i) (fr_parts other)"
      using drop_parts [OF i(1)] drop_parts [OF i(2)] Suc.prems(2) by (metis append_take_drop_id)+
    have "longest_common_prefix (p @ x # u) (p @ y # v) = p" if "x \<noteq> y" for p x y u and v :: "string list"
      using that by (induction p) auto
    from this [OF False] split have "longest_common_prefix (fr_parts fr) (fr_parts other) = take i (fr_parts fr)"
      by metis
    with False i show ?thesis by simp
  qed
qed

text \<open>
  One path is a prefix of another exactly when it has a part and its parts are a proper
  prefix of the other's.
\<close>

theorem fr_isPrefixOf_iff:
  "fr_isPrefixOf fr other \<longleftrightarrow> fr_parts fr \<noteq> [] \<and> strict_prefix (fr_parts fr) (fr_parts other)"
proof (cases "fr_size fr \<ge> fr_size other \<or> fr_size fr = 0")
  case True
  then show ?thesis
    using prefix_length_less [of "fr_parts fr" "fr_parts other"]
    by (auto simp: fr_isPrefixOf_def)
next
  case False
  let ?l = "longest_common_prefix (fr_parts fr) (fr_parts other)"
  have "commonPrefixSize fr other = length ?l"
  proof -
    have "min (fr_size fr - 1) (fr_size other - 1) + 1 = fr_size fr" using False by auto
    with False commonPrefixSize_loop_spec [of 0 "fr_size fr" fr other] show ?thesis
      unfolding commonPrefixSize_def Let_def by simp
  qed
  moreover have "length ?l = fr_size fr \<longleftrightarrow> prefix (fr_parts fr) (fr_parts other)"
    using longest_common_prefix_prefix1 [of "fr_parts fr" "fr_parts other"]
      longest_common_prefix_prefix2 [of "fr_parts fr" "fr_parts other"]
      longest_common_prefix_max_prefix [of "fr_parts fr" "fr_parts fr" "fr_parts other"]
    by (metis dual_order.antisym length_fr_parts prefix_length_le prefix_length_prefix
        prefix_order.eq_iff prefix_order.refl)
  moreover have "fr_parts fr \<noteq> []" "fr_parts fr \<noteq> fr_parts other"
    using False by (metis length_0_conv length_fr_parts, metis length_fr_parts order_refl)
  ultimately show ?thesis using False by (auto simp: fr_isPrefixOf_def Let_def strict_prefix_def)
qed

lemma fr_compare_loop_zero:
  "i + left = min (fr_size fr) (fr_size other) \<Longrightarrow>
   fr_compare_loop fr other i left = 0 \<longleftrightarrow> drop i (fr_parts fr) = drop i (fr_parts other)"
proof (induction left arbitrary: i)
  case (Suc left)
  then show ?case by (auto simp: drop_parts)
qed (auto simp: Let_def)

lemma fr_compare_zero_iff: "fr_compare fr other = 0 \<longleftrightarrow> fr_parts fr = fr_parts other"
  using fr_compare_loop_zero [of 0 "min (fr_size fr) (fr_size other)" fr other]
  by (simp add: fr_compare_def)

end
