(* ===== verification/Path.thy ===== *)
theory Path
  imports Bson FieldRef
begin

text \<open>
  Walking a document along a dotted path: \<open>src/src/mongo/db/matcher/path.h\<close>,
  \<open>path.cpp\<close> and \<open>path_internal.cpp\<close>.  The iterator is the state machine of the code: a
  state, a pending result, the position in the array being visited and a nested iterator for the
  rest of the path.  Running it to its end is proved equal to a plain recursive enumeration.
\<close>

section \<open>Looking up a path\<close>

definition isAllDigits :: "string \<Rightarrow> bool" where
  "isAllDigits s = list_all isdigit s"

text \<open>The loop of \<open>getFieldDottedOrArray\<close>; \<open>left\<close> counts the parts not yet followed.\<close>

fun gfda_loop :: "field_ref \<Rightarrow> bobj \<Rightarrow> nat \<Rightarrow> nat \<Rightarrow> belem \<Rightarrow> belem \<times> nat" where
  "gfda_loop path cur partNum 0 res = (res, partNum)"
| "gfda_loop path cur partNum (Suc left) _ =
     (let res = getField (getPart path partNum) cur in
      case etype res of
        EOO \<Rightarrow> (res, partNum)
      | Object \<Rightarrow> gfda_loop path (subelems (snd res)) (partNum + 1) left res
      | Array \<Rightarrow> (res, partNum)
      | _ \<Rightarrow> (if partNum + 1 < numParts path then EOO_elem else res, partNum))"

definition getFieldDottedOrArray :: "bobj \<Rightarrow> field_ref \<Rightarrow> belem \<times> nat" where
  "getFieldDottedOrArray doc path =
     (if numParts path = 0 then (getField '''' doc, 0)
      else gfda_loop path doc 0 (numParts path) EOO_elem)"

record element_path =
  ep_fieldRef :: field_ref
  ep_traverseLeafArray :: bool

definition ElementPath_init :: "string \<Rightarrow> element_path" where
  "ElementPath_init path = \<lparr>ep_fieldRef = FieldRef_of path, ep_traverseLeafArray = True\<rparr>"

section \<open>The iterator\<close>

datatype ectx = Context (ec_element: belem) (ec_arrayOffset: belem) (ec_outerArray: bool)

definition ctx_reset :: ectx where
  "ctx_reset = Context EOO_elem EOO_elem False"

definition setArrayOffset :: "belem \<Rightarrow> ectx \<Rightarrow> ectx" where
  "setArrayOffset e c = Context (ec_element c) e (ec_outerArray c)"

record ais =
  restOfPath :: string
  hasMore :: bool
  nextPieceOfPath :: string
  nextPieceOfPathIsNumber :: bool
  ais_theArray :: belem
  ais_current :: belem
  ais_iterator :: "bobj option"

definition ais_init :: ais where
  "ais_init = \<lparr>restOfPath = '''', hasMore = False, nextPieceOfPath = '''',
     nextPieceOfPathIsNumber = False, ais_theArray = EOO_elem, ais_current = EOO_elem,
     ais_iterator = None\<rparr>"

definition ais_reset :: "field_ref \<Rightarrow> nat \<Rightarrow> ais \<Rightarrow> ais" where
  "ais_reset ref start a =
     (let rest = fst (dottedField ref start); a' = a\<lparr>restOfPath := rest, hasMore := rest \<noteq> []\<rparr>
      in if rest \<noteq> [] then
           a'\<lparr>nextPieceOfPath := getPart ref start,
              nextPieceOfPathIsNumber := isAllDigits (getPart ref start)\<rparr>
         else a'\<lparr>nextPieceOfPathIsNumber := False\<rparr>)"

definition isArrayOffsetMatch :: "ais \<Rightarrow> string \<Rightarrow> bool" where
  "isArrayOffsetMatch a name = (if \<not> nextPieceOfPathIsNumber a then False else nextPieceOfPath a = name)"

definition nextEntireRest :: "ais \<Rightarrow> bool" where
  "nextEntireRest a \<longleftrightarrow> length (nextPieceOfPath a) = length (restOfPath a)"

definition startIterator :: "belem \<Rightarrow> ais \<Rightarrow> ais" where
  "startIterator e a = a\<lparr>ais_theArray := e, ais_iterator := Some (subelems (snd e))\<rparr>"

datatype bei_state = BEGIN | IN_ARRAY | DONE

datatype bei = BEI (b_path: element_path) (b_context: bobj) (b_state: bei_state) (b_next: ectx)
  (b_ais: ais) (b_sub: "bei option")

definition BSONElementIterator :: "element_path \<Rightarrow> bobj \<Rightarrow> bei" where
  "BSONElementIterator p c = BEI p c BEGIN ctx_reset ais_init None"

definition subCursorPath :: "element_path \<Rightarrow> string \<Rightarrow> element_path" where
  "subCursorPath p s = (ElementPath_init s)\<lparr>ep_traverseLeafArray := ep_traverseLeafArray p\<rparr>"

definition pathAfterPiece :: "ais \<Rightarrow> string" where
  "pathAfterPiece a = drop (length (nextPieceOfPath a) + 1) (restOfPath a)"

text \<open>Weights that bound what is left to visit; the iterator terminates by them.\<close>

fun wval :: "bval \<Rightarrow> nat" and wobj :: "bobj \<Rightarrow> nat" where
  "wval (BObject fs) = wobj fs"
| "wval (BArray fs) = wobj fs"
| "wval _ = 1"
| "wobj [] = 1"
| "wobj (e # es) = 2 * wval (snd e) + 8 + wobj es"

definition wcur :: "belem \<Rightarrow> nat" where
  "wcur e = (if eoo e then 0 else wval (snd e) + 3)"

fun bei_weight :: "bei \<Rightarrow> nat" where
  "bei_weight (BEI p c st nx a sub) =
     (case st of BEGIN \<Rightarrow> wobj c + 2
      | IN_ARRAY \<Rightarrow> (case ais_iterator a of None \<Rightarrow> 1 | Some xs \<Rightarrow> wobj xs) | DONE \<Rightarrow> 0)
     + wcur (ais_current a) + (if eoo (ec_element nx) then 0 else 1)
     + (case sub of None \<Rightarrow> 0 | Some s \<Rightarrow> Suc (bei_weight s))"

lemma wobj_pos [simp]: "0 < wobj xs"
  by (induction xs) auto

lemma wval_pos [simp]: "0 < wval v"
  by (cases v) auto

lemma wobj_mem: "e \<in> set fs \<Longrightarrow> 2 * wval (snd e) + 8 < wobj fs"
  by (induction fs) (auto intro: add_less_mono)

lemma wobj_subelems: "wobj (subelems v) \<le> wval v"
  by (cases v) auto

lemma wobj_getField: "\<not> eoo (getField n fs) \<Longrightarrow> getField n fs \<in> set fs"
  by (induction fs) (auto simp: EOO_elem_def eoo_def etype_def)

lemma gfda_loop_weight:
  "gfda_loop path cur n left res = (e, i) \<Longrightarrow> etype e = Array \<Longrightarrow>
   left = 0 \<and> res = e \<or> wval (snd e) < wobj cur"
proof (induction path cur n left res rule: gfda_loop.induct)
  case (2 path cur n left res)
  let ?r = "getField (getPart path n) cur"
  have mem: "wval (snd ?r) < wobj cur" if "etype ?r \<noteq> EOO"
    using wobj_mem [OF wobj_getField, of "getPart path n" cur] that by (simp add: eoo_def)
  show ?case
  proof (cases "etype ?r = Object")
    case True
    with 2 have "?r = e \<or> wval (snd e) < wobj (subelems (snd ?r))" by (auto simp: Let_def)
    with True 2 mem wobj_subelems [of "snd ?r"] show ?thesis by fastforce
  next
    case False
    with 2 mem show ?thesis
      by (auto simp: Let_def EOO_elem_def etype_def split: btype.splits if_splits)
  qed
qed simp

lemma gfda_weight:
  "getFieldDottedOrArray doc path = (e, i) \<Longrightarrow> etype e = Array \<Longrightarrow> wval (snd e) < wobj doc"
  using gfda_loop_weight [of path doc 0 "numParts path" EOO_elem e i]
    wobj_mem [OF wobj_getField, of "[]" doc]
  by (auto simp: getFieldDottedOrArray_def eoo_def EOO_elem_def etype_def split: if_splits)

lemma wobj_subelems_array: "etype e = Array \<Longrightarrow> wobj (subelems (snd e)) = wval (snd e)"
  by (cases "snd e") (auto simp: etype_def)

lemma Obj_weight: "Obj e = Inr obj \<Longrightarrow> wobj obj + 3 \<le> wcur e"
  using wobj_subelems [of "snd e"]
  by (auto simp: Obj_def wcur_def eoo_def isABSONObj_def split: if_splits)

lemma wcur_EOO [simp]: "wcur EOO_elem = 0"
  by (simp add: wcur_def eoo_def EOO_elem_def etype_def)

lemma eoo_EOO [simp]: "eoo EOO_elem"
  by (simp add: eoo_def EOO_elem_def etype_def)

lemma wcur_le: "wcur e \<le> wval (snd e) + 3"
  by (simp add: wcur_def)

lemma weight_new: "bei_weight (BSONElementIterator p c) = wobj c + 2"
  by (simp add: BSONElementIterator_def ctx_reset_def ais_init_def)

lemma ais_simps [simp]:
  "ais_current (ais_reset r n a) = ais_current a" "ais_current (startIterator e a) = ais_current a"
  "ais_iterator (startIterator e a) = Some (subelems (snd e))" "ais_current ais_init = EOO_elem"
  "ec_element ctx_reset = EOO_elem"
  by (simp_all add: ais_reset_def startIterator_def Let_def ais_init_def ctx_reset_def)

text \<open>
  What one pass through the body of \<open>more()\<close> does: return, call \<open>more()\<close> again in a new state
  (also for the next round of the loop over an array, which starts in the same place), or throw.
\<close>

datatype bei_act = Return bool bei | Again bei | Throw merror

definition bei_begin :: "element_path \<Rightarrow> bobj \<Rightarrow> ectx \<Rightarrow> ais \<Rightarrow> bei_act" where
  "bei_begin p c nx a =
     (let (e, idxPath) = getFieldDottedOrArray c (ep_fieldRef p) in
      if etype e \<noteq> Array then Return True (BEI p c DONE (Context e EOO_elem False) a None)
      else let a' = ais_reset (ep_fieldRef p) (idxPath + 1) a in
        if \<not> hasMore a' \<and> \<not> ep_traverseLeafArray p then
          Return True (BEI p c DONE (Context e EOO_elem True) a' None)
        else Again (BEI p c IN_ARRAY nx (startIterator e a') None))"

definition bei_in_array :: "element_path \<Rightarrow> bobj \<Rightarrow> ectx \<Rightarrow> ais \<Rightarrow> bei_act" where
  "bei_in_array p c nx a = (case ais_iterator a of
     Some (x # xs) \<Rightarrow>
       (let a' = a\<lparr>ais_iterator := Some xs, ais_current := x\<rparr> in
        if \<not> hasMore a' then Return True (BEI p c IN_ARRAY (Context x x False) a' None)
        else if etype x = Object then
          Again (BEI p c IN_ARRAY nx a'
            (Some (BSONElementIterator (subCursorPath p (restOfPath a')) (subelems (snd x)))))
        else if isArrayOffsetMatch a' (fieldName x) then
          if nextEntireRest a' then Return True (BEI p c IN_ARRAY (Context x x False) a' None)
          else if isABSONObj x then
            (let sp = subCursorPath p (pathAfterPiece a');
                 real = BEI sp (subelems (snd x)) IN_ARRAY ctx_reset
                          (startIterator x (ais_reset (ep_fieldRef sp) 0 ais_init)) None
             in Again (BEI p c IN_ARRAY nx (a'\<lparr>ais_current := EOO_elem\<rparr>) (Some real)))
          else Again (BEI p c IN_ARRAY nx a' None)
        else Again (BEI p c IN_ARRAY nx a' None))
   | _ \<Rightarrow>
       if hasMore a then Return False (BEI p c IN_ARRAY nx a None)
       else Return True (BEI p c DONE (Context (ais_theArray a) EOO_elem True) a None))"

definition bei_step :: "element_path \<Rightarrow> bobj \<Rightarrow> bei_state \<Rightarrow> ectx \<Rightarrow> ais \<Rightarrow> bei_act" where
  "bei_step p c st nx a =
     (if \<not> eoo (ec_element nx) then Return True (BEI p c st nx a None)
      else (case st of
        DONE \<Rightarrow> Return False (BEI p c st nx a None)
      | BEGIN \<Rightarrow> bei_begin p c nx a
      | IN_ARRAY \<Rightarrow> bei_in_array p c nx a))"

definition bei_sub_done :: "element_path \<Rightarrow> bobj \<Rightarrow> bei_state \<Rightarrow> ectx \<Rightarrow> ais \<Rightarrow> bei_act" where
  "bei_sub_done p c st nx a =
     (if isArrayOffsetMatch a (fieldName (ais_current a)) then
        if nextEntireRest a then
          Return True (BEI p c st (Context (ais_current a) (ais_current a) True)
                         (a\<lparr>ais_current := EOO_elem\<rparr>) None)
        else (case Obj (ais_current a) of
            Inl err \<Rightarrow> Throw err
          | Inr obj \<Rightarrow>
              Again (BEI p c st nx (a\<lparr>ais_current := EOO_elem\<rparr>)
                (Some (BSONElementIterator (subCursorPath p (pathAfterPiece a)) obj))))
      else bei_step p c st nx a)"

fun bei_next :: "bei \<Rightarrow> ectx \<times> bei" where
  "bei_next (BEI p c st nx a (Some s)) =
     (let (e, s') = bei_next s in (setArrayOffset (ais_current a) e, BEI p c st nx a (Some s')))"
| "bei_next (BEI p c st nx a None) = (nx, BEI p c st ctx_reset a None)"

fun act_smaller :: "bei_act \<Rightarrow> nat \<Rightarrow> bool" where
  "act_smaller (Again it) n = (bei_weight it < n)"
| "act_smaller (Return b it) n = (b \<longrightarrow> bei_weight (snd (bei_next it)) < n)"
| "act_smaller (Throw _) n = True"

lemma act_smaller_mono: "act_smaller act m \<Longrightarrow> m \<le> n \<Longrightarrow> act_smaller act n"
  by (cases act) auto

lemma begin_smaller: "act_smaller (bei_begin p c nx a) (bei_weight (BEI p c BEGIN nx a None))"
proof -
  obtain e i where g: "getFieldDottedOrArray c (ep_fieldRef p) = (e, i)" by (cases "getFieldDottedOrArray c (ep_fieldRef p)")
  show ?thesis using gfda_weight [OF g] by (auto simp: bei_begin_def g Let_def wobj_subelems_array)
qed

lemma in_array_smaller: "act_smaller (bei_in_array p c nx a) (bei_weight (BEI p c IN_ARRAY nx a None))"
proof (cases "\<exists>x xs. ais_iterator a = Some (x # xs)")
  case True
  then obtain x xs where "ais_iterator a = Some (x # xs)" by blast
  with wcur_le [of x] wobj_subelems [of "snd x"] show ?thesis
    by (auto simp: bei_in_array_def Let_def weight_new)
qed (auto simp: bei_in_array_def split: option.split list.split)

lemma step_smaller: "act_smaller (bei_step p c st nx a) (bei_weight (BEI p c st nx a None))"
  using begin_smaller [of p c nx a] in_array_smaller [of p c nx a]
  by (cases st; cases "eoo (ec_element nx)") (simp_all add: bei_step_def)

lemma sub_done_smaller: "act_smaller (bei_sub_done p c st nx a) (bei_weight (BEI p c st nx a (Some s)))"
proof (cases "isArrayOffsetMatch a (fieldName (ais_current a))")
  case True
  then show ?thesis
    using Obj_weight [of "ais_current a"]
    by (cases "Obj (ais_current a)"; cases st) (simp_all add: bei_sub_done_def weight_new)
next
  case False
  then show ?thesis
    using act_smaller_mono [OF step_smaller] by (simp add: bei_sub_done_def)
qed

function bei_more :: "bei \<Rightarrow> (bool \<times> bei) result" where
  "bei_more (BEI p c st nx a sub) = (case sub of
     None \<Rightarrow> (case bei_step p c st nx a of
         Return b it \<Rightarrow> Inr (b, it) | Again it \<Rightarrow> bei_more it | Throw err \<Rightarrow> Inl err)
   | Some s \<Rightarrow> rbind (bei_more s) (\<lambda>(b, s').
       if b then Inr (True, BEI p c st nx a (Some s'))
       else (case bei_sub_done p c st nx a of
         Return b it \<Rightarrow> Inr (b, it) | Again it \<Rightarrow> bei_more it | Throw err \<Rightarrow> Inl err)))"
  by pat_completeness auto
termination
proof (relation "measure bei_weight")
  show "(it, BEI p c st nx a sub) \<in> measure bei_weight"
    if "sub = None" "bei_step p c st nx a = Again it" for p c st nx a sub it
    using step_smaller [of p c st nx a] that by simp
  show "(it, BEI p c st nx a sub) \<in> measure bei_weight"
    if "sub = Some s" "bei_sub_done p c st nx a = Again it" for p c st nx a sub s it
    using sub_done_smaller [of p c st nx a s] that by simp
qed auto

declare bei_more.simps [simp del]

lemma bei_more_weight:
  "bei_more it = Inr (True, it') \<Longrightarrow> bei_weight (snd (bei_next it')) < bei_weight it"
proof (induction it arbitrary: it' rule: bei_more.induct)
  case (1 p c st nx a sub)
  show ?case
  proof (cases sub)
    case None
    note small = step_smaller [of p c st nx a]
    show ?thesis
    proof (cases "bei_step p c st nx a")
      case (Again it)
      with None 1 have "bei_weight (snd (bei_next it')) < bei_weight it" by (simp add: bei_more.simps)
      with small Again None show ?thesis by (simp del: bei_weight.simps)
    qed (use small None "1.prems" in \<open>simp_all add: bei_more.simps del: bei_weight.simps\<close>)
  next
    case (Some s)
    note small = sub_done_smaller [of p c st nx a s]
    from "1.prems" Some obtain b s' where more: "bei_more s = Inr (b, s')"
      by (auto simp: bei_more.simps rbind_Inr_iff)
    show ?thesis
    proof (cases b)
      case True
      with "1.IH"(2) [OF Some] more have "bei_weight (snd (bei_next s')) < bei_weight s" by simp
      with True more Some "1.prems" show ?thesis by (auto simp: bei_more.simps Let_def split: prod.splits)
    next
      case False
      show ?thesis
      proof (cases "bei_sub_done p c st nx a")
        case (Again it)
        with Some False more 1 have "bei_weight (snd (bei_next it')) < bei_weight it"
          by (simp add: bei_more.simps)
        with small Again Some show ?thesis by (simp del: bei_weight.simps)
      qed (use small Some False more "1.prems" in \<open>simp_all add: bei_more.simps del: bei_weight.simps\<close>)
    qed
  qed
qed

text \<open>
  All the elements an iterator yields, in order, and the exception that ends it, if any: the loop
  \<open>while (cursor.more()) { e = cursor.next(); ... }\<close> of the iterator's clients.
\<close>

function bei_run :: "bei \<Rightarrow> ectx list \<times> merror option" where
  "bei_run it = (case bei_more it of
     Inl err \<Rightarrow> ([], Some err)
   | Inr (b, it') \<Rightarrow>
       if b then let (e, it'') = bei_next it'; (es, err) = bei_run it'' in (e # es, err)
       else ([], None))"
  by pat_completeness auto
termination
proof (relation "measure bei_weight")
  show "(it'', it) \<in> measure bei_weight"
    if "bei_more it = Inr r" "(b, it') = r" "b" "n = bei_next it'" "(e, it'') = n" for it r b it' n e it''
    using bei_more_weight [of it it'] that by (metis in_measure snd_conv)
qed simp

declare bei_run.simps [simp del]

section \<open>The elements a path reaches, by recursion on the document\<close>

fun walk :: "string list \<Rightarrow> bobj \<Rightarrow> belem \<times> string list" where
  "walk [] doc = (getField '''' doc, [])"
| "walk [p] doc = (getField p doc, [])"
| "walk (p # ps) doc =
     (let r = getField p doc in
      case etype r of
        Object \<Rightarrow> walk ps (subelems (snd r))
      | Array \<Rightarrow> (r, ps)
      | EOO \<Rightarrow> (r, [])
      | _ \<Rightarrow> (EOO_elem, []))"

definition leaf_elems :: "belem \<Rightarrow> ectx list" where
  "leaf_elems e = map (\<lambda>x. Context x x False) (subelems (snd e)) @ [Context e EOO_elem True]"

lemma walk_weight: "walk ps doc = (e, r) \<Longrightarrow> etype e = Array \<Longrightarrow> wval (snd e) < wobj doc"
proof (induction ps doc rule: walk.induct)
  case (3 p q ps doc)
  let ?r = "getField p doc"
  have mem: "wval (snd ?r) < wobj doc" if "etype ?r \<noteq> EOO"
    using wobj_mem [OF wobj_getField, of p doc] that by (simp add: eoo_def)
  then show ?case
    using 3 wobj_subelems [of "snd ?r"]
    by (cases "etype ?r") (auto simp: Let_def EOO_elem_def etype_def)
next
  case (1 doc)
  then show ?case using wobj_mem [OF wobj_getField, of "[]" doc] by (simp add: eoo_def)
next
  case (2 p doc)
  then show ?case using wobj_mem [OF wobj_getField, of p doc] by (simp add: eoo_def)
qed

function path_elems :: "bool \<Rightarrow> string list \<Rightarrow> bobj \<Rightarrow> ectx list"
  and array_item :: "bool \<Rightarrow> string \<Rightarrow> string list \<Rightarrow> belem \<Rightarrow> ectx list" where
  "path_elems leaf ps doc =
     (let (e, rest) = walk ps doc in
      if etype e \<noteq> Array then [Context e EOO_elem False]
      else (case rest of
        [] \<Rightarrow> if leaf then leaf_elems e else [Context e EOO_elem True]
      | q # qs \<Rightarrow> concat (map (array_item leaf q qs) (subelems (snd e)))))"
| "array_item leaf q qs x =
     (let here = isAllDigits q \<and> q = fieldName x in
      if etype x = Object then
        map (setArrayOffset x) (path_elems leaf (q # qs) (subelems (snd x))) @
        (if here then if qs = [] then [Context x x True]
           else map (setArrayOffset EOO_elem) (path_elems leaf qs (subelems (snd x))) else [])
      else if here then
        if qs = [] then [Context x x False]
        else if etype x = Array then
          map (setArrayOffset EOO_elem) (concat (map (array_item leaf (hd qs) (tl qs)) (subelems (snd x))))
        else []
      else [])"
  by pat_completeness auto
termination
proof (relation "measure (\<lambda>p. case p of Inl (_, _, doc) \<Rightarrow> 2 * wobj doc | Inr (_, _, _, x) \<Rightarrow> 2 * wval (snd x) + 1)")
  have sub: "wval (snd y) < wval (snd x)" if "y \<in> set (subelems (snd x))" for x y :: belem
    using wobj_mem [OF that] wobj_subelems [of "snd x"] by simp
  show "(Inr (leaf, q, qs, y), Inl (leaf, ps, doc)) \<in> measure (\<lambda>p. case p of
      Inl (_, _, doc) \<Rightarrow> 2 * wobj doc | Inr (_, _, _, x) \<Rightarrow> 2 * wval (snd x) + 1)"
    if "w = walk ps doc" "(e, rest) = w" "\<not> etype e \<noteq> Array" "rest = q # qs" "y \<in> set (subelems (snd e))"
    for leaf ps doc w e rest q qs y
    using walk_weight [of ps doc e rest] sub [OF that(5)] that by simp
  show "(Inl (leaf, q # qs, subelems (snd x)), Inr (leaf, q, qs, x)) \<in> measure (\<lambda>p. case p of
      Inl (_, _, doc) \<Rightarrow> 2 * wobj doc | Inr (_, _, _, x) \<Rightarrow> 2 * wval (snd x) + 1)" for leaf q qs x
    using wobj_subelems [of "snd x"] by simp
  show "(Inl (leaf, qs, subelems (snd x)), Inr (leaf, q, qs, x)) \<in> measure (\<lambda>p. case p of
      Inl (_, _, doc) \<Rightarrow> 2 * wobj doc | Inr (_, _, _, x) \<Rightarrow> 2 * wval (snd x) + 1)" for leaf q qs x
    using wobj_subelems [of "snd x"] by simp
  show "(Inr (leaf, hd qs, tl qs, y), Inr (leaf, q, qs, x)) \<in> measure (\<lambda>p. case p of
      Inl (_, _, doc) \<Rightarrow> 2 * wobj doc | Inr (_, _, _, x) \<Rightarrow> 2 * wval (snd x) + 1)"
    if "y \<in> set (subelems (snd x))" for leaf q qs x y
    using sub [OF that] by simp
qed simp

declare path_elems.simps [simp del] array_item.simps [simp del]

section \<open>The iterator yields exactly these elements\<close>

definition good_parts :: "string list \<Rightarrow> bool" where
  "good_parts ps \<longleftrightarrow> ps \<noteq> [] \<and> (\<forall>p \<in> set ps. p \<noteq> [] \<and> CHR ''.'' \<notin> set p)"

lemma split_dot_part: "CHR ''.'' \<notin> set p \<Longrightarrow> split_dot p = [p]"
  by (induction p) auto

lemma split_dot_append:
  "CHR ''.'' \<notin> set p \<Longrightarrow> split_dot (p @ CHR ''.'' # s) = p # split_dot s"
  by (induction p) auto

lemma split_join_dot: "good_parts ps \<Longrightarrow> split_dot (join_dot ps) = ps"
proof (induction ps rule: join_dot.induct)
  case (3 p q ps)
  then have "split_dot (join_dot (q # ps)) = q # ps" by (simp add: good_parts_def)
  with 3 show ?case by (simp add: split_dot_append good_parts_def)
qed (auto simp: good_parts_def split_dot_part)

lemma join_dot_nonempty: "good_parts ps \<Longrightarrow> join_dot ps \<noteq> []"
  by (cases ps rule: join_dot.cases) (auto simp: good_parts_def)

lemma drop_join_dot: "good_parts (q # qs) \<Longrightarrow> drop (length q + 1) (join_dot (q # qs)) = join_dot qs"
  by (cases qs) auto

lemma good_parts_tl: "good_parts (q # qs) \<Longrightarrow> qs \<noteq> [] \<Longrightarrow> good_parts qs"
  by (simp add: good_parts_def)

lemma good_parts_drop: "good_parts ps \<Longrightarrow> i < length ps \<Longrightarrow> good_parts (drop i ps)"
  by (auto simp: good_parts_def dest: in_set_dropD)

definition ep_parts :: "element_path \<Rightarrow> string list" where
  "ep_parts p = fr_parts (ep_fieldRef p)"

definition good_path :: "element_path \<Rightarrow> bool" where
  "good_path p \<longleftrightarrow> fr_wf (ep_fieldRef p) \<and> good_parts (ep_parts p)"

lemma subCursorPath_parts:
  "good_parts ps \<Longrightarrow> good_path (subCursorPath p (join_dot ps)) \<and> ep_parts (subCursorPath p (join_dot ps)) = ps
     \<and> ep_traverseLeafArray (subCursorPath p (join_dot ps)) = ep_traverseLeafArray p"
  by (simp add: subCursorPath_def ElementPath_init_def good_path_def ep_parts_def FieldRef_of_wf
      FieldRef_of_parts join_dot_nonempty split_join_dot)

lemma gfda_loop_walk:
  "i + left = numParts path \<Longrightarrow> left \<noteq> 0 \<Longrightarrow>
   gfda_loop path doc i left r0 = (e, k) \<Longrightarrow>
   fst (walk (drop i (fr_parts path)) doc) = e \<and>
   (etype e = Array \<longrightarrow> k < numParts path \<and> snd (walk (drop i (fr_parts path)) doc) = drop (Suc k) (fr_parts path))"
proof (induction left arbitrary: i doc r0)
  case (Suc left)
  let ?r = "getField (getPart path i) doc"
  have i: "i < fr_size path" using Suc.prems by (simp add: numParts_def)
  have d: "drop i (fr_parts path) = getPart path i # drop (Suc i) (fr_parts path)" by (rule drop_parts [OF i])
  have neoo: "etype EOO_elem = EOO" by (simp add: EOO_elem_def etype_def)
  show ?case
  proof (cases left)
    case 0
    then have e: "drop (Suc i) (fr_parts path) = []" "\<not> i + 1 < numParts path"
      using Suc.prems by (simp_all add: numParts_def)
    with Suc.prems 0 d show ?thesis by (cases "etype ?r") (auto simp: Let_def)
  next
    case (Suc m)
    then have ne: "drop (Suc i) (fr_parts path) \<noteq> []" "i + 1 < numParts path"
      using Suc.prems by (simp_all add: numParts_def)
    then obtain q qs where q: "drop (Suc i) (fr_parts path) = q # qs" by (cases "drop (Suc i) (fr_parts path)") auto
    show ?thesis
      using Suc.prems Suc ne neoo d q Suc.IH [of "Suc i" "subelems (snd ?r)" ?r]
      by (cases "etype ?r") (auto simp: Let_def)
  qed
qed simp

lemma gfda_walk:
  assumes "getFieldDottedOrArray doc path = (e, k)" "fr_parts path \<noteq> []"
  shows "fst (walk (fr_parts path) doc) = e"
    "etype e = Array \<Longrightarrow> k < numParts path \<and> snd (walk (fr_parts path) doc) = drop (Suc k) (fr_parts path)"
proof -
  have "numParts path \<noteq> 0" using assms(2) fr_parts_size_zero by (fastforce simp: numParts_def)
  with assms(1) gfda_loop_walk [of 0 "numParts path" path doc EOO_elem e k]
  show "fst (walk (fr_parts path) doc) = e"
    "etype e = Array \<Longrightarrow> k < numParts path \<and> snd (walk (fr_parts path) doc) = drop (Suc k) (fr_parts path)"
    by (simp_all add: getFieldDottedOrArray_def)
qed

text \<open>The array position as the parts that are left.\<close>

definition ais_ok :: "string list \<Rightarrow> ais \<Rightarrow> bool" where
  "ais_ok ps a \<longleftrightarrow> restOfPath a = join_dot ps \<and> hasMore a = (ps \<noteq> []) \<and>
     (if ps = [] then \<not> nextPieceOfPathIsNumber a
      else nextPieceOfPath a = hd ps \<and> nextPieceOfPathIsNumber a = isAllDigits (hd ps) \<and> good_parts ps)"

lemma ais_reset_ok:
  assumes "fr_wf ref" "good_parts (fr_parts ref)"
  shows "ais_ok (drop i (fr_parts ref)) (ais_reset ref i a)"
proof (cases "i < numParts ref")
  case True
  then have i: "i < fr_size ref" by (simp add: numParts_def)
  then have g: "good_parts (drop i (fr_parts ref))" using assms by (simp add: good_parts_drop)
  with i show ?thesis
    using dottedField_spec(1) [OF assms(1) i] join_dot_nonempty [OF g]
    by (simp add: ais_ok_def ais_reset_def Let_def hd_drop_conv_nth)
next
  case False
  then show ?thesis by (simp add: ais_ok_def ais_reset_def Let_def dottedField_def numParts_def)
qed

lemma ais_ok_update [simp]:
  "ais_ok ps (a\<lparr>ais_current := x\<rparr>) = ais_ok ps a" "ais_ok ps (a\<lparr>ais_iterator := y\<rparr>) = ais_ok ps a"
  "ais_ok ps (startIterator e a) = ais_ok ps a" "ais_ok ps (a\<lparr>ais_theArray := x\<rparr>) = ais_ok ps a"
  by (simp_all add: ais_ok_def startIterator_def)

lemma ais_ok_facts:
  assumes "ais_ok (q # qs) a"
  shows "hasMore a" "restOfPath a = join_dot (q # qs)" "good_parts (q # qs)"
    "isArrayOffsetMatch a n \<longleftrightarrow> isAllDigits q \<and> q = n" "nextEntireRest a \<longleftrightarrow> qs = []"
    "qs \<noteq> [] \<Longrightarrow> pathAfterPiece a = join_dot qs"
proof -
  from assms show a: "hasMore a" "restOfPath a = join_dot (q # qs)" "good_parts (q # qs)"
    by (simp_all add: ais_ok_def)
  from assms have q: "nextPieceOfPath a = q" by (simp add: ais_ok_def)
  from assms show "isArrayOffsetMatch a n \<longleftrightarrow> isAllDigits q \<and> q = n"
    by (auto simp: ais_ok_def isArrayOffsetMatch_def)
  show "nextEntireRest a \<longleftrightarrow> qs = []" by (cases qs) (simp_all add: nextEntireRest_def q a)
  show "qs \<noteq> [] \<Longrightarrow> pathAfterPiece a = join_dot qs"
    using drop_join_dot [OF a(3)] by (simp add: pathAfterPiece_def q a)
qed

text \<open>What an iterator still has to yield, and the invariant of its states.\<close>

definition after_sub :: "bool \<Rightarrow> string list \<Rightarrow> belem \<Rightarrow> ectx list" where
  "after_sub leaf ps x =
     (if isAllDigits (hd ps) \<and> hd ps = fieldName x then
        if tl ps = [] then [Context x x True]
        else map (setArrayOffset EOO_elem) (path_elems leaf (tl ps) (subelems (snd x)))
      else [])"

fun array_rest :: "bool \<Rightarrow> string list \<Rightarrow> belem \<Rightarrow> bobj \<Rightarrow> ectx list" where
  "array_rest leaf [] e xs = map (\<lambda>x. Context x x False) xs @ [Context e EOO_elem True]"
| "array_rest leaf (q # qs) e xs = concat (map (array_item leaf q qs) xs)"

fun bei_elems :: "bei \<Rightarrow> ectx list" where
  "bei_elems (BEI p c st nx a sub) =
     (case sub of None \<Rightarrow> []
      | Some s \<Rightarrow> map (setArrayOffset (ais_current a)) (bei_elems s)
          @ after_sub (ep_traverseLeafArray p) (split_dot (restOfPath a)) (ais_current a))
     @ (if eoo (ec_element nx) then [] else [nx])
     @ (case st of
          BEGIN \<Rightarrow> path_elems (ep_traverseLeafArray p) (ep_parts p) c
        | DONE \<Rightarrow> []
        | IN_ARRAY \<Rightarrow> array_rest (ep_traverseLeafArray p)
            (if hasMore a then split_dot (restOfPath a) else []) (ais_theArray a) (the (ais_iterator a)))"

fun bei_inv :: "bei \<Rightarrow> bool" where
  "bei_inv (BEI p c st nx a sub) \<longleftrightarrow> good_path p
     \<and> (st = IN_ARRAY \<longrightarrow> ais_iterator a \<noteq> None \<and> (\<exists>ps. ais_ok ps a))
     \<and> (case sub of None \<Rightarrow> True
        | Some s \<Rightarrow> st = IN_ARRAY \<and> hasMore a \<and> eoo (ec_element nx) \<and> bei_inv s
            \<and> (ais_current a = EOO_elem \<or> etype (ais_current a) = Object))"

fun act_ok :: "bei_act \<Rightarrow> ectx list \<Rightarrow> bool" where
  "act_ok (Return b it) es =
     (if b then bei_inv (snd (bei_next it)) \<and> es = fst (bei_next it) # bei_elems (snd (bei_next it))
      else es = [])"
| "act_ok (Again it) es = (bei_inv it \<and> es = bei_elems it)"
| "act_ok (Throw _) es = False"

lemma ais_ok_split: "ais_ok ps a \<Longrightarrow> (if hasMore a then split_dot (restOfPath a) else []) = ps"
  by (cases ps) (simp_all add: ais_ok_def split_join_dot)

lemma good_path_parts: "good_path p \<Longrightarrow> fr_parts (ep_fieldRef p) \<noteq> []"
  by (simp add: good_path_def good_parts_def ep_parts_def)

lemma begin_ok:
  assumes "good_path p" "eoo (ec_element nx)"
  shows "act_ok (bei_begin p c nx a) (path_elems (ep_traverseLeafArray p) (ep_parts p) c)"
proof -
  obtain e i where g: "getFieldDottedOrArray c (ep_fieldRef p) = (e, i)"
    by (cases "getFieldDottedOrArray c (ep_fieldRef p)")
  note w = gfda_walk [OF g good_path_parts [OF assms(1)]]
  let ?a = "ais_reset (ep_fieldRef p) (i + 1) a"
  let ?ps = "drop (Suc i) (ep_parts p)"
  have ok: "ais_ok ?ps ?a"
    using assms(1) ais_reset_ok [of "ep_fieldRef p" "i + 1" a] by (simp add: good_path_def ep_parts_def)
  have walk: "walk (ep_parts p) c = (e, ?ps)" if "etype e = Array"
    using w that by (metis ep_parts_def prod.collapse)
  have pe: "path_elems (ep_traverseLeafArray p) (ep_parts p) c =
      (if ?ps = [] \<and> \<not> ep_traverseLeafArray p then [Context e EOO_elem True]
       else array_rest (ep_traverseLeafArray p) ?ps e (subelems (snd e)))" if "etype e = Array"
    using that by (cases ?ps) (simp_all add: path_elems.simps walk leaf_elems_def)
  have pn: "path_elems (ep_traverseLeafArray p) (ep_parts p) c = [Context e EOO_elem False]"
    if "etype e \<noteq> Array"
    using w(1) that by (cases "walk (ep_parts p) c") (simp add: path_elems.simps ep_parts_def)
  have more: "hasMore ?a \<longleftrightarrow> ?ps \<noteq> []" using ok by (simp add: ais_ok_def)
  show ?thesis
  proof (cases "etype e = Array")
    case True
    have "?ps = (if hasMore ?a then split_dot (restOfPath ?a) else [])" using ais_ok_split [OF ok] by simp
    with True pe more ok assms g show ?thesis
      by (auto simp: bei_begin_def Let_def startIterator_def)
  qed (use g pn assms in \<open>simp add: bei_begin_def\<close>)
qed

lemma new_iterator:
  assumes "good_parts ps"
  shows "bei_inv (BSONElementIterator (subCursorPath p (join_dot ps)) doc)"
    and "bei_elems (BSONElementIterator (subCursorPath p (join_dot ps)) doc)
       = path_elems (ep_traverseLeafArray p) ps doc"
  using subCursorPath_parts [OF assms, of p] by (simp_all add: BSONElementIterator_def)

lemma array_iterator:
  fixes p qs x
  defines "sp \<equiv> subCursorPath p (join_dot qs)"
  defines "it \<equiv> BEI sp (subelems (snd x)) IN_ARRAY ctx_reset
     (startIterator x (ais_reset (ep_fieldRef sp) 0 ais_init)) None"
  assumes "good_parts qs"
  shows "bei_inv it" "bei_elems it = array_rest (ep_traverseLeafArray p) qs x (subelems (snd x))"
proof -
  note sp = subCursorPath_parts [OF assms(3), of p, folded sp_def]
  have ok: "ais_ok qs (ais_reset (ep_fieldRef sp) 0 ais_init)"
    using sp ais_reset_ok [of "ep_fieldRef sp" 0 ais_init] assms(3)
    by (simp add: good_path_def ep_parts_def)
  show "bei_inv it" "bei_elems it = array_rest (ep_traverseLeafArray p) qs x (subelems (snd x))"
    using sp ok ais_ok_split [OF ok] by (auto simp: it_def startIterator_def)
qed

lemma after_sub_EOO: "good_parts ps \<Longrightarrow> after_sub leaf ps EOO_elem = []"
  by (cases ps) (auto simp: after_sub_def good_parts_def fieldName_def)

lemma in_array_item_ok:
  assumes "good_path p" "eoo (ec_element nx)" "ais_iterator a = Some (x # xs)" "ais_ok (q # qs) a"
  shows "act_ok (bei_in_array p c nx a) (array_item (ep_traverseLeafArray p) q qs x
     @ array_rest (ep_traverseLeafArray p) (q # qs) (ais_theArray a) xs)"
proof -
  let ?a = "a\<lparr>ais_iterator := Some xs, ais_current := x\<rparr>"
  have ok: "ais_ok (q # qs) ?a" using assms(4) by simp
  note f = ais_ok_facts [OF ok] and more = ais_ok_facts(1) [OF assms(4)]
  have sp: "split_dot (restOfPath a) = q # qs" using ais_ok_split [OF assms(4)] more by simp
  consider "etype x = Object"
    | "etype x = Array" "isArrayOffsetMatch ?a (fieldName x)" "qs \<noteq> []"
    | "etype x \<noteq> Object" "\<not> (etype x = Array \<and> isArrayOffsetMatch ?a (fieldName x) \<and> qs \<noteq> [])"
    by blast
  then show ?thesis
  proof cases
    case 1
    with new_iterator [OF f(3), of p "subelems (snd x)"] f ok assms more sp show ?thesis
      unfolding array_item.simps [of _ q qs x] by (auto simp: bei_in_array_def Let_def after_sub_def)
  next
    case 2
    then have gq: "good_parts qs" using f(3) by (simp add: good_parts_tl)
    have here: "isAllDigits q" "fieldName x = q" using 2(2) f(4) [of "fieldName x"] by auto
    from 2(3) obtain q' qs' where qs: "qs = q' # qs'" by (cases qs) auto
    have "array_item (ep_traverseLeafArray p) q qs x =
        map (setArrayOffset EOO_elem) (array_rest (ep_traverseLeafArray p) qs x (subelems (snd x)))"
      using 2(1) here unfolding array_item.simps [of _ q qs x] Let_def by (simp add: qs)
    with 2 f(4,5,6) more sp assms ok array_iterator [OF gq, of p x] after_sub_EOO [OF f(3)] show ?thesis
      by (auto simp: bei_in_array_def Let_def isABSONObj_def)
  next
    case 3
    define h where "h \<longleftrightarrow> isAllDigits q \<and> q = fieldName x"
    have item: "array_item (ep_traverseLeafArray p) q qs x = (if h \<and> qs = [] then [Context x x False] else [])"
      using 3 f(4) [of "fieldName x"] unfolding array_item.simps [of _ q qs x] Let_def
      by (auto simp: h_def [symmetric])
    have "bei_in_array p c nx a = (if h \<and> qs = [] then Return True (BEI p c IN_ARRAY (Context x x False) ?a None)
        else Again (BEI p c IN_ARRAY nx ?a None))"
      using 3 f(1) f(4) [of "fieldName x"] f(5) assms(3) more
      by (auto simp: bei_in_array_def Let_def isABSONObj_def h_def [symmetric])
    then show ?thesis unfolding item using assms ok more sp by auto
  qed
qed

lemma in_array_ok:
  assumes "good_path p" "eoo (ec_element nx)" "ais_iterator a = Some xs" "ais_ok ps a"
  shows "act_ok (bei_in_array p c nx a) (array_rest (ep_traverseLeafArray p) ps (ais_theArray a) xs)"
proof -
  have more: "hasMore a \<longleftrightarrow> ps \<noteq> []" using assms(4) by (simp add: ais_ok_def)
  show ?thesis
  proof (cases xs)
    case Nil
    with more assms show ?thesis by (cases ps) (simp_all add: bei_in_array_def)
  next
    case (Cons x ys)
    then show ?thesis
      using more assms in_array_item_ok [of p nx a x ys _ _ c]
      by (cases ps) (auto simp: bei_in_array_def Let_def)
  qed
qed

lemma step_ok:
  assumes "bei_inv (BEI p c st nx a None)"
  shows "act_ok (bei_step p c st nx a) (bei_elems (BEI p c st nx a None))"
proof (cases "eoo (ec_element nx)")
  case True
  show ?thesis
  proof (cases st)
    case IN_ARRAY
    with assms obtain xs ps where "ais_iterator a = Some xs" "ais_ok ps a" by auto
    with in_array_ok [of p nx a xs ps c] ais_ok_split [of ps a] True assms IN_ARRAY show ?thesis
      by (simp add: bei_step_def)
  qed (use True assms begin_ok [of p nx c a] in \<open>simp_all add: bei_step_def\<close>)
qed (use assms in \<open>simp add: bei_step_def\<close>)

lemma sub_done_ok:
  assumes "bei_inv (BEI p c st nx a (Some s))"
  shows "act_ok (bei_sub_done p c st nx a)
    (after_sub (ep_traverseLeafArray p) (split_dot (restOfPath a)) (ais_current a)
     @ bei_elems (BEI p c st nx a None))"
proof -
  from assms obtain ps where ok: "ais_ok ps a" and more: "hasMore a" by auto
  then obtain q qs where ps: "ps = q # qs" by (cases ps) (auto simp: ais_ok_def)
  note f = ais_ok_facts [OF ok [unfolded ps]]
  have sp: "split_dot (restOfPath a) = q # qs" using ais_ok_split [OF ok] more ps by simp
  show ?thesis
  proof (cases "isArrayOffsetMatch a (fieldName (ais_current a))")
    case True
    then have q: "isAllDigits q" "fieldName (ais_current a) = q" using f(4) [of "fieldName (ais_current a)"] by auto
    moreover have "q \<noteq> []" using f(3) by (simp add: good_parts_def)
    ultimately have "ais_current a \<noteq> EOO_elem" by (auto simp: fieldName_def)
    with assms have "etype (ais_current a) = Object" by simp
    then have obj: "Obj (ais_current a) = Inr (subelems (snd (ais_current a)))" "\<not> eoo (ais_current a)"
      by (simp_all add: Obj_def isABSONObj_def eoo_def)
    show ?thesis
      using True f(5,6) q obj sp assms ok ps more after_sub_EOO [OF f(3)]
        new_iterator [OF good_parts_tl [OF f(3)], of p "subelems (snd (ais_current a))"]
      by (cases "qs = []") (auto simp: bei_sub_done_def after_sub_def)
  next
    case False
    then have "after_sub (ep_traverseLeafArray p) (split_dot (restOfPath a)) (ais_current a) = []"
      using f(4) [of "fieldName (ais_current a)"] by (auto simp: after_sub_def sp)
    with False step_ok [of p c st nx a] assms show ?thesis
      by (simp add: bei_sub_done_def del: bei_elems.simps)
  qed
qed

lemma bei_more_ok:
  assumes "bei_inv it"
  shows "\<exists>b it'. bei_more it = Inr (b, it') \<and> act_ok (Return b it') (bei_elems it)"
  using assms
proof (induction it rule: bei_more.induct)
  case (1 p c st nx a sub)
  show ?case
  proof (cases sub)
    case None
    with 1 step_ok [of p c st nx a] show ?thesis
      by (cases "bei_step p c st nx a") (auto simp: bei_more.simps simp del: bei_elems.simps bei_inv.simps)
  next
    case (Some s)
    with 1 have "bei_inv s" by simp
    with "1.IH"(2) [OF Some] obtain b s' where s: "bei_more s = Inr (b, s')" "act_ok (Return b s') (bei_elems s)"
      by blast
    show ?thesis
    proof (cases b)
      case True
      obtain e s'' where n: "bei_next s' = (e, s'')" by (cases "bei_next s'")
      with s(2) True have "bei_inv s''" "bei_elems s = e # bei_elems s''" by simp_all
      with Some n "1.prems" have "act_ok (Return True (BEI p c st nx a (Some s'))) (bei_elems (BEI p c st nx a sub))"
        by simp
      moreover have "bei_more (BEI p c st nx a sub) = Inr (True, BEI p c st nx a (Some s'))"
        using s(1) True Some by (simp add: bei_more.simps)
      ultimately show ?thesis by blast
    next
      case False
      then have "bei_elems s = []" using s(2) by simp
      then have e: "bei_elems (BEI p c st nx a sub) =
          after_sub (ep_traverseLeafArray p) (split_dot (restOfPath a)) (ais_current a)
          @ bei_elems (BEI p c st nx a None)" using Some by simp
      have more: "bei_more (BEI p c st nx a sub) = (case bei_sub_done p c st nx a of
          Return b it \<Rightarrow> Inr (b, it) | Again it \<Rightarrow> bei_more it | Throw err \<Rightarrow> Inl err)"
        using Some s False by (simp add: bei_more.simps)
      show ?thesis
        using sub_done_ok [of p c st nx a s] "1.prems" "1.IH"(3) [OF Some s(1) refl] Some False
        unfolding e more by (cases "bei_sub_done p c st nx a") (auto simp del: bei_elems.simps bei_inv.simps)
    qed
  qed
qed

lemma bei_run_ok: "bei_inv it \<Longrightarrow> bei_run it = (bei_elems it, None)"
proof (induction it rule: bei_run.induct)
  case (1 it)
  from bei_more_ok [OF "1.prems"] obtain b it' where
    m: "bei_more it = Inr (b, it')" "act_ok (Return b it') (bei_elems it)" by blast
  obtain e it'' where n: "bei_next it' = (e, it'')" by (cases "bei_next it'")
  show ?case
  proof (cases b)
    case True
    with m(2) n have "bei_inv it''" "bei_elems it = e # bei_elems it''" by simp_all
    with "1.IH" [OF m(1) refl] True n have "bei_run it'' = (bei_elems it'', None)" by simp
    with m(1) True n \<open>bei_elems it = e # bei_elems it''\<close> show ?thesis by (simp add: bei_run.simps [of it])
  qed (use m in \<open>simp add: bei_run.simps [of it]\<close>)
qed

lemma bei_run_good:
  assumes "good_parts (split_dot path)"
  shows "bei_run (BSONElementIterator ((ElementPath_init path)\<lparr>ep_traverseLeafArray := leaf\<rparr>) doc)
    = (path_elems leaf (split_dot path) doc, None)"
proof -
  let ?p = "(ElementPath_init path)\<lparr>ep_traverseLeafArray := leaf\<rparr>"
  have "path \<noteq> []" using assms by (auto simp: good_parts_def)
  then have "good_path ?p" "ep_parts ?p = split_dot path"
    using assms by (simp_all add: ElementPath_init_def good_path_def ep_parts_def FieldRef_of_wf FieldRef_of_parts)
  then show ?thesis by (simp add: bei_run_ok BSONElementIterator_def)
qed

text \<open>
  C29.  Driven to its end, the path iterator terminates, throws nothing and yields, in order, exactly
  the elements of the recursive enumeration, for every dotted path without empty parts and every
  document: values reached through documents, array members, members addressed by position and, at
  the end of an array, the array itself.
\<close>

theorem bei_run_path_elems:
  assumes "good_parts (split_dot path)"
  shows "bei_run (BSONElementIterator ((ElementPath_init path)\<lparr>ep_traverseLeafArray := leaf\<rparr>) doc)
    = (path_elems leaf (split_dot path) doc, None)"
  using assms by (rule bei_run_good)

lemma bei_run_path_elems_witness:
  "bei_run (BSONElementIterator ((ElementPath_init ''a.0.b'')\<lparr>ep_traverseLeafArray := True\<rparr>)
     [(''a'', BArray [(''0'', BObject [(''b'', BNumberInt 7)])])])
   = (path_elems True (split_dot ''a.0.b'') [(''a'', BArray [(''0'', BObject [(''b'', BNumberInt 7)])])], None)"
  by (rule bei_run_path_elems) (simp add: good_parts_def)

text \<open>
  A document hands out one iterator of its own again and again; \<open>reset\<close> leaves the array
  position and parts of the pending result of the previous walk in place.
\<close>

definition bei_reset :: "bei \<Rightarrow> element_path \<Rightarrow> bobj \<Rightarrow> bei" where
  "bei_reset it p c = BEI p c BEGIN
     (Context EOO_elem (ec_arrayOffset (b_next it)) (ec_outerArray (b_next it))) (b_ais it) None"

text \<open>
  Reusing an iterator that was left in any state is the same as allocating a new one: the
  leftovers of the previous walk do not show.
\<close>

theorem bei_reset_fresh:
  assumes "good_parts (split_dot path)"
  shows "bei_run (bei_reset it ((ElementPath_init path)\<lparr>ep_traverseLeafArray := leaf\<rparr>) doc)
    = bei_run (BSONElementIterator ((ElementPath_init path)\<lparr>ep_traverseLeafArray := leaf\<rparr>) doc)"
proof -
  have "path \<noteq> []" using assms by (auto simp: good_parts_def)
  then have "good_path ((ElementPath_init path)\<lparr>ep_traverseLeafArray := leaf\<rparr>)"
    using assms by (simp add: ElementPath_init_def good_path_def ep_parts_def FieldRef_of_wf FieldRef_of_parts)
  then show ?thesis by (simp add: bei_run_ok BSONElementIterator_def bei_reset_def)
qed

lemma bei_reset_fresh_witness:
  "bei_run (bei_reset (BSONElementIterator (ElementPath_init ''x'') [])
      ((ElementPath_init ''a.b'')\<lparr>ep_traverseLeafArray := True\<rparr>) [(''a'', BNull)])
   = bei_run (BSONElementIterator ((ElementPath_init ''a.b'')\<lparr>ep_traverseLeafArray := True\<rparr>) [(''a'', BNull)])"
  by (rule bei_reset_fresh) (simp add: good_parts_def)

end
