(* ===== verification/MatchExpr.thy ===== *)
theory MatchExpr
  imports Path
begin

text \<open>
  Match expressions and their evaluation: \<open>expression.h\<close>, \<open>expression_leaf.cpp\<close>,
  \<open>expression_array.cpp\<close>, \<open>expression_tree.cpp\<close>, \<open>match_details.cpp\<close> and
  \<open>matchable.h\<close> under \<open>src/src/mongo/db/matcher/\<close>.  The class hierarchy is one datatype.
  A compiled regular expression is a function on strings, supplied by the regular expression
  library; \<open>$where\<close>, geometric and text nodes carry what they decide as functions.
\<close>

section \<open>Match details\<close>

record match_details =
  md_loadedRecord :: bool
  md_elemMatchKeyRequested :: bool
  md_elemMatchKey :: "string option"

definition md_resetOutput :: "match_details \<Rightarrow> match_details" where
  "md_resetOutput d = d\<lparr>md_loadedRecord := False, md_elemMatchKey := None\<rparr>"

definition md_init :: match_details where
  "md_init = \<lparr>md_loadedRecord = False, md_elemMatchKeyRequested = False, md_elemMatchKey = None\<rparr>"

definition requestElemMatchKey :: "match_details \<Rightarrow> match_details" where
  "requestElemMatchKey d = d\<lparr>md_elemMatchKeyRequested := True\<rparr>"

definition setElemMatchKey :: "string \<Rightarrow> match_details \<Rightarrow> match_details" where
  "setElemMatchKey key d =
     (if md_elemMatchKeyRequested d then d\<lparr>md_elemMatchKey := Some key\<rparr> else d)"

definition hasElemMatchKey :: "match_details \<Rightarrow> bool" where
  "hasElemMatchKey d \<longleftrightarrow> md_elemMatchKey d \<noteq> None"

definition needRecord :: "match_details \<Rightarrow> bool" where
  "needRecord d \<longleftrightarrow> md_elemMatchKeyRequested d"

text \<open>\<open>if ( details && details->needRecord() && ok ) details->setElemMatchKey( key )\<close>\<close>

definition record_key :: "bool \<Rightarrow> string \<Rightarrow> match_details option \<Rightarrow> match_details option" where
  "record_key ok key details =
     map_option (\<lambda>d. if needRecord d \<and> ok then setElemMatchKey key d else d) details"

section \<open>Expressions\<close>

datatype cmp_type = LT | LTE | EQ | GT | GTE

datatype other_type = GEO | WHERE | GEO_NEAR | TEXT

type_synonym regex = "string \<times> string \<times> (string \<Rightarrow> bool)"

record array_filter_entries =
  afe_hasNull :: bool
  afe_hasEmptyArray :: bool
  afe_equalities :: "belem list"
  afe_regexes :: "regex list"

datatype mexpr =
    AndMatch "mexpr list"
  | OrMatch "mexpr list"
  | NorMatch "mexpr list"
  | NotMatch mexpr
  | AllElemMatch string "mexpr list"
  | ElemMatchObject string mexpr
  | ElemMatchValue string "mexpr list"
  | SizeMatch string i32
  | ComparisonMatch cmp_type string belem
  | RegexMatch string regex
  | ModMatch string i32 i32
  | ExistsMatch string
  | InMatch string array_filter_entries
  | TypeMatch string i32
  | OtherMatch other_type "bobj \<Rightarrow> bool result" "belem \<Rightarrow> bool result"
  | AtomicMatch
  | FalseMatch

section \<open>Single elements\<close>

definition comparison_matches :: "cmp_type \<Rightarrow> belem \<Rightarrow> belem \<Rightarrow> bool result" where
  "comparison_matches mt rhs e =
     (if canonicalType e \<noteq> canonicalType rhs then
        if canonicalType e + canonicalType rhs = 5 then Inr (mt = EQ \<or> mt = LTE \<or> mt = GTE)
        else if etype rhs = MaxKey \<or> etype rhs = MinKey then Inr (mt \<noteq> EQ)
        else Inr False
      else rbind (compareElementValues e rhs) (\<lambda>x. Inr (case mt of
          LT \<Rightarrow> x < 0 | LTE \<Rightarrow> x \<le> 0 | EQ \<Rightarrow> x = 0 | GT \<Rightarrow> x > 0 | GTE \<Rightarrow> x \<ge> 0)))"

definition regex_matches :: "regex \<Rightarrow> belem \<Rightarrow> bool" where
  "regex_matches r e = (case r of (regex, flags, re) \<Rightarrow>
     (case snd e of
        BString s \<Rightarrow> re (c_str s)
      | BSymbol s \<Rightarrow> re (c_str s)
      | BRegEx s f \<Rightarrow> regex = c_str s \<and> flags = c_str f
      | _ \<Rightarrow> False))"

text \<open>
  The remainder of C++ takes the sign of the dividend.  Dividing the smallest 64-bit integer by
  -1 overflows and the division instruction traps.
\<close>

definition c_rem :: "int \<Rightarrow> int \<Rightarrow> int" where
  "c_rem a b = sgn a * (\<bar>a\<bar> mod \<bar>b\<bar>)"

definition mod_matches :: "i32 \<Rightarrow> i32 \<Rightarrow> belem \<Rightarrow> bool result" where
  "mod_matches divisor remainder e =
     (if \<not> isNumber e then Inr False
      else let x = sint (numberLong e) in
        if x = - (2 ^ 63) \<and> sint divisor = -1 then Inl (VerifyFailed ''integer division overflow'')
        else Inr (c_rem x (sint divisor) = sint remainder))"

definition type_matches :: "i32 \<Rightarrow> belem \<Rightarrow> bool" where
  "type_matches t e \<longleftrightarrow> btype_code (etype e) = sint t"

definition matchesRealElement :: "array_filter_entries \<Rightarrow> belem \<Rightarrow> bool result" where
  "matchesRealElement entries e =
     rbind (elset_count e (afe_equalities entries)) (\<lambda>b.
       Inr (b \<or> list_ex (\<lambda>r. regex_matches r e) (afe_regexes entries)))"

definition in_matches :: "array_filter_entries \<Rightarrow> belem \<Rightarrow> bool result" where
  "in_matches entries e =
     (if afe_hasNull entries \<and> eoo e then Inr True else matchesRealElement entries e)"

section \<open>Documents\<close>

type_synonym mres = "(bool \<times> match_details option) result"

text \<open>A loop over the elements of a path: the elements, then the exception the iterator ends with.\<close>

definition path_run :: "bool \<Rightarrow> string \<Rightarrow> bobj \<Rightarrow> ectx list \<times> merror option" where
  "path_run leafArrays path doc =
     bei_run (BSONElementIterator ((ElementPath_init path)\<lparr>ep_traverseLeafArray := leafArrays\<rparr>) doc)"

fun path_loop :: "(ectx \<Rightarrow> mres) \<Rightarrow> ectx list \<Rightarrow> merror option \<Rightarrow> match_details option \<Rightarrow> mres" where
  "path_loop body [] err details = (case err of None \<Rightarrow> Inr (False, details) | Some x \<Rightarrow> Inl x)"
| "path_loop body (c # cs) err details =
     rbind (body c) (\<lambda>(b, details'). if b then Inr (True, details') else path_loop body cs err details)"

definition leaf_matches ::
  "bool \<Rightarrow> (belem \<Rightarrow> bool result) \<Rightarrow> string \<Rightarrow> bobj \<Rightarrow> match_details option \<Rightarrow> mres" where
  "leaf_matches skipOuter single path doc details =
     (let (cs, err) = path_run True path doc in
      path_loop (\<lambda>c.
        if skipOuter \<and> ec_outerArray c then Inr (False, details)
        else rbind (single (ec_element c)) (\<lambda>b.
          Inr (b, if b then record_key (\<not> eoo (ec_arrayOffset c)) (fieldName (ec_arrayOffset c)) details
                  else details))) cs err details)"

definition array_matches ::
  "(bobj \<Rightarrow> match_details option \<Rightarrow> mres) \<Rightarrow> string \<Rightarrow> bobj \<Rightarrow> match_details option \<Rightarrow> mres" where
  "array_matches matchesArr path doc details =
     (let (cs, err) = path_run False path doc in
      path_loop (\<lambda>c.
        if etype (ec_element c) \<noteq> Array then Inr (False, details)
        else let amIRoot = eoo (ec_arrayOffset c) in
          rbind (matchesArr (subelems (snd (ec_element c))) (if amIRoot then details else None))
            (\<lambda>(b, details').
              if \<not> b then Inr (False, details)
              else if amIRoot then Inr (True, details')
              else Inr (True, record_key True (fieldName (ec_arrayOffset c)) details)))
        cs err details)"

text \<open>The first member of an array that satisfies a predicate is recorded.\<close>

fun elem_loop :: "(belem \<Rightarrow> bool result) \<Rightarrow> bobj \<Rightarrow> match_details option \<Rightarrow> mres" where
  "elem_loop body [] details = Inr (False, details)"
| "elem_loop body (x # xs) details =
     rbind (body x) (\<lambda>b. if b then Inr (True, record_key True (fieldName x) details)
                          else elem_loop body xs details)"

fun all_of :: "(unit \<Rightarrow> bool result) list \<Rightarrow> bool result" where
  "all_of [] = Inr True"
| "all_of (f # fs) = rbind (f ()) (\<lambda>b. if b then all_of fs else Inr False)"

fun any_of :: "(unit \<Rightarrow> bool result) list \<Rightarrow> bool result" where
  "any_of [] = Inr False"
| "any_of (f # fs) = rbind (f ()) (\<lambda>b. if b then Inr True else any_of fs)"

fun and_loop :: "(match_details option \<Rightarrow> mres) list \<Rightarrow> match_details option \<Rightarrow> mres" where
  "and_loop [] details = Inr (True, details)"
| "and_loop (f # fs) details =
     rbind (f details) (\<lambda>(b, details').
       if \<not> b then Inr (False, map_option md_resetOutput details') else and_loop fs details')"

function (sequential) matches :: "mexpr \<Rightarrow> bobj \<Rightarrow> match_details option \<Rightarrow> mres"
  and matchesSingleElement :: "mexpr \<Rightarrow> belem \<Rightarrow> bool result"
  and matchesArray :: "mexpr \<Rightarrow> bobj \<Rightarrow> match_details option \<Rightarrow> mres" where
  "matches (AndMatch es) doc details = and_loop (map (\<lambda>e. matches e doc) es) details"
| "matches (OrMatch es) doc details =
     rbind (any_of (map (\<lambda>e u. rbind (matches e doc None) (\<lambda>(b, _). Inr b)) es)) (\<lambda>b. Inr (b, details))"
| "matches (NorMatch es) doc details =
     rbind (any_of (map (\<lambda>e u. rbind (matches e doc None) (\<lambda>(b, _). Inr b)) es)) (\<lambda>b. Inr (\<not> b, details))"
| "matches (NotMatch e) doc details = rbind (matches e doc None) (\<lambda>(b, _). Inr (\<not> b, details))"
| "matches (AllElemMatch path es) doc details =
     (let (cs, err) = path_run False path doc in
      path_loop (\<lambda>c.
        if etype (ec_element c) \<noteq> Array then Inr (False, details)
        else rbind (matchesSingleElement (AllElemMatch path es) (ec_element c)) (\<lambda>b. Inr (b, details)))
        cs err details)"
| "matches (ElemMatchObject path e) doc details =
     array_matches (matchesArray (ElemMatchObject path e)) path doc details"
| "matches (ElemMatchValue path es) doc details =
     array_matches (matchesArray (ElemMatchValue path es)) path doc details"
| "matches (SizeMatch path n) doc details =
     array_matches (matchesArray (SizeMatch path n)) path doc details"
| "matches (ComparisonMatch mt path rhs) doc details =
     leaf_matches False (comparison_matches mt rhs) path doc details"
| "matches (RegexMatch path r) doc details =
     leaf_matches False (\<lambda>e. Inr (regex_matches r e)) path doc details"
| "matches (ModMatch path d r) doc details = leaf_matches False (mod_matches d r) path doc details"
| "matches (ExistsMatch path) doc details = leaf_matches False (\<lambda>e. Inr (\<not> eoo e)) path doc details"
| "matches (InMatch path entries) doc details = leaf_matches False (in_matches entries) path doc details"
| "matches (TypeMatch path t) doc details =
     leaf_matches (sint t = btype_code Array) (\<lambda>e. Inr (type_matches t e)) path doc details"
| "matches (OtherMatch t f g) doc details = rbind (f doc) (\<lambda>b. Inr (b, details))"
| "matches AtomicMatch doc details = Inr (True, details)"
| "matches FalseMatch doc details = Inr (False, details)"
| "matchesSingleElement (AndMatch es) e = all_of (map (\<lambda>x u. matchesSingleElement x e) es)"
| "matchesSingleElement (OrMatch es) e = any_of (map (\<lambda>x u. matchesSingleElement x e) es)"
| "matchesSingleElement (NorMatch es) e =
     rbind (any_of (map (\<lambda>x u. matchesSingleElement x e) es)) (\<lambda>b. Inr (\<not> b))"
| "matchesSingleElement (NotMatch x) e = rbind (matchesSingleElement x e) (\<lambda>b. Inr (\<not> b))"
| "matchesSingleElement (AllElemMatch path es) e =
     (if etype e \<noteq> Array then Inr False
      else if es = [] then Inr False
      else all_of (map (\<lambda>x u. rbind (matchesArray x (subelems (snd e)) None) (\<lambda>(b, _). Inr b)) es))"
| "matchesSingleElement (ElemMatchObject path x) e =
     (if etype e \<noteq> Array then Inr False
      else rbind (matchesArray (ElemMatchObject path x) (subelems (snd e)) None) (\<lambda>(b, _). Inr b))"
| "matchesSingleElement (ElemMatchValue path xs) e =
     (if etype e \<noteq> Array then Inr False
      else rbind (matchesArray (ElemMatchValue path xs) (subelems (snd e)) None) (\<lambda>(b, _). Inr b))"
| "matchesSingleElement (SizeMatch path n) e =
     (if etype e \<noteq> Array then Inr False
      else rbind (matchesArray (SizeMatch path n) (subelems (snd e)) None) (\<lambda>(b, _). Inr b))"
| "matchesSingleElement (ComparisonMatch mt path rhs) e = comparison_matches mt rhs e"
| "matchesSingleElement (RegexMatch path r) e = Inr (regex_matches r e)"
| "matchesSingleElement (ModMatch path d r) e = mod_matches d r e"
| "matchesSingleElement (ExistsMatch path) e = Inr (\<not> eoo e)"
| "matchesSingleElement (InMatch path entries) e = in_matches entries e"
| "matchesSingleElement (TypeMatch path t) e = Inr (type_matches t e)"
| "matchesSingleElement (OtherMatch t f g) e = g e"
| "matchesSingleElement AtomicMatch e = Inr True"
| "matchesSingleElement FalseMatch e = Inr False"
| "matchesArray (ElemMatchObject path x) anArray details =
     elem_loop (\<lambda>inner. if \<not> isABSONObj inner then Inr False
        else rbind (matches x (subelems (snd inner)) None) (\<lambda>(b, _). Inr b)) anArray details"
| "matchesArray (ElemMatchValue path xs) anArray details =
     elem_loop (\<lambda>inner. all_of (map (\<lambda>x u. matchesSingleElement x inner) xs)) anArray details"
| "matchesArray (SizeMatch path n) anArray details =
     Inr (\<not> sint n < 0 \<and> int (nFields anArray) = sint n, details)"
| "matchesArray _ anArray details = Inl (VerifyFailed ''not an array expression'')"
  by pat_completeness auto
termination
  by (relation "measure (\<lambda>p. case p of Inl (e, _) \<Rightarrow> 3 * size e + 2
        | Inr (Inl (e, _)) \<Rightarrow> 3 * size e + 1 | Inr (Inr (e, _)) \<Rightarrow> 3 * size e)")
     (auto dest: size_list_estimation' [where f = size, OF _ order_refl])

end
