(* ===== verification/MatchParser.thy ===== *)
theory MatchParser
  imports MatchExpr
begin

text \<open>
  Parsing query documents into match expressions: \<open>expression_parser.cpp\<close>,
  \<open>expression_parser_tree.cpp\<close>, the \<open>init\<close> methods of the expression classes and
  \<open>matcher.cpp\<close> under \<open>src/src/mongo/db/matcher/\<close>.  \<open>parse_env\<close> holds what the parser calls without
  knowing it: the regular expression library, and the three global function pointers
  \<open>expressionParserGeoCallback\<close>, \<open>expressionParserWhereCallback\<close> and \<open>expressionParserTextCallback\<close>.  The parser
  calls whatever they point to; they start as the functions below that refuse, and a program that links
  geometry, the JavaScript engine or text search in sets them.
\<close>

section \<open>Outcomes and parameters\<close>

text \<open>A parse returns a bad status or lets an exception of a comparison through.\<close>

datatype perr = BadValue string | Threw merror

definition plift :: "'a result \<Rightarrow> perr + 'a" where
  "plift r = (case r of Inl e \<Rightarrow> Inl (Threw e) | Inr x \<Rightarrow> Inr x)"

record re_options =
  re_utf8 :: bool
  re_caseless :: bool
  re_multiline :: bool
  re_extended :: bool
  re_dotall :: bool

record parse_env =
  pe_regex :: "string \<Rightarrow> re_options \<Rightarrow> string \<Rightarrow> bool"
  pe_geo :: "string \<Rightarrow> int \<Rightarrow> bobj \<Rightarrow> perr + mexpr"
  pe_where :: "belem \<Rightarrow> perr + mexpr"
  pe_text :: "bobj \<Rightarrow> perr + mexpr"
  pe_toString :: "bobj \<Rightarrow> string"

definition expressionParserGeoCallbackDefault :: "string \<Rightarrow> int \<Rightarrow> bobj \<Rightarrow> perr + mexpr" where
  "expressionParserGeoCallbackDefault name typ section = Inl (BadValue ''geo not linked in'')"

definition expressionParserWhereCallbackDefault :: "belem \<Rightarrow> perr + mexpr" where
  "expressionParserWhereCallbackDefault e = Inl (BadValue ''$where not linked in'')"

definition expressionParserTextCallbackDefault :: "bobj \<Rightarrow> perr + mexpr" where
  "expressionParserTextCallbackDefault queryObj = Inl (BadValue ''$text not linked in'')"

definition kMaximumTreeDepth :: int where
  "kMaximumTreeDepth = 100"

section \<open>Operator names\<close>

abbreviation (input) "opEquality \<equiv> 0 :: int"
abbreviation (input) "opLT \<equiv> 0x1 :: int"
abbreviation (input) "opLTE \<equiv> 0x3 :: int"
abbreviation (input) "opGTE \<equiv> 0x6 :: int"
abbreviation (input) "opGT \<equiv> 0x4 :: int"
abbreviation (input) "opIN \<equiv> 0x8 :: int"
abbreviation (input) "opNE \<equiv> 0x9 :: int"
abbreviation (input) "opSIZE \<equiv> 0xA :: int"
abbreviation (input) "opALL \<equiv> 0xB :: int"
abbreviation (input) "opNIN \<equiv> 0xC :: int"
abbreviation (input) "opEXISTS \<equiv> 0xD :: int"
abbreviation (input) "opMOD \<equiv> 0xE :: int"
abbreviation (input) "opTYPE \<equiv> 0xF :: int"
abbreviation (input) "opREGEX \<equiv> 0x10 :: int"
abbreviation (input) "opOPTIONS \<equiv> 0x11 :: int"
abbreviation (input) "opELEM_MATCH \<equiv> 0x12 :: int"
abbreviation (input) "opNEAR \<equiv> 0x13 :: int"
abbreviation (input) "opWITHIN \<equiv> 0x14 :: int"
abbreviation (input) "opMAX_DISTANCE \<equiv> 0x15 :: int"
abbreviation (input) "opGEO_INTERSECTS \<equiv> 0x16 :: int"

definition getGtLtOp :: "int \<Rightarrow> belem \<Rightarrow> int" where
  "getGtLtOp def e =
     (let fn = fieldName e in
      if fn = ''$gt'' then opGT
      else if fn = ''$gte'' then opGTE
      else if fn = ''$lt'' then opLT
      else if fn = ''$lte'' then opLTE
      else if fn = ''$ne'' then opNE
      else if take 5 fn = ''$near'' then opNEAR
      else if fn = ''$mod'' then opMOD
      else if fn = ''$maxDistance'' then opMAX_DISTANCE
      else if fn = ''$type'' then opTYPE
      else if fn = ''$in'' then opIN
      else if fn = ''$nin'' then opNIN
      else if fn = ''$all'' then opALL
      else if fn = ''$size'' then opSIZE
      else if fn = ''$exists'' then opEXISTS
      else if fn = ''$elemMatch'' then opELEM_MATCH
      else if fn = ''$regex'' then opREGEX
      else if fn = ''$options'' then opOPTIONS
      else if fn = ''$within'' then opWITHIN
      else if fn = ''$geoIntersects'' then opGEO_INTERSECTS
      else if fn = ''$geoNear'' then opNEAR
      else if fn = ''$geoWithin'' then opWITHIN
      else def)"

definition starts_dollar :: "string \<Rightarrow> bool" where
  "starts_dollar s \<longleftrightarrow> s \<noteq> [] \<and> hd s = CHR ''$''"

section \<open>Initialising leaves\<close>

fun flags2options_loop :: "string \<Rightarrow> re_options \<Rightarrow> re_options" where
  "flags2options_loop [] options = options"
| "flags2options_loop (c # cs) options = flags2options_loop cs
     (if c = CHR ''i'' then options\<lparr>re_caseless := True\<rparr>
      else if c = CHR ''m'' then options\<lparr>re_multiline := True\<rparr>
      else if c = CHR ''x'' then options\<lparr>re_extended := True\<rparr>
      else if c = CHR ''s'' then options\<lparr>re_dotall := True\<rparr>
      else options)"

definition flags2options :: "string \<Rightarrow> re_options" where
  "flags2options flags = flags2options_loop (c_str flags)
     \<lparr>re_utf8 = True, re_caseless = False, re_multiline = False, re_extended = False, re_dotall = False\<rparr>"

definition comparison_init :: "cmp_type \<Rightarrow> string \<Rightarrow> belem \<Rightarrow> perr + mexpr" where
  "comparison_init mt path rhs =
     (if eoo rhs then Inl (BadValue ''need a real operand'')
      else if etype rhs = Undefined then Inl (BadValue ''cannot compare to undefined'')
      else Inr (ComparisonMatch mt path rhs))"

definition MaxPatternSize :: nat where
  "MaxPatternSize = 32764"

definition regex_init :: "parse_env \<Rightarrow> string \<Rightarrow> string \<Rightarrow> perr + regex" where
  "regex_init env rx options =
     (if length rx > MaxPatternSize then Inl (BadValue ''Regular expression is too long'')
      else Inr (rx, options, pe_regex env (c_str rx) (flags2options options)))"

definition regex_init_elem :: "parse_env \<Rightarrow> belem \<Rightarrow> perr + regex" where
  "regex_init_elem env e = (case snd e of
     BRegEx s f \<Rightarrow> regex_init env (c_str s) (c_str f)
   | _ \<Rightarrow> Inl (BadValue ''regex not a regex''))"

definition mod_init :: "string \<Rightarrow> i32 \<Rightarrow> i32 \<Rightarrow> perr + mexpr" where
  "mod_init path divisor remainder =
     (if divisor = 0 then Inl (BadValue ''divisor cannot be 0'')
      else Inr (ModMatch path divisor remainder))"

definition afe_init :: array_filter_entries where
  "afe_init = \<lparr>afe_hasNull = False, afe_hasEmptyArray = False, afe_equalities = [], afe_regexes = []\<rparr>"

definition addEquality :: "belem \<Rightarrow> array_filter_entries \<Rightarrow> perr + array_filter_entries" where
  "addEquality e entries =
     (if etype e = RegEx then Inl (BadValue ''ArrayFilterEntries equality cannot be a regex'')
      else if etype e = Undefined then Inl (BadValue ''ArrayFilterEntries equality cannot be undefined'')
      else let en = (if etype e = jstNULL then entries\<lparr>afe_hasNull := True\<rparr> else entries);
               en' = (if etype e = Array \<and> subelems (snd e) = [] then en\<lparr>afe_hasEmptyArray := True\<rparr> else en)
           in rbind (plift (elset_insert e (afe_equalities en'))) (\<lambda>s. Inr (en'\<lparr>afe_equalities := s\<rparr>)))"

definition addRegex :: "regex \<Rightarrow> array_filter_entries \<Rightarrow> array_filter_entries" where
  "addRegex r entries = entries\<lparr>afe_regexes := afe_regexes entries @ [r]\<rparr>"

section \<open>Parsing\<close>

text \<open>\<open>(hasRef, hasID, hasDB)\<close> over the fields, stopping once \<open>$ref\<close> and \<open>$id\<close> were seen.\<close>

fun dbref_scan :: "bobj \<Rightarrow> bool \<times> bool \<times> bool \<Rightarrow> bool \<times> bool \<times> bool" where
  "dbref_scan [] s = s"
| "dbref_scan (e # es) (r, i, d) =
     (if r \<and> i then (r, i, d)
      else dbref_scan es
        (if \<not> r \<and> fieldName e = ''$ref'' then (True, i, d)
         else if \<not> i \<and> fieldName e = ''$id'' then (r, True, d)
         else if \<not> d \<and> fieldName e = ''$db'' then (r, i, True)
         else (r, i, d)))"

definition isDBRefDocument :: "bobj \<Rightarrow> bool \<Rightarrow> bool" where
  "isDBRefDocument obj allowIncompleteDBRef =
     (let (hasRef, hasID, hasDB) = dbref_scan obj (False, False, False)
      in if allowIncompleteDBRef then hasRef \<or> hasID \<or> hasDB else hasRef \<and> hasID)"

definition isExpressionDocument :: "belem \<Rightarrow> bool \<Rightarrow> bool" where
  "isExpressionDocument e allowIncompleteDBRef =
     (if etype e \<noteq> Object then False
      else let ob = subelems (snd e) in
        if ob = [] then False
        else if \<not> starts_dollar (fieldName (firstElement ob)) then False
        else if isDBRefDocument ob allowIncompleteDBRef then False
        else True)"

definition parseComparison :: "string \<Rightarrow> cmp_type \<Rightarrow> belem \<Rightarrow> perr + mexpr" where
  "parseComparison name mt e =
     (if mt \<noteq> EQ \<and> etype e = RegEx then
        Inl (BadValue (''Can't have RegEx as arg to predicate over field '' @ [CHR 0x27] @ name
          @ [CHR 0x27] @ ''.''))
      else comparison_init mt name e)"

definition parseMOD :: "string \<Rightarrow> belem \<Rightarrow> perr + mexpr" where
  "parseMOD name e =
     (if etype e \<noteq> Array then Inl (BadValue ''malformed mod, needs to be an array'')
      else (case subelems (snd e) of
        [] \<Rightarrow> Inl (BadValue ''malformed mod, not enough elements'')
      | d # i \<Rightarrow>
          if \<not> isNumber d then Inl (BadValue ''malformed mod, divisor not a number'')
          else (case i of
            [] \<Rightarrow> Inl (BadValue ''malformed mod, not enough elements'')
          | r # i' \<Rightarrow>
              if \<not> isNumber d then Inl (BadValue ''malformed mod, remainder not a number'')
              else if i' \<noteq> [] then Inl (BadValue ''malformed mod, too many elements'')
              else mod_init name (numberInt d) (numberInt r))))"

definition parseRegexElement :: "parse_env \<Rightarrow> string \<Rightarrow> belem \<Rightarrow> perr + mexpr" where
  "parseRegexElement env name e = (case snd e of
     BRegEx s f \<Rightarrow> rbind (regex_init env (c_str s) (c_str f)) (\<lambda>r. Inr (RegexMatch name r))
   | _ \<Rightarrow> Inl (BadValue ''not a regex''))"

fun regexDocument_loop :: "bobj \<Rightarrow> string \<times> string \<Rightarrow> perr + (string \<times> string)" where
  "regexDocument_loop [] s = Inr s"
| "regexDocument_loop (e # es) (rx, opts) =
     rbind (if getGtLtOp opEquality e = opREGEX then
              (case snd e of
                 BString s \<Rightarrow> Inr (s, opts)
               | BRegEx s f \<Rightarrow> Inr (c_str s, c_str f)
               | _ \<Rightarrow> Inl (BadValue ''$regex has to be a string''))
            else if getGtLtOp opEquality e = opOPTIONS then
              (case snd e of
                 BString s \<Rightarrow> Inr (rx, s)
               | _ \<Rightarrow> Inl (BadValue ''$options has to be a string''))
            else Inr (rx, opts))
       (regexDocument_loop es)"

definition parseRegexDocument :: "parse_env \<Rightarrow> string \<Rightarrow> bobj \<Rightarrow> perr + mexpr" where
  "parseRegexDocument env name doc =
     rbind (regexDocument_loop doc ('''', '''')) (\<lambda>(rx, opts).
       rbind (regex_init env rx opts) (\<lambda>r. Inr (RegexMatch name r)))"

definition parseArrayFilterEntries :: "parse_env \<Rightarrow> bobj \<Rightarrow> perr + array_filter_entries" where
  "parseArrayFilterEntries env theArray =
     foldr_result (\<lambda>e entries.
       if isExpressionDocument e False then Inl (BadValue ''cannot nest $ under $in'')
       else if etype e = RegEx then
         rbind (regex_init_elem env e) (\<lambda>r. Inr (addRegex r entries))
       else addEquality e entries) theArray afe_init"

definition parseSize :: "string \<Rightarrow> belem \<Rightarrow> perr + mexpr" where
  "parseSize name e =
     rbind (case snd e of
         BString _ \<Rightarrow> Inr 0
       | BNumberInt _ \<Rightarrow> Inr (if sint (numberLong e) < 0 then -1 else numberInt e)
       | BNumberLong _ \<Rightarrow> Inr (if sint (numberLong e) < 0 then -1 else numberInt e)
       | BNumberDouble d \<Rightarrow>
           Inr (if dbl_eq (DFin (of_int (sint (numberInt e)))) d then numberInt e else -1)
       | _ \<Rightarrow> Inl (BadValue ''$size needs a number''))
       (\<lambda>n. Inr (SizeMatch name n))"

definition parseType :: "string \<Rightarrow> belem \<Rightarrow> perr + mexpr" where
  "parseType name e =
     (if \<not> isNumber e then Inl (BadValue ''$type has to be a number'')
      else let t = numberInt e in
        Inr (TypeMatch name
          (if etype e \<noteq> NumberInt \<and> \<not> dbl_eq (DFin (of_int (sint t))) (numberDouble e) then -1 else t)))"

fun is_regex_node :: "mexpr \<Rightarrow> bool" where
  "is_regex_node (RegexMatch _ _) = True"
| "is_regex_node _ = False"

text \<open>\<open>hasNode(root, MatchExpression::WHERE)\<close>, through the children of every node that has them.\<close>

fun hasWhere :: "mexpr \<Rightarrow> bool" where
  "hasWhere (OtherMatch t _ _) = (t = WHERE)"
| "hasWhere (AndMatch es) = list_ex hasWhere es"
| "hasWhere (OrMatch es) = list_ex hasWhere es"
| "hasWhere (NorMatch es) = list_ex hasWhere es"
| "hasWhere (NotMatch e) = hasWhere e"
| "hasWhere (AllElemMatch _ es) = list_ex hasWhere es"
| "hasWhere (ElemMatchObject _ e) = hasWhere e"
| "hasWhere (ElemMatchValue _ es) = list_ex hasWhere es"
| "hasWhere _ = False"

definition depth_error :: "parse_env \<Rightarrow> bobj \<Rightarrow> perr" where
  "depth_error env obj = BadValue (''exceeded maximum query tree depth of ''
     @ int_str kMaximumTreeDepth @ '' at '' @ pe_toString env obj)"

definition geo_peek :: "bobj \<Rightarrow> bool" where
  "geo_peek sub = (case sub of [] \<Rightarrow> False
     | e # _ \<Rightarrow> isABSONObj e \<and> fieldName e \<in>
         {''$near'', ''$nearSphere'', ''$geoNear'', ''$maxDistance'', ''$minDistance''})"

lemma parse_sizes:
  "e \<in> set fs \<Longrightarrow> vsize (snd e) + 3 \<le> osize fs"
  "isABSONObj e \<Longrightarrow> osize (subelems (snd e)) = vsize (snd e)"
  "etype e = Object \<Longrightarrow> osize (subelems (snd e)) = vsize (snd e)"
  "etype e = Array \<Longrightarrow> osize (subelems (snd e)) = vsize (snd e)"
  using esize_mem [of e fs] by (auto simp: esize_def isABSONObj_def etype_def osize_subelems)

lemma vsize_firstElement: "vsize (snd (firstElement fs)) < osize fs"
  by (cases fs) (auto simp: firstElement_def EOO_elem_def)

lemma mem_size: "(n, v) \<in> set fs \<Longrightarrow> vsize v + 3 \<le> osize fs"
  using parse_sizes(1) [of "(n, v)" fs] by simp

lemma exprdoc_size: "isExpressionDocument (n, v) f \<Longrightarrow> osize (subelems v) = vsize v"
  using parse_sizes(3) [of "(n, v)"] by (simp add: isExpressionDocument_def split: if_splits)

lemma nested_size:
  "etype (n, v) = Array \<Longrightarrow> (m, w) \<in> set (subelems v) \<Longrightarrow> etype (m, w) = Object \<Longrightarrow>
   vsize (snd (firstElement (subelems w))) < vsize v"
  using parse_sizes(4) [of "(n, v)"] parse_sizes(3) [of "(m, w)"] vsize_firstElement [of "subelems w"]
    mem_size [of m w "subelems v"] by simp

function parse :: "parse_env \<Rightarrow> bobj \<Rightarrow> int \<Rightarrow> perr + mexpr"
  and parse_elem :: "parse_env \<Rightarrow> bool \<Rightarrow> belem \<Rightarrow> int \<Rightarrow> perr + mexpr list"
  and parseTreeList :: "parse_env \<Rightarrow> bobj \<Rightarrow> int \<Rightarrow> perr + mexpr list"
  and parseSub :: "parse_env \<Rightarrow> string \<Rightarrow> bobj \<Rightarrow> int \<Rightarrow> perr + mexpr list"
  and parseSubField :: "parse_env \<Rightarrow> bobj \<Rightarrow> string \<Rightarrow> belem \<Rightarrow> int \<Rightarrow> perr + mexpr list"
  and parseNot :: "parse_env \<Rightarrow> string \<Rightarrow> belem \<Rightarrow> int \<Rightarrow> perr + mexpr"
  and parseElemMatch :: "parse_env \<Rightarrow> string \<Rightarrow> belem \<Rightarrow> int \<Rightarrow> perr + mexpr"
  and parseAll :: "parse_env \<Rightarrow> string \<Rightarrow> belem \<Rightarrow> int \<Rightarrow> perr + mexpr" where
  "parse env obj level =
     (if level > kMaximumTreeDepth then Inl (depth_error env obj)
      else rbind (foldr_result (\<lambda>e root.
             rbind (parse_elem env (level = 0) e (level + 1)) (\<lambda>xs. Inr (root @ xs))) obj [])
           (\<lambda>root. case root of [x] \<Rightarrow> Inr x | _ \<Rightarrow> Inr (AndMatch root)))"
| "parse_elem env topLevel e level =
     (if starts_dollar (fieldName e) then
        (let rest = tl (fieldName e) in
         if rest = ''or'' then
           if etype e \<noteq> Array then Inl (BadValue ''$or needs an array'')
           else rbind (parseTreeList env (subelems (snd e)) level) (\<lambda>xs. Inr [OrMatch xs])
         else if rest = ''and'' then
           if etype e \<noteq> Array then Inl (BadValue ''and needs an array'')
           else rbind (parseTreeList env (subelems (snd e)) level) (\<lambda>xs. Inr [AndMatch xs])
         else if rest = ''nor'' then
           if etype e \<noteq> Array then Inl (BadValue ''and needs an array'')
           else rbind (parseTreeList env (subelems (snd e)) level) (\<lambda>xs. Inr [NorMatch xs])
         else if rest = ''atomic'' \<or> rest = ''isolated'' then
           if \<not> topLevel then Inl (BadValue ''$atomic/$isolated has to be at the top level'')
           else Inr (if trueValue e then [AtomicMatch] else [])
         else if rest = ''where'' then rbind (pe_where env e) (\<lambda>x. Inr [x])
         else if rest = ''text'' then
           if etype e \<noteq> Object then Inl (BadValue ''$text expects an object'')
           else rbind (pe_text env (subelems (snd e))) (\<lambda>x. Inr [x])
         else if rest = ''comment'' then Inr []
         else if rest = ''ref'' \<or> rest = ''id'' \<or> rest = ''db'' then
           rbind (comparison_init EQ (fieldName e) e) (\<lambda>x. Inr [x])
         else Inl (BadValue (''unknown top level operator: '' @ fieldName e)))
      else if isExpressionDocument e False then
        parseSub env (fieldName e) (subelems (snd e)) level
      else if etype e = RegEx then
        rbind (parseRegexElement env (fieldName e) e) (\<lambda>x. Inr [x])
      else rbind (comparison_init EQ (fieldName e) e) (\<lambda>x. Inr [x]))"
| "parseTreeList env arr level =
     (if arr = [] then Inl (BadValue ''$and/$or/$nor must be a nonempty array'')
      else foldr_result (\<lambda>e out.
        if etype e \<noteq> Object then Inl (BadValue ''$or/$and/$nor entries need to be full objects'')
        else rbind (parse env (subelems (snd e)) level) (\<lambda>x. Inr (out @ [x]))) arr [])"
| "parseSub env name sub level =
     (if level > kMaximumTreeDepth then Inl (depth_error env sub)
      else if geo_peek sub then
        rbind (pe_geo env name (getGtLtOp opEquality (firstElement sub)) sub) (\<lambda>x. Inr [x])
      else foldr_result (\<lambda>deep root.
        rbind (parseSubField env sub name deep (level + 1)) (\<lambda>xs. Inr (root @ xs))) sub [])"
| "parseSubField env ctx name e level =
     (let one = (\<lambda>r. rbind r (\<lambda>x. Inr [x])); x = getGtLtOp (-1) e in
      if fieldName e = ''$eq'' then one (parseComparison name EQ e)
      else if fieldName e = ''$not'' then one (parseNot env name e level)
      else if x = -1 then
        if fieldName e = ''$where'' then Inl (BadValue ''$where cannot be applied to a field'')
        else Inl (BadValue (''unknown operator: '' @ fieldName e))
      else if x = opLT then one (parseComparison name LT e)
      else if x = opLTE then one (parseComparison name LTE e)
      else if x = opGT then one (parseComparison name GT e)
      else if x = opGTE then one (parseComparison name GTE e)
      else if x = opNE then
        if etype e = RegEx then Inl (BadValue ''Can't have regex as arg to $ne.'')
        else rbind (parseComparison name EQ e) (\<lambda>y. Inr [NotMatch y])
      else if x = opEquality then one (parseComparison name EQ e)
      else if x = opIN then
        if etype e \<noteq> Array then Inl (BadValue ''$in needs an array'')
        else rbind (parseArrayFilterEntries env (subelems (snd e))) (\<lambda>en. Inr [InMatch name en])
      else if x = opNIN then
        if etype e \<noteq> Array then Inl (BadValue ''$nin needs an array'')
        else rbind (parseArrayFilterEntries env (subelems (snd e))) (\<lambda>en. Inr [NotMatch (InMatch name en)])
      else if x = opSIZE then one (parseSize name e)
      else if x = opEXISTS then
        if eoo e then Inl (BadValue ''$exists can't be eoo'')
        else Inr [if trueValue e then ExistsMatch name else NotMatch (ExistsMatch name)]
      else if x = opTYPE then one (parseType name e)
      else if x = opMOD then one (parseMOD name e)
      else if x = opOPTIONS then
        if list_ex (\<lambda>t. getGtLtOp (-1) t = opREGEX) ctx then Inr []
        else Inl (BadValue ''$options needs a $regex'')
      else if x = opREGEX then one (parseRegexDocument env name ctx)
      else if x = opELEM_MATCH then one (parseElemMatch env name e level)
      else if x = opALL then one (parseAll env name e level)
      else if x = opWITHIN \<or> x = opGEO_INTERSECTS then one (pe_geo env name x ctx)
      else Inl (BadValue (''not handled: '' @ fieldName e)))"
| "parseNot env name e level =
     (if etype e = RegEx then rbind (parseRegexElement env name e) (\<lambda>x. Inr (NotMatch x))
      else if etype e \<noteq> Object then Inl (BadValue ''$not needs a regex or a document'')
      else if subelems (snd e) = [] then Inl (BadValue ''$not cannot be empty'')
      else rbind (parseSub env name (subelems (snd e)) level) (\<lambda>xs.
        if list_ex is_regex_node xs then Inl (BadValue ''$not cannot have a regex'')
        else Inr (NotMatch (AndMatch xs))))"
| "parseElemMatch env name e level =
     (if etype e \<noteq> Object then Inl (BadValue ''$elemMatch needs an Object'')
      else let obj = subelems (snd e); elt = fieldName (firstElement obj);
               isElemMatchValue = (isExpressionDocument e True \<and>
                 elt \<noteq> ''$and'' \<and> elt \<noteq> ''$nor'' \<and> elt \<noteq> ''$or'' \<and> elt \<noteq> ''$where'')
           in if isElemMatchValue then
                rbind (parseSub env '''' obj level) (\<lambda>xs. Inr (ElemMatchValue name xs))
              else rbind (parse env obj level) (\<lambda>sub.
                if hasWhere sub then Inl (BadValue ''$elemMatch cannot contain $where expression'')
                else Inr (ElemMatchObject name sub)))"
| "parseAll env name e level =
     (if etype e \<noteq> Array then Inl (BadValue ''$all needs an array'')
      else let arr = subelems (snd e) in
        if etype (firstElement arr) = Object \<and>
           fieldName (firstElement (subelems (snd (firstElement arr)))) = ''$elemMatch'' then
          rbind (foldr_result (\<lambda>h out.
              if etype h \<noteq> Object \<or> fieldName (firstElement (subelems (snd h))) \<noteq> ''$elemMatch''
              then Inl (BadValue ''$all/$elemMatch has to be consistent'')
              else rbind (parseElemMatch env '''' (firstElement (subelems (snd h))) level)
                     (\<lambda>x. Inr (out @ [x]))) arr [])
            (\<lambda>xs. Inr (AllElemMatch name xs))
        else
          rbind (foldr_result (\<lambda>x out.
              if etype x = RegEx then rbind (regex_init_elem env x) (\<lambda>r. Inr (out @ [RegexMatch name r]))
              else if etype x = Object \<and> getGtLtOp (-1) (firstElement (subelems (snd x))) \<noteq> -1
              then Inl (BadValue ''no $ expressions in $all'')
              else rbind (comparison_init EQ name x) (\<lambda>y. Inr (out @ [y]))) arr [])
            (\<lambda>xs. Inr (if xs = [] then FalseMatch else AndMatch xs)))"
  by pat_completeness auto
termination
by (relation "measure (\<lambda>p. case p of
     Inl (Inl (Inl (env, obj, level))) \<Rightarrow> 10 * osize obj + 9
   | Inl (Inl (Inr (env, b, e, level))) \<Rightarrow> 10 * vsize (snd e) + 15
   | Inl (Inr (Inl (env, arr, level))) \<Rightarrow> 10 * osize arr + 8
   | Inl (Inr (Inr (env, name, sub, level))) \<Rightarrow> 10 * osize sub + 9
   | Inr (Inl (Inl (env, ctx, name, e, level))) \<Rightarrow> 10 * vsize (snd e) + 20
   | Inr (Inl (Inr (env, name, e, level))) \<Rightarrow> 10 * vsize (snd e) + 19
   | Inr (Inr (Inl (env, name, e, level))) \<Rightarrow> 10 * vsize (snd e) + 18
   | Inr (Inr (Inr (env, name, e, level))) \<Rightarrow> 10 * vsize (snd e) + 19)")
   (auto simp: parse_sizes dest: mem_size exprdoc_size nested_size)

declare parse.simps [simp del] parse_elem.simps [simp del] parseTreeList.simps [simp del]
  parseSub.simps [simp del] parseSubField.simps [simp del] parseNot.simps [simp del]
  parseElemMatch.simps [simp del] parseAll.simps [simp del]

section \<open>Matchers\<close>

text \<open>A matcher keeps the expression its pattern parses to; a bad pattern is an exception.\<close>

definition Matcher2 :: "parse_env \<Rightarrow> bobj \<Rightarrow> mexpr result" where
  "Matcher2 env pattern = (case parse env pattern 0 of
     Inl (BadValue s) \<Rightarrow> Inl (UserException 16810 (''bad query: BadValue '' @ s))
   | Inl (Threw x) \<Rightarrow> Inl x
   | Inr m \<Rightarrow> Inr m)"

definition matcher_matches :: "mexpr \<Rightarrow> bobj \<Rightarrow> match_details option \<Rightarrow> mres" where
  "matcher_matches expression doc details = matches expression doc details"

end
