(* ===== verification/Projection.thy ===== *)
theory Projection
  imports MatchParser "HOL-Library.AList"
begin

text \<open>
  Projections: \<open>src/src/mongo/db/projection.{h,cpp}\<close>.  A projection object holds a tree of
  field maps (the members that nested projections use) and, at the top, the specification, the
  treatment of \<open>_id\<close> and the matchers of \<open>$elemMatch\<close>.
\<close>

section \<open>State\<close>

datatype array_op = ARRAY_OP_NORMAL | ARRAY_OP_ELEM_MATCH | ARRAY_OP_POSITIONAL

datatype fmap = FMap (fm_include: bool) (fm_special: bool) (fm_fields: "(string \<times> fmap) list")
  (fm_skip: i32) (fm_limit: i32)

definition fm_init :: fmap where
  "fm_init = FMap True False [] 0 (-1)"

record projection =
  pj_map :: fmap
  pj_source :: bobj
  pj_includeID :: bool
  pj_matchers :: "(string \<times> mexpr) list"
  pj_arrayOpType :: array_op
  pj_hasNonSimple :: bool

definition Projection_init :: projection where
  "Projection_init = \<lparr>pj_map = fm_init, pj_source = [], pj_includeID = True, pj_matchers = [],
     pj_arrayOpType = ARRAY_OP_NORMAL, pj_hasNonSimple = False\<rparr>"

section \<open>Building the field map\<close>

text \<open>The part of a dotted name before the first dot, and what follows that dot.\<close>

definition subfield :: "string \<Rightarrow> string" where
  "subfield field = takeWhile (\<lambda>c. c \<noteq> CHR ''.'') field"

definition restfield :: "string \<Rightarrow> string" where
  "restfield field = drop (Suc (length (subfield field))) field"

lemma restfield_shorter [simp]: "field \<noteq> [] \<Longrightarrow> length (restfield field) < length field"
  by (simp add: restfield_def)

function fm_add :: "string \<Rightarrow> bool \<Rightarrow> fmap \<Rightarrow> fmap" where
  "fm_add field inc (FMap i s fs sk li) =
     (if field = [] then FMap inc s fs sk li
      else let fm = (case map_of fs (subfield field) of None \<Rightarrow> fm_init | Some m \<Rightarrow> m)
           in FMap (\<not> inc) s (AList.update (subfield field) (fm_add (restfield field) inc fm) fs) sk li)"
  by pat_completeness auto
termination
  by (relation "measure (\<lambda>(field, _). length field)") auto

function fm_add_slice :: "string \<Rightarrow> i32 \<Rightarrow> i32 \<Rightarrow> fmap \<Rightarrow> fmap" where
  "fm_add_slice field skip limit (FMap i s fs sk li) =
     (if field = [] then FMap i True fs skip limit
      else let fm = (case map_of fs (subfield field) of None \<Rightarrow> fm_init | Some m \<Rightarrow> m)
           in FMap i True (AList.update (subfield field) (fm_add_slice (restfield field) skip limit fm) fs)
                sk li)"
  by pat_completeness auto
termination
  by (relation "measure (\<lambda>(field, _). length field)") auto

declare fm_add.simps [simp del] fm_add_slice.simps [simp del]

lemma fm_add_Nil [simp]: "fm_add [] inc (FMap i s fs sk li) = FMap inc s fs sk li"
  by (simp add: fm_add.simps)

definition set_include :: "bool \<Rightarrow> projection \<Rightarrow> projection" where
  "set_include b p = p\<lparr>pj_map := FMap b (fm_special (pj_map p)) (fm_fields (pj_map p))
     (fm_skip (pj_map p)) (fm_limit (pj_map p))\<rparr>"

definition pj_add :: "string \<Rightarrow> bool \<Rightarrow> projection \<Rightarrow> projection" where
  "pj_add field inc p = p\<lparr>pj_map := fm_add field inc (pj_map p)\<rparr>"

definition pj_add_slice :: "string \<Rightarrow> i32 \<Rightarrow> i32 \<Rightarrow> projection \<Rightarrow> projection" where
  "pj_add_slice field skip limit p = p\<lparr>pj_map := fm_add_slice field skip limit (pj_map p)\<rparr>"

section \<open>Parsing a specification\<close>

definition before_dot :: "string \<Rightarrow> string" where
  "before_dot s = takeWhile (\<lambda>c. c \<noteq> CHR ''.'') s"

definition contains_dot_dollar :: "string \<Rightarrow> bool" where
  "contains_dot_dollar s \<longleftrightarrow> sublist ''.$'' s"

definition init_slice :: "belem \<Rightarrow> belem \<Rightarrow> projection \<Rightarrow> projection result" where
  "init_slice e e2 p =
     (if isNumber e2 then
        let i = numberInt e2 in
        Inr (if sint i < 0 then pj_add_slice (fieldName e) i (- i) p
             else pj_add_slice (fieldName e) 0 i p)
      else if etype e2 = Array then
        rbind (uassert 13099 ''$slice array wrong size'' (nFields (subelems (snd e2)) = 2)) (\<lambda>_.
          let skip = numberInt (subelems (snd e2) ! 0); limit = numberInt (subelems (snd e2) ! 1) in
          rbind (uassert 13100 ''$slice limit must be positive'' (0 < sint limit)) (\<lambda>_.
            Inr (pj_add_slice (fieldName e) skip limit p)))
      else Inl (UserException 13098 ''$slice only supports numbers and [skip, limit] arrays''))"

definition init_elemMatch :: "parse_env \<Rightarrow> belem \<Rightarrow> belem \<Rightarrow> projection \<Rightarrow> projection result" where
  "init_elemMatch env e e2 p =
     rbind (uassert 16342 ''elemMatch: invalid argument.  object required.'' (etype e2 = Object)) (\<lambda>_.
     rbind (uassert 16343 ''Cannot specify positional operator and $elemMatch (currently unsupported).''
              (pj_arrayOpType p \<noteq> ARRAY_OP_POSITIONAL)) (\<lambda>_.
     rbind (uassert 16344 ''Cannot use $elemMatch projection on a nested field (currently unsupported).''
              (CHR ''.'' \<notin> set (fieldName e))) (\<lambda>_.
     rbind (Matcher2 env (wrap e)) (\<lambda>m.
       Inr (pj_add (fieldName e) True
         (p\<lparr>pj_arrayOpType := ARRAY_OP_ELEM_MATCH,
            pj_matchers := AList.update (before_dot (fieldName e)) m (pj_matchers p)\<rparr>))))))"

text \<open>The second component is \<open>true_false\<close>: unset, or the value the first plain field had.\<close>

definition init_plain :: "belem \<Rightarrow> projection \<times> bool option \<Rightarrow> (projection \<times> bool option) result" where
  "init_plain e s = (case s of (p, true_false) \<Rightarrow>
     let p' = pj_add (fieldName e) (trueValue e) p in
     (case true_false of
        None \<Rightarrow> Inr (set_include (\<not> trueValue e) p', Some (trueValue e))
      | Some b \<Rightarrow>
          rbind (uassert 10053 ''You cannot currently mix including and excluding fields. Contact us if this is an issue.''
                   (b = trueValue e)) (\<lambda>_. Inr (p', true_false))))"

definition init_positional :: "belem \<Rightarrow> projection \<Rightarrow> projection result" where
  "init_positional e p =
     rbind (uassert 16345 ''Cannot exclude array elements with the positional operator (currently unsupported).''
              (trueValue e)) (\<lambda>_.
     rbind (uassert 16346 ''Cannot specify more than one positional array element per query (currently unsupported).''
              (pj_arrayOpType p \<noteq> ARRAY_OP_POSITIONAL)) (\<lambda>_.
     rbind (uassert 16347 ''Cannot specify positional operator and $elemMatch (currently unsupported).''
              (pj_arrayOpType p \<noteq> ARRAY_OP_ELEM_MATCH)) (\<lambda>_.
       Inr (p\<lparr>pj_arrayOpType := ARRAY_OP_POSITIONAL\<rparr>))))"

definition init_step ::
  "parse_env \<Rightarrow> belem \<Rightarrow> projection \<times> bool option \<Rightarrow> (projection \<times> bool option) result" where
  "init_step env e s = (case s of (p0, true_false) \<Rightarrow>
     let p = (if \<not> isNumber e then p0\<lparr>pj_hasNonSimple := True\<rparr> else p0) in
     rbind (if etype e = Object then
              let e2 = firstElement (subelems (snd e)) in
              if fieldName e2 = ''$slice'' then rbind (init_slice e e2 p) (\<lambda>q. Inr (q, true_false))
              else if fieldName e2 = ''$elemMatch'' then
                rbind (init_elemMatch env e e2 p) (\<lambda>q. Inr (q, true_false))
              else Inl (UserException 13097 (''Unsupported projection option: '' @ fieldName e2))
            else if fieldName e = ''_id'' \<and> \<not> trueValue e then
              Inr (p\<lparr>pj_includeID := False\<rparr>, true_false)
            else init_plain e (p, true_false))
       (\<lambda>(q, tf).
         if contains_dot_dollar (fieldName e) then rbind (init_positional e q) (\<lambda>r. Inr (r, tf))
         else Inr (q, tf)))"

definition pj_init :: "parse_env \<Rightarrow> bobj \<Rightarrow> projection \<Rightarrow> projection result" where
  "pj_init env spec p =
     (if pj_source p \<noteq> [] then Inl (MsgAssertion 10371 ''can only add to Projection once'')
      else rbind (foldr_result (init_step env) spec (p\<lparr>pj_source := spec\<rparr>, None)) (\<lambda>(q, _). Inr q))"

section \<open>Applying a projection\<close>

text \<open>The first loop of \<open>appendArray\<close>: which members of the array are looked at.\<close>

fun slice_members :: "int \<Rightarrow> i32 \<Rightarrow> bobj \<Rightarrow> bobj" where
  "slice_members skip limit [] = []"
| "slice_members skip limit (e # es) =
     (if skip \<noteq> 0 then slice_members (skip - 1) limit es
      else if limit \<noteq> -1 \<and> limit = 0 then []
      else e # slice_members skip (if limit \<noteq> -1 then limit - 1 else limit) es)"

lemma set_slice_members: "x \<in> set (slice_members skip limit a) \<Longrightarrow> x \<in> set a"
  by (induction skip limit a rule: slice_members.induct) (auto split: if_splits)

definition array_slice :: "fmap \<Rightarrow> bobj \<Rightarrow> bool \<Rightarrow> bobj" where
  "array_slice fm a nested =
     (let skip = (if nested then 0 else sint (fm_skip fm)); limit = (if nested then -1 else fm_limit fm)
      in slice_members (if skip < 0 then max 0 (skip + int (nFields a)) else skip) limit a)"

lemma array_slice_size: "(n, v) \<in> set (array_slice fm a nested) \<Longrightarrow> vsize v + 3 \<le> osize a"
  using mem_size [of n v a] by (auto simp: array_slice_def Let_def dest: set_slice_members)

lemma subelems_size:
  "etype (n, v) = Object \<Longrightarrow> osize (subelems v) = vsize v"
  "etype (n, v) = Array \<Longrightarrow> osize (subelems v) = vsize v"
  using parse_sizes(3,4) [of "(n, v)"] by simp_all

function pj_append :: "fmap \<Rightarrow> belem \<Rightarrow> match_details option \<Rightarrow> array_op \<Rightarrow> bobj result"
  and pj_appendArray :: "fmap \<Rightarrow> bobj \<Rightarrow> bool \<Rightarrow> bobj result" where
  "pj_append fm e details opType =
     (case map_of (fm_fields fm) (fieldName e) of
        None \<Rightarrow> Inr (if fm_include fm then [e] else [])
      | Some subfm \<Rightarrow>
          if (fm_fields subfm = [] \<and> \<not> fm_special subfm) \<or> \<not> (etype e = Object \<or> etype e = Array) then
            Inr (if fm_include subfm then [e] else [])
          else if etype e = Object then
            rbind (foldr_result (\<lambda>x subb.
                rbind (pj_append subfm x details opType) (\<lambda>xs. Inr (subb @ xs))) (subelems (snd e)) [])
              (\<lambda>subb. Inr [(fieldName e, BObject subb)])
          else
            rbind (case details of
                Some d \<Rightarrow>
                  if opType = ARRAY_OP_POSITIONAL then
                    rbind (uassert 16352 (''positional operator ('' @ fieldName e
                             @ ''.$) requires corresponding field in query specifier'') (hasElemMatchKey d)) (\<lambda>_.
                      let m = getField (the (md_elemMatchKey d)) (subelems (snd e)) in
                      rbind (uassert 16353 ''positional operator element mismatch'' (\<not> eoo m)) (\<lambda>_.
                        Inr [(''0'', snd m)]))
                  else pj_appendArray subfm (subelems (snd e)) False
              | None \<Rightarrow> pj_appendArray subfm (subelems (snd e)) False)
              (\<lambda>matched. Inr [(fieldName e, BArray matched)]))"
| "pj_appendArray fm a nested =
     foldr_result (\<lambda>e b.
       if etype e = Array then
         rbind (pj_appendArray fm (subelems (snd e)) True) (\<lambda>subb.
           Inr (b @ [(nat_str (length b), BArray subb)]))
       else if etype e = Object then
         rbind (foldr_result (\<lambda>x subb.
             rbind (pj_append fm x None ARRAY_OP_NORMAL) (\<lambda>xs. Inr (subb @ xs))) (subelems (snd e)) [])
           (\<lambda>subb. Inr (b @ [(nat_str (length b), BObject subb)]))
       else Inr (if fm_include fm then b @ [(nat_str (length b), snd e)] else b))
     (array_slice fm a nested) []"
  by pat_completeness auto
termination
  by (relation "measure (\<lambda>p. case p of Inl (fm, e, _) \<Rightarrow> 2 * vsize (snd e) + 1 | Inr (fm, a, _) \<Rightarrow> 2 * osize a)")
     (auto simp: subelems_size dest!: mem_size array_slice_size)

declare pj_append.simps [simp del] pj_appendArray.simps [simp del]

text \<open>A field under \<open>$elemMatch\<close>: the first member of the array that matched, as the only member.\<close>

definition transform_elemMatch ::
  "projection \<Rightarrow> bobj \<Rightarrow> belem \<Rightarrow> mexpr \<Rightarrow> match_details option \<Rightarrow> bobj result" where
  "transform_elemMatch p doc e m details =
     (if pj_arrayOpType p \<noteq> ARRAY_OP_ELEM_MATCH then
        Inl (MsgAssertion 16348 ''matchers are only supported for $elemMatch'')
      else rbind (matcher_matches m doc (Some (requestElemMatchKey md_init))) (\<lambda>(b, d).
        if \<not> b then Inr []
        else if map_of (fm_fields (pj_map p)) (fieldName e) = None then
          Inl (MsgAssertion 16349 ''$elemMatch specified, but projection field not found.'')
        else let f = getField (fieldName e) doc in
          if eoo f then Inl (MsgAssertion 16350 ''$elemMatch called on document element with eoo'')
          else rbind (Obj f) (\<lambda>arr.
            (case md_elemMatchKey (the d) of
               None \<Rightarrow> Inl (VerifyFailed ''hasElemMatchKey()'')
             | Some key \<Rightarrow>
                 if eoo (getField key arr) then
                   Inl (MsgAssertion 16351 ''$elemMatch called on array element with eoo'')
                 else pj_append (pj_map p)
                   (fieldName e, BArray [(nat_str 0, snd (getField key arr))]) details (pj_arrayOpType p)))))"

definition transform_elem ::
  "projection \<Rightarrow> bobj \<Rightarrow> match_details option \<Rightarrow> belem \<Rightarrow> bobj result" where
  "transform_elem p doc details e =
     (if fieldName e = ''_id'' then Inr (if pj_includeID p then [e] else [])
      else (case map_of (pj_matchers p) (fieldName e) of
        None \<Rightarrow> pj_append (pj_map p) e details (pj_arrayOpType p)
      | Some m \<Rightarrow> transform_elemMatch p doc e m details))"

definition pj_transform :: "projection \<Rightarrow> bobj \<Rightarrow> match_details option \<Rightarrow> bobj result" where
  "pj_transform p doc details =
     foldr_result (\<lambda>e b. rbind (transform_elem p doc details e) (\<lambda>xs. Inr (b @ xs))) doc []"

section \<open>Validation and covered keys\<close>

fun validate_loop :: "bobj \<Rightarrow> bobj \<Rightarrow> unit result" where
  "validate_loop spec [] =
     Inl (UserException 16354 ''Positional operator does not match the query specifier.'')"
| "validate_loop spec (q # qs) =
     (if fieldName q = ''$and'' then Inr ()
      else if list_ex (\<lambda>e. contains_dot_dollar (fieldName e) \<and>
                before_dot (fieldName q) = before_dot (fieldName e)) spec then Inr ()
      else validate_loop spec qs)"

definition validateQuery :: "projection \<Rightarrow> bobj \<Rightarrow> unit result" where
  "validateQuery p query =
     (if pj_arrayOpType p \<noteq> ARRAY_OP_POSITIONAL then Inr () else validate_loop (pj_source p) query)"

text \<open>One entry per field of the key: whether it is in the output, and under which name.\<close>

type_synonym key_only = "(bool \<times> string) list"

fun checkKey_loop :: "projection \<Rightarrow> bobj \<Rightarrow> key_only \<Rightarrow> nat \<Rightarrow> (key_only \<times> nat) option" where
  "checkKey_loop p [] ko got = Some (ko, got)"
| "checkKey_loop p (k # ks) ko got =
     (if etype (getField (fieldName k) (pj_source p)) \<noteq> EOO then
        if CHR ''.'' \<in> set (fieldName k) then None
        else if \<not> pj_includeID p \<and> fieldName k = ''_id'' then
          checkKey_loop p ks (ko @ [(False, '''')]) got
        else checkKey_loop p ks (ko @ [(True, fieldName k)]) (Suc got)
      else if fieldName k = ''_id'' \<and> pj_includeID p then
        checkKey_loop p ks (ko @ [(True, ''_id'')]) got
      else checkKey_loop p ks (ko @ [(False, '''')]) got)"

definition checkKey :: "projection \<Rightarrow> bobj \<Rightarrow> key_only option" where
  "checkKey p keyPattern =
     (if fm_include (pj_map p) then None
      else if pj_hasNonSimple p then None
      else if pj_includeID p \<and> eoo (getField ''_id'' keyPattern) then None
      else (case checkKey_loop p keyPattern [] 0 of
        None \<Rightarrow> None
      | Some (ko, got) \<Rightarrow>
          let need = int (nFields (pj_source p)) - (if pj_includeID p then 0 else 1)
          in if int got = need then Some ko else None))"

fun hydrate :: "key_only \<Rightarrow> bobj \<Rightarrow> bobj result" where
  "hydrate ko [] = Inr []"
| "hydrate [] (e # es) = Inl (VerifyFailed ''n < _include.size()'')"
| "hydrate ((inc, name) # ko) (e # es) =
     rbind (hydrate ko es) (\<lambda>b. Inr (if inc then (name, snd e) # b else b))"

section \<open>Projections never fail on documents\<close>

definition keeps :: "belem \<Rightarrow> bobj \<Rightarrow> bool" where
  "keeps e xs \<longleftrightarrow> xs = [] \<or> (\<exists>v. xs = [(fst e, v)])"

lemma keeps_simps [simp]: "keeps e []" "keeps e [e]" "keeps e [(fst e, v)]"
  by (cases e; simp add: keeps_def)+

lemma subseq_keeps:
  "(\<And>e. e \<in> set es \<Longrightarrow> keeps e (h e)) \<Longrightarrow> subseq (map fst (concat (map h es))) (map fst es)"
proof (induction es)
  case (Cons e es)
  then have "subseq (map fst (concat (map h es))) (map fst es)" by simp
  with Cons.prems [of e] show ?case by (auto simp: keeps_def)
qed simp

lemma pj_append_total:
  "\<exists>xs. pj_append fm e None opType = Inr xs \<and> keeps e xs"
  "\<exists>xs. pj_appendArray fm a nested = Inr xs"
proof (induction fm e "None :: match_details option" opType and fm a nested
    rule: pj_append_pj_appendArray.induct)
  case (1 fm e opType)
  show ?case
  proof (cases "map_of (fm_fields fm) (fieldName e)")
    case None
    then show ?thesis by (simp add: pj_append.simps [of fm e])
  next
    case (Some subfm)
    consider (leaf) "(fm_fields subfm = [] \<and> \<not> fm_special subfm) \<or> \<not> (etype e = Object \<or> etype e = Array)"
      | (obj) "\<not> ((fm_fields subfm = [] \<and> \<not> fm_special subfm) \<or> \<not> (etype e = Object \<or> etype e = Array))"
          "etype e = Object"
      | (arr) "\<not> ((fm_fields subfm = [] \<and> \<not> fm_special subfm) \<or> \<not> (etype e = Object \<or> etype e = Array))"
          "etype e \<noteq> Object"
      by blast
    then show ?thesis
    proof cases
      case leaf
      then show ?thesis by (simp add: pj_append.simps [of fm e] Some)
    next
      case obj
      have fn: "fieldName e = fst e" using obj by (simp add: fieldName_def eoo_def)
      have "\<exists>t. foldr_result (\<lambda>x subb. rbind (pj_append subfm x None opType) (\<lambda>xs. Inr (subb @ xs)))
              (subelems (snd e)) [] = Inr t"
        using "1.hyps"(1) [OF Some obj] by (intro foldr_result_concat_total) blast
      with obj Some show ?thesis by (auto simp: pj_append.simps [of fm e] fn)
    next
      case arr
      have fn: "fieldName e = fst e" using arr by (auto simp: fieldName_def eoo_def)
      obtain xs where "pj_appendArray subfm (subelems (snd e)) False = Inr xs"
        using "1.hyps"(2) [OF Some arr refl] by blast
      with arr Some show ?thesis by (auto simp: pj_append.simps [of fm e] fn)
    qed
  qed
next
  case (2 fm a nested)
  show ?case unfolding pj_appendArray.simps [of fm a nested]
  proof (rule foldr_result_total)
    fix x s assume x: "x \<in> set (array_slice fm a nested)"
    consider "etype x = Array" | "etype x = Object" | "etype x \<noteq> Array" "etype x \<noteq> Object" by blast
    then show "\<exists>t. (if etype x = Array then
         rbind (pj_appendArray fm (subelems (snd x)) True) (\<lambda>subb.
           Inr (s @ [(nat_str (length s), BArray subb)]))
       else if etype x = Object then
         rbind (foldr_result (\<lambda>x subb.
             rbind (pj_append fm x None ARRAY_OP_NORMAL) (\<lambda>xs. Inr (subb @ xs))) (subelems (snd x)) [])
           (\<lambda>subb. Inr (s @ [(nat_str (length s), BObject subb)]))
       else Inr (if fm_include fm then s @ [(nat_str (length s), snd x)] else s)) = Inr t"
    proof cases
      case 1
      with "2.hyps"(1) [OF x] show ?thesis by auto
    next
      case 2
      have "\<exists>t. foldr_result (\<lambda>x subb. rbind (pj_append fm x None ARRAY_OP_NORMAL) (\<lambda>xs. Inr (subb @ xs)))
              (subelems (snd x)) [] = Inr t"
        using "2.hyps"(2) [OF x] 2 by (intro foldr_result_concat_total) fastforce
      with 2 show ?thesis by auto
    qed simp
  qed
qed

text \<open>
  C19.  Applied without match details, a projection that has no \<open>$elemMatch\<close> returns on every
  document, and the fields of the result are fields of the document in the document's order: nothing
  is renamed, duplicated or reordered.
\<close>

theorem pj_transform_subseq:
  assumes "pj_matchers p = []"
  shows "\<exists>out. pj_transform p doc None = Inr out \<and> subseq (map fst out) (map fst doc)"
proof -
  have "\<exists>xs. transform_elem p doc None e = Inr xs \<and> keeps e xs" for e
    using pj_append_total(1) [of "pj_map p" e "pj_arrayOpType p"] assms
    by (auto simp: transform_elem_def)
  then obtain h where h: "transform_elem p doc None e = Inr (h e)" "keeps e (h e)" for e
    by metis
  have "pj_transform p doc None = Inr (concat (map h doc))"
    unfolding pj_transform_def using foldr_result_concat [of doc "transform_elem p doc None" h "[]"] h(1) by simp
  then show ?thesis using subseq_keeps [of doc h] h(2) by auto
qed

section \<open>Including and excluding top-level fields\<close>

text \<open>
  A specification of top-level fields that are all included or all excluded, with \<open>_id\<close>
  possibly left out.
\<close>

definition drops_id :: "belem \<Rightarrow> bool" where
  "drops_id e \<longleftrightarrow> fieldName e = ''_id'' \<and> \<not> trueValue e"

definition flat_elem :: "bool \<Rightarrow> belem \<Rightarrow> bool" where
  "flat_elem b e \<longleftrightarrow> etype e \<noteq> Object \<and> fieldName e \<noteq> [] \<and> CHR ''.'' \<notin> set (fieldName e)
     \<and> (drops_id e \<or> trueValue e = b)"

text \<open>The loop invariant of \<open>init\<close>: \<open>pl\<close> are the plain fields seen so far.\<close>

definition flat_inv :: "bool \<Rightarrow> belem list \<Rightarrow> belem list \<Rightarrow> projection \<times> bool option \<Rightarrow> bool" where
  "flat_inv b seen pl s \<longleftrightarrow> pj_matchers (fst s) = [] \<and> pj_arrayOpType (fst s) = ARRAY_OP_NORMAL
     \<and> snd s = (if pl = [] then None else Some b)
     \<and> pj_includeID (fst s) = (\<not> list_ex drops_id seen)
     \<and> (\<exists>fs. pj_map (fst s) = FMap (if pl = [] then True else \<not> b) False fs 0 (-1)
          \<and> (\<forall>n. map_of fs n = (if n \<in> fieldName ` set pl then Some (FMap b False [] 0 (-1)) else None)))"

lemma not_contains_dot_dollar: "CHR ''.'' \<notin> set s \<Longrightarrow> \<not> contains_dot_dollar s"
  by (auto simp: contains_dot_dollar_def dest!: set_mono_sublist)

lemma fm_add_flat:
  assumes "CHR ''.'' \<notin> set n" "n \<noteq> []"
  shows "fm_add n b (FMap i s fs sk li) = FMap (\<not> b) s
    (AList.update n (fm_add [] b (case map_of fs n of None \<Rightarrow> fm_init | Some m \<Rightarrow> m)) fs) sk li"
proof -
  have "subfield n = n" using assms(1) by (simp add: subfield_def takeWhile_eq_all_conv) metis
  then show ?thesis using assms(2) by (simp add: fm_add.simps [of n] restfield_def)
qed

lemma flat_inv_step:
  assumes inv: "flat_inv b seen pl (p, tf)" and e: "flat_elem b e"
  shows "\<exists>s. init_step env e (p, tf) = Inr s
    \<and> flat_inv b (seen @ [e]) (if drops_id e then pl else pl @ [e]) s"
proof -
  obtain fs where fs: "pj_map p = FMap (if pl = [] then True else \<not> b) False fs 0 (-1)"
    "\<forall>n. map_of fs n = (if n \<in> fieldName ` set pl then Some (FMap b False [] 0 (-1)) else None)"
    using inv by (auto simp: flat_inv_def)
  note fl = e [unfolded flat_elem_def]
  have nodd: "\<not> contains_dot_dollar (fieldName e)" using fl by (simp add: not_contains_dot_dollar)
  show ?thesis
  proof (cases "drops_id e")
    case True
    then show ?thesis using inv fl nodd fs(1)
      by (auto simp: init_step_def drops_id_def flat_inv_def Let_def)
  next
    case False
    have tv: "trueValue e = b" using fl False by simp
    have add: "fm_add (fieldName e) b (pj_map p) = FMap (\<not> b) False
        (AList.update (fieldName e) (FMap b False [] 0 (-1)) fs) 0 (-1)"
      using fl fm_add_flat [of "fieldName e" b] fs by (simp add: fm_init_def)
    have upd: "\<forall>n. map_of (AList.update (fieldName e) (FMap b False [] 0 (-1)) fs) n =
        (if n \<in> fieldName ` set (pl @ [e]) then Some (FMap b False [] 0 (-1)) else None)"
      using fs(2) by (simp add: update_conv')
    show ?thesis
      using False inv fl nodd add upd tv
      by (auto simp: init_step_def init_plain_def drops_id_def flat_inv_def pj_add_def set_include_def
          Let_def split: if_splits)
  qed
qed

lemma flat_inv_loop:
  "flat_inv b seen pl s \<Longrightarrow> list_all (flat_elem b) spec \<Longrightarrow>
   \<exists>t. foldr_result (init_step env) spec s = Inr t
     \<and> flat_inv b (seen @ spec) (pl @ filter (\<lambda>e. \<not> drops_id e) spec) t"
proof (induction spec arbitrary: seen pl s)
  case (Cons e spec)
  obtain p tf where s: "s = (p, tf)" by (cases s)
  obtain u where u: "init_step env e s = Inr u"
    "flat_inv b (seen @ [e]) (if drops_id e then pl else pl @ [e]) u"
    using flat_inv_step [of b seen pl p tf e env] Cons.prems s by auto
  show ?case using Cons.IH [OF u(2)] Cons.prems(2) u(1) by (auto split: if_splits)
qed simp

lemma flat_init:
  assumes "list_all (flat_elem b) spec"
  shows "\<exists>p tf. pj_init env spec Projection_init = Inr p
    \<and> flat_inv b spec (filter (\<lambda>e. \<not> drops_id e) spec) (p, tf)"
proof -
  have "flat_inv b [] [] (Projection_init\<lparr>pj_source := spec\<rparr>, None)"
    by (simp add: flat_inv_def Projection_init_def fm_init_def)
  from flat_inv_loop [OF this assms, of env] show ?thesis
    by (auto simp: pj_init_def Projection_init_def)
qed

text \<open>
  C18.  A specification that names top-level fields to include (or to exclude) is accepted, and the
  projection keeps exactly the named fields (or all the others), in the document's order and with their
  values unchanged; \<open>_id\<close> is kept unless it is switched off.
\<close>

theorem pj_flat_filter:
  assumes "list_all (flat_elem b) spec" and "\<exists>e \<in> set spec. \<not> drops_id e"
  shows "\<exists>p. pj_init env spec Projection_init = Inr p \<and> pj_transform p doc None =
    Inr (filter (\<lambda>e. if fieldName e = ''_id'' then \<not> list_ex drops_id spec
                     else list_ex (\<lambda>s. fieldName s = fieldName e) spec = b) doc)"
proof -
  let ?pl = "filter (\<lambda>e. \<not> drops_id e) spec"
  let ?P = "\<lambda>e. if fieldName e = ''_id'' then \<not> list_ex drops_id spec
                     else list_ex (\<lambda>s. fieldName s = fieldName e) spec = b"
  obtain p tf where p: "pj_init env spec Projection_init = Inr p" "flat_inv b spec ?pl (p, tf)"
    using flat_init [OF assms(1)] by blast
  have pl: "?pl \<noteq> []" using assms(2) by (auto simp: filter_empty_conv)
  obtain fs where fs: "pj_map p = FMap (\<not> b) False fs 0 (-1)"
    "\<And>n. map_of fs n = (if n \<in> fieldName ` set ?pl then Some (FMap b False [] 0 (-1)) else None)"
    using p(2) pl by (auto simp: flat_inv_def)
  have el: "transform_elem p doc None e = Inr (if ?P e then [e] else [])" for e
  proof (cases "fieldName e = ''_id''")
    case False
    then have "drops_id s \<Longrightarrow> fieldName s \<noteq> fieldName e" for s by (auto simp: drops_id_def)
    then have "(fieldName e \<in> fieldName ` set ?pl) = list_ex (\<lambda>s. fieldName s = fieldName e) spec"
      unfolding list_ex_iff image_iff set_filter mem_Collect_eq Bex_def by metis
    then show ?thesis using False fs p(2)
      by (auto simp: transform_elem_def flat_inv_def pj_append.simps [of "FMap (\<not> b) False fs 0 (-1)"])
  qed (use p(2) in \<open>simp add: transform_elem_def flat_inv_def\<close>)
  have "pj_transform p doc None = Inr (concat (map (\<lambda>e. if ?P e then [e] else []) doc))"
    unfolding pj_transform_def
    using foldr_result_concat [of doc "transform_elem p doc None" _ "[]", OF el] by simp
  moreover have "concat (map (\<lambda>e. if Q e then [e] else []) xs) = filter Q xs" for Q and xs :: bobj
    by (induction xs) auto
  ultimately show ?thesis using p(1) by auto
qed

lemma pj_transform_subseq_witness:
  "\<exists>out. pj_transform Projection_init [(''a'', BNumberInt 1)] None = Inr out
     \<and> subseq (map fst out) (map fst [(''a'', BNumberInt 1)])"
  by (rule pj_transform_subseq) (simp add: Projection_init_def)

lemma pj_flat_filter_witness:
  "\<forall>env. \<exists>p. pj_init env [(''a'', BNumberInt 1), (''_id'', BBool False)] Projection_init = Inr p
     \<and> pj_transform p [(''_id'', BNull), (''a'', BNumberInt 7), (''b'', BNull)] None
       = Inr [(''a'', BNumberInt 7)]"
proof
  fix env
  show "\<exists>p. pj_init env [(''a'', BNumberInt 1), (''_id'', BBool False)] Projection_init = Inr p
     \<and> pj_transform p [(''_id'', BNull), (''a'', BNumberInt 7), (''b'', BNull)] None
       = Inr [(''a'', BNumberInt 7)]"
    using pj_flat_filter [of True "[(''a'', BNumberInt 1), (''_id'', BBool False)]" env
        "[(''_id'', BNull), (''a'', BNumberInt 7), (''b'', BNull)]"]
    by (simp add: flat_elem_def drops_id_def trueValue_def fieldName_def eoo_def etype_def)
qed

end
