(* ===== verification/PubSub.thy ===== *)
theory PubSub
  imports Projection
begin

text \<open>
  The subscription table and the operations on it: \<open>src/src/mongo/db/pubsub.{h,cpp}\<close>.
  A \<open>SubscriptionInfo\<close> is shared between the table and the threads that poll it, so it lives in a
  store and is named by its address.  What the messaging library answers (waits, receives, errors) and
  what other threads do to the shared state during a wait are parameters, collected in \<open>zmq_env\<close>.
\<close>

section \<open>Messages\<close>

record sub_msg =
  sm_subscriptionId :: oid
  sm_channel :: string
  sm_message :: bobj
  sm_timestamp :: u64

definition str_lt :: "string \<Rightarrow> string \<Rightarrow> bool" where
  "str_lt a b \<longleftrightarrow> byte_cmp a b < 0"

definition sm_lt :: "sub_msg \<Rightarrow> sub_msg \<Rightarrow> bool" where
  "sm_lt m1 m2 =
     (if oid_lt (sm_subscriptionId m1) (sm_subscriptionId m2) then True
      else if oid_eq (sm_subscriptionId m1) (sm_subscriptionId m2) \<and> str_lt (sm_channel m1) (sm_channel m2) then True
      else if oid_eq (sm_subscriptionId m1) (sm_subscriptionId m2) \<and> sm_channel m1 = sm_channel m2
              \<and> sm_timestamp m2 < sm_timestamp m1 then True
      else False)"

section \<open>State\<close>

text \<open>A subscriber socket: the prefix it is subscribed to, and whether it was closed.\<close>

record zsock =
  zs_prefix :: string
  zs_open :: bool

record sub_info =
  si_sock :: zsock
  si_inUse :: bool
  si_shouldUnsub :: bool
  si_polledRecently :: bool
  si_filter :: "mexpr option"
  si_projection :: "projection option"

type_synonym sref = nat

record ps_state =
  ps_heap :: "sub_info list"
  ps_subscriptions :: "(oid, sref) std_map"
  ps_maxTimeoutMillis :: int
  ps_oidInc :: "32 word"

type_synonym errs = "(oid, string) std_map"
type_synonym sub_vector = "(oid \<times> sref) list"

text \<open>A received message: the bytes of its first frame, its document and its timestamp.\<close>

type_synonym zmsg = "string \<times> bobj \<times> u64"

datatype poll_wait = Ready | NotReady | WaitError string

record zmq_env =
  z_wait :: "nat \<Rightarrow> poll_wait"
  z_others :: "nat \<Rightarrow> ps_state \<Rightarrow> ps_state"
  z_close_fails :: "sref \<Rightarrow> bool"
  z_recv :: "sref \<Rightarrow> zmsg list \<times> bool"

definition ps_init :: ps_state where
  "ps_init = \<lparr>ps_heap = [], ps_subscriptions = [], ps_maxTimeoutMillis = 1000 * 60 * 10, ps_oidInc = 0\<rparr>"

definition maxPollInterval :: int where
  "maxPollInterval = 1000"

abbreviation info :: "ps_state \<Rightarrow> sref \<Rightarrow> sub_info" where
  "info st r \<equiv> ps_heap st ! r"

definition upd_info :: "sref \<Rightarrow> (sub_info \<Rightarrow> sub_info) \<Rightarrow> ps_state \<Rightarrow> ps_state" where
  "upd_info r f st = st\<lparr>ps_heap := (ps_heap st)[r := f (info st r)]\<rparr>"

definition close_sock :: "sub_info \<Rightarrow> sub_info" where
  "close_sock s = s\<lparr>si_sock := (si_sock s)\<lparr>zs_open := False\<rparr>\<rparr>"

abbreviation add_error :: "oid \<Rightarrow> string \<Rightarrow> errs \<Rightarrow> errs" where
  "add_error \<equiv> map_insert oid_lt"

abbreviation find_sub :: "oid \<Rightarrow> ps_state \<Rightarrow> sref option" where
  "find_sub sid st \<equiv> map_find oid_lt sid (ps_subscriptions st)"

definition erase_sub :: "oid \<Rightarrow> ps_state \<Rightarrow> ps_state" where
  "erase_sub sid st = st\<lparr>ps_subscriptions := map_erase oid_lt sid (ps_subscriptions st)\<rparr>"

section \<open>Subscribing\<close>

text \<open>\<open>zerr\<close> is the error the library reports while the socket is created, configured and connected.\<close>

definition make_filter :: "parse_env \<Rightarrow> bobj \<Rightarrow> mexpr option result" where
  "make_filter env filterObj =
     (if filterObj = [] then Inr None else rbind (Matcher2 env filterObj) (\<lambda>m. Inr (Some m)))"

definition make_projection :: "parse_env \<Rightarrow> bobj \<Rightarrow> projection option result" where
  "make_projection env projectionObj =
     (if projectionObj = [] then Inr None
      else rbind (pj_init env projectionObj Projection_init) (\<lambda>p. Inr (Some p)))"

definition new_info :: "string \<Rightarrow> mexpr option \<Rightarrow> projection option \<Rightarrow> sub_info" where
  "new_info channel f p = \<lparr>si_sock = \<lparr>zs_prefix = channel, zs_open = True\<rparr>, si_inUse = False,
     si_shouldUnsub = False, si_polledRecently = True, si_filter = f, si_projection = p\<rparr>"

definition subscribe ::
  "parse_env \<Rightarrow> string option \<Rightarrow> 32 word \<Rightarrow> machine_and_pid \<Rightarrow> string \<Rightarrow> bobj \<Rightarrow> bobj \<Rightarrow> ps_state
    \<Rightarrow> ps_state \<times> oid result" where
  "subscribe env zerr now mp channel filterObj projectionObj st =
     (let (sid, inc) = oid_init now mp (ps_oidInc st); st1 = st\<lparr>ps_oidInc := inc\<rparr> in
      case zerr of
        Some what \<Rightarrow> (st1, Inl (UserException 18539 what))
      | None \<Rightarrow>
          (case rbind (make_filter env filterObj) (\<lambda>f. rbind (make_projection env projectionObj) (\<lambda>p. Inr (f, p))) of
             Inl x \<Rightarrow> (st1, Inl x)
           | Inr (f, p) \<Rightarrow>
               (st1\<lparr>ps_heap := ps_heap st1 @ [new_info channel f p],
                    ps_subscriptions := map_insert oid_lt sid (length (ps_heap st1)) (ps_subscriptions st1)\<rparr>,
                Inr sid)))"

section \<open>Unsubscribing and cleanup\<close>

definition unsubscribe ::
  "zmq_env \<Rightarrow> oid \<Rightarrow> bool \<Rightarrow> errs \<Rightarrow> ps_state \<Rightarrow> errs \<times> ps_state" where
  "unsubscribe z sid force errors st =
     (case find_sub sid st of
        None \<Rightarrow> (add_error sid ''Subscription not found.'' errors, st)
      | Some r \<Rightarrow>
          if \<not> force \<and> si_inUse (info st r) then
            (errors, upd_info r (\<lambda>s. s\<lparr>si_shouldUnsub := True\<rparr>) st)
          else
            (if z_close_fails z r then add_error sid ''Error closing zmq socket.'' errors else errors,
             erase_sub sid (upd_info r close_sock st)))"

definition cleanup_entry :: "oid \<times> sref \<Rightarrow> ps_state \<Rightarrow> ps_state" where
  "cleanup_entry e st = (case e of (sid, r) \<Rightarrow>
     if si_polledRecently (info st r) then upd_info r (\<lambda>s. s\<lparr>si_polledRecently := False\<rparr>) st
     else erase_sub sid (upd_info r close_sock st))"

text \<open>
  One round of the background thread, under the lock of the table.  The loop erases the entry its iterator
  stands on and increments the iterator afterwards: the round is undefined from there on (\<open>Dangling\<close>, with the
  state that was reached).
\<close>

datatype round = Round ps_state | Dangling ps_state

fun cleanup_loop :: "sub_vector \<Rightarrow> ps_state \<Rightarrow> round" where
  "cleanup_loop [] st = Round st"
| "cleanup_loop (e # es) st =
     (if si_polledRecently (info st (snd e)) then cleanup_loop es (cleanup_entry e st)
      else Dangling (cleanup_entry e st))"

definition cleanup_pass :: "ps_state \<Rightarrow> round" where
  "cleanup_pass st = cleanup_loop (ps_subscriptions st) st"

definition cleanup_start :: "bool \<Rightarrow> ps_state \<Rightarrow> ps_state" where
  "cleanup_start useDebugTimeout st =
     (if useDebugTimeout then st\<lparr>ps_maxTimeoutMillis := 100\<rparr> else st)"

text \<open>The state after the thread started and went round \<open>n\<close> times.\<close>

primrec subscriptionCleanup :: "bool \<Rightarrow> nat \<Rightarrow> ps_state \<Rightarrow> round" where
  "subscriptionCleanup useDebugTimeout 0 st = Round (cleanup_start useDebugTimeout st)"
| "subscriptionCleanup useDebugTimeout (Suc n) st =
     (case subscriptionCleanup useDebugTimeout n st of
        Round st' \<Rightarrow> cleanup_pass st'
      | Dangling st' \<Rightarrow> Dangling st')"

section \<open>Checking sockets out and in\<close>

definition checkoutSocket :: "oid \<Rightarrow> ps_state \<Rightarrow> (string + sref) \<times> ps_state" where
  "checkoutSocket sid st =
     (case find_sub sid st of
        None \<Rightarrow> (Inl ''Subscription not found.'', st)
      | Some r \<Rightarrow>
          if si_shouldUnsub (info st r) then (Inl ''Subscription not found.'', st)
          else if si_inUse (info st r) then (Inl ''Poll currently active.'', st)
          else (Inr r, upd_info r (\<lambda>s. s\<lparr>si_inUse := True\<rparr>) st))"

text \<open>
  A check-in that nothing interferes with.  It assigns to two bit-fields without the lock of the table;
  \<open>PubSubSystem\<close> takes the assignments apart.
\<close>

definition checkinSocket :: "sref \<Rightarrow> ps_state \<Rightarrow> ps_state" where
  "checkinSocket r st = upd_info r (\<lambda>s. s\<lparr>si_polledRecently := True, si_inUse := False\<rparr>) st"

definition endCurrentPolls :: "sub_vector \<Rightarrow> ps_state \<Rightarrow> ps_state" where
  "endCurrentPolls subs st = fold (\<lambda>(sid, r). checkinSocket r) subs st"

text \<open>\<open>items\<close> (the sockets waited on) and \<open>subs\<close> have corresponding entries at the same indexes.\<close>

fun getSubscriptions ::
  "oid list \<Rightarrow> sref list \<Rightarrow> sub_vector \<Rightarrow> errs \<Rightarrow> ps_state \<Rightarrow> sref list \<times> sub_vector \<times> errs \<times> ps_state" where
  "getSubscriptions [] items subs errors st = (items, subs, errors, st)"
| "getSubscriptions (sid # ids) items subs errors st =
     (case checkoutSocket sid st of
        (Inl errmsg, st') \<Rightarrow> getSubscriptions ids items subs (add_error sid errmsg errors) st'
      | (Inr r, st') \<Rightarrow> getSubscriptions ids (items @ [r]) (subs @ [(sid, r)]) errors st')"

section \<open>Receiving\<close>

definition filter_matches :: "mexpr option \<Rightarrow> bobj \<Rightarrow> bool result" where
  "filter_matches f message = (case f of
     None \<Rightarrow> Inr True
   | Some m \<Rightarrow> rbind (matcher_matches m message None) (\<lambda>(b, _). Inr b))"

definition apply_projection :: "projection option \<Rightarrow> bobj \<Rightarrow> bobj result" where
  "apply_projection p message = (case p of None \<Rightarrow> Inr message | Some q \<Rightarrow> pj_transform q message None)"

fun recv_loop :: "oid \<Rightarrow> sub_info \<Rightarrow> zmsg list \<Rightarrow> sub_msg pqueue \<Rightarrow> sub_msg pqueue result" where
  "recv_loop sid s [] outbox = Inr outbox"
| "recv_loop sid s ((frame, message, timestamp) # ms) outbox =
     rbind (filter_matches (si_filter s) message) (\<lambda>ok.
       if \<not> ok then recv_loop sid s ms outbox
       else rbind (apply_projection (si_projection s) message) (\<lambda>message'.
         recv_loop sid s ms (pq_push sm_lt
           \<lparr>sm_subscriptionId = sid, sm_channel = c_str frame, sm_message = message',
            sm_timestamp = timestamp\<rparr> outbox)))"

text \<open>Receiving on a closed socket is an error at once.\<close>

definition sock_recv :: "zmq_env \<Rightarrow> sref \<Rightarrow> ps_state \<Rightarrow> zmsg list \<times> bool" where
  "sock_recv z r st = (if zs_open (si_sock (info st r)) then z_recv z r else ([], True))"

fun recvMessages ::
  "zmq_env \<Rightarrow> sub_vector \<Rightarrow> sub_msg pqueue \<Rightarrow> errs \<Rightarrow> ps_state \<Rightarrow> ps_state \<times> (sub_msg pqueue \<times> errs) result" where
  "recvMessages z [] outbox errors st = (st, Inr (outbox, errors))"
| "recvMessages z ((sid, r) # subs) outbox errors st =
     (let (ms, failed) = sock_recv z r st in
      case recv_loop sid (info st r) ms outbox of
        Inl x \<Rightarrow> (st, Inl x)
      | Inr outbox' \<Rightarrow> recvMessages z subs outbox'
          (if failed then add_error sid ''Error receiving messages from zmq socket.'' errors else errors)
          (checkinSocket r st))"

section \<open>Polling\<close>

definition remove_at :: "nat \<Rightarrow> 'a list \<Rightarrow> 'a list" where
  "remove_at i xs = take i xs @ drop (Suc i) xs"

lemma length_remove_at [simp]: "i < length xs \<Longrightarrow> length (remove_at i xs) = length xs - 1"
  by (simp add: remove_at_def)

text \<open>The loop that drops the subscriptions cancelled during a wait.\<close>

function drop_cancelled ::
  "zmq_env \<Rightarrow> nat \<Rightarrow> sref list \<Rightarrow> sub_vector \<Rightarrow> errs \<Rightarrow> ps_state
    \<Rightarrow> sref list \<times> sub_vector \<times> errs \<times> ps_state" where
  "drop_cancelled z i items subs errors st =
     (if i < length subs then
        if si_shouldUnsub (info st (snd (subs ! i))) then
          let sid = fst (subs ! i);
              (errors', st') = unsubscribe z sid True
                (add_error sid ''Poll interrupted by unsubscribe.'' errors) st
          in drop_cancelled z i (remove_at i items) (remove_at i subs) errors' st'
        else drop_cancelled z (Suc i) items subs errors st
      else (items, subs, errors, st))"
  by pat_completeness auto
termination
  by (relation "measure (\<lambda>(z, i, items, subs, errors, st). length subs - i)") auto

declare drop_cancelled.simps [simp del]

record poll_result =
  pr_messages :: "sub_msg pqueue"
  pr_millisPolled :: int
  pr_pollAgain :: bool
  pr_errors :: errs

text \<open>How the waiting loop ends: it returns, throws, or falls through to receiving.\<close>

datatype loop_end =
    Returns poll_result
  | Throws merror
  | Falls sub_vector errs int

function poll_loop ::
  "zmq_env \<Rightarrow> nat \<Rightarrow> int \<Rightarrow> int \<Rightarrow> sref list \<Rightarrow> sub_vector \<Rightarrow> errs \<Rightarrow> ps_state \<Rightarrow> ps_state \<times> loop_end" where
  "poll_loop z k timeout pollRuntime items subs errors st =
     (if timeout \<le> 0 then (st, Falls subs errors pollRuntime)
      else let currPollInterval = min maxPollInterval timeout; st1 = z_others z k st in
        case z_wait z k of
          WaitError what \<Rightarrow> (endCurrentPolls subs st1, Throws (UserException 18547 what))
        | Ready \<Rightarrow> (st1, Falls subs errors pollRuntime)
        | NotReady \<Rightarrow>
            let (items', subs', errors', st2) = drop_cancelled z 0 items subs errors st1 in
            if items' = [] then
              (st2, Returns \<lparr>pr_messages = [], pr_millisPolled = pollRuntime, pr_pollAgain = False,
                             pr_errors = errors'\<rparr>)
            else if pollRuntime + currPollInterval \<ge> ps_maxTimeoutMillis st2 then
              (endCurrentPolls subs' st2,
               Returns \<lparr>pr_messages = [], pr_millisPolled = pollRuntime + currPollInterval,
                        pr_pollAgain = True, pr_errors = errors'\<rparr>)
            else poll_loop z (Suc k) (timeout - currPollInterval) (pollRuntime + currPollInterval)
                   items' subs' errors' st2)"
  by pat_completeness auto
termination
  by (relation "measure (\<lambda>(z, k, timeout, pollRuntime, items, subs, errors, st). nat timeout)")
     (auto simp: maxPollInterval_def)

declare poll_loop.simps [simp del]

definition poll :: "zmq_env \<Rightarrow> oid std_set \<Rightarrow> int \<Rightarrow> ps_state \<Rightarrow> ps_state \<times> poll_result result" where
  "poll z subscriptionIds timeout st =
     (let (items, subs, errors, st1) = getSubscriptions subscriptionIds [] [] [] st in
      if items = [] then
        (st1, Inr \<lparr>pr_messages = [], pr_millisPolled = 0, pr_pollAgain = False, pr_errors = errors\<rparr>)
      else
        let timeout' = (if timeout > ps_maxTimeoutMillis st1 \<or> timeout < 0
                        then ps_maxTimeoutMillis st1 else timeout) in
        case poll_loop z 0 timeout' 0 items subs errors st1 of
          (st2, Returns r) \<Rightarrow> (st2, Inr r)
        | (st2, Throws x) \<Rightarrow> (st2, Inl x)
        | (st2, Falls subs' errors' pollRuntime) \<Rightarrow>
            (case recvMessages z subs' [] errors' st2 of
               (st3, Inl x) \<Rightarrow> (st3, Inl x)
             | (st3, Inr (outbox, errors'')) \<Rightarrow>
                 (st3, Inr \<lparr>pr_messages = outbox, pr_millisPolled = pollRuntime, pr_pollAgain = False,
                            pr_errors = errors''\<rparr>)))"

section \<open>The order of messages\<close>

lemma str_lt_simps:
  "\<not> str_lt a a" "str_lt a b \<Longrightarrow> \<not> str_lt b a" "a = b \<or> str_lt a b \<or> str_lt b a"
  using linorder_less_linear [of "byte_cmp b a" 0] by (auto simp: str_lt_def byte_cmp_anti [of a b])

lemma str_lt_neg_trans: "\<not> str_lt a b \<Longrightarrow> \<not> str_lt b c \<Longrightarrow> \<not> str_lt a c"
  using byte_cmp_trans_le [of c b a] by (simp add: str_lt_def byte_cmp_anti [of a b] byte_cmp_anti [of b c]
    byte_cmp_anti [of a c])

text \<open>Messages compare by a key: the id, then the channel, then the age.\<close>

lemma sm_lt_iff:
  "sm_lt m1 m2 \<longleftrightarrow> oid_lt (sm_subscriptionId m1) (sm_subscriptionId m2)
     \<or> (\<not> oid_lt (sm_subscriptionId m2) (sm_subscriptionId m1)
        \<and> (str_lt (sm_channel m1) (sm_channel m2)
           \<or> (sm_channel m1 = sm_channel m2 \<and> sm_timestamp m2 < sm_timestamp m1)))"
  by (auto simp: sm_lt_def oid_eq_iff)

interpretation sm_order: strict_weak_order sm_lt
proof
  fix x y z
  show "sm_lt x y \<Longrightarrow> \<not> sm_lt y x"
    unfolding sm_lt_iff using oid_order.asym str_lt_simps(1,2) less_asym by metis
  assume xy: "\<not> sm_lt x y" and yz: "\<not> sm_lt y z"
  let ?i = sm_subscriptionId and ?c = sm_channel and ?t = sm_timestamp
  have ids: "\<not> oid_lt (?i x) (?i y)" "\<not> oid_lt (?i y) (?i z)" using xy yz by (auto simp: sm_lt_iff)
  then have xz: "\<not> oid_lt (?i x) (?i z)" by (rule oid_order.neg_trans)
  show "\<not> sm_lt x z"
  proof (cases "oid_lt (?i z) (?i x)")
    case True
    with xz show ?thesis by (simp add: sm_lt_iff)
  next
    case False
    have eq: "\<not> oid_lt (?i y) (?i x)" "\<not> oid_lt (?i z) (?i y)"
      using False ids oid_order.less_equiv_less oid_order.equiv_less_less by blast+
    have cs: "\<not> str_lt (?c x) (?c y)" "\<not> str_lt (?c y) (?c z)" using xy yz ids eq by (auto simp: sm_lt_iff)
    have cxz: "\<not> str_lt (?c x) (?c z)" using cs by (rule str_lt_neg_trans)
    show ?thesis
    proof (cases "?c x = ?c z")
      case True
      then have "?c x = ?c y" "?c y = ?c z" using cs str_lt_simps(3) by metis+
      then have "\<not> ?t y < ?t x" "\<not> ?t z < ?t y" using xy yz ids eq by (auto simp: sm_lt_iff)
      then show ?thesis using xz cxz by (auto simp: sm_lt_iff)
    qed (use xz cxz in \<open>auto simp: sm_lt_iff\<close>)
  qed
qed

interpretation outbox: prio_queue sm_lt "pq_push sm_lt" pq_top pq_pop "pq_inv sm_lt" mset
  by (rule sm_order.prio_queue_list)

section \<open>Frame lemmas\<close>

lemma upd_info_frame [ps_simps]:
  "ps_subscriptions (upd_info r f st) = ps_subscriptions st"
  "ps_maxTimeoutMillis (upd_info r f st) = ps_maxTimeoutMillis st"
  "ps_oidInc (upd_info r f st) = ps_oidInc st"
  "length (ps_heap (upd_info r f st)) = length (ps_heap st)"
  by (simp_all add: upd_info_def)

lemma info_upd_info [ps_simps]:
  "r < length (ps_heap st) \<Longrightarrow> info (upd_info r f st) q = (if q = r then f (info st r) else info st q)"
  by (simp add: upd_info_def nth_list_update)

lemma info_upd_other: "q \<noteq> r \<Longrightarrow> info (upd_info r f st) q = info st q"
  by (simp add: upd_info_def)

lemma erase_sub_frame [ps_simps]:
  "ps_heap (erase_sub sid st) = ps_heap st"
  "ps_maxTimeoutMillis (erase_sub sid st) = ps_maxTimeoutMillis st"
  "ps_subscriptions (erase_sub sid st) = map_erase oid_lt sid (ps_subscriptions st)"
  by (simp_all add: erase_sub_def)

lemma close_sock_frame [ps_simps]:
  "si_inUse (close_sock s) = si_inUse s"
  "si_shouldUnsub (close_sock s) = si_shouldUnsub s"
  "si_polledRecently (close_sock s) = si_polledRecently s"
  "si_filter (close_sock s) = si_filter s"
  "si_projection (close_sock s) = si_projection s"
  "\<not> zs_open (si_sock (close_sock s))"
  by (simp_all add: close_sock_def)

lemma subseq_map_erase: "subseq (map_erase lt k m) m"
  by (induction m) auto

lemma distinct_snd_insert:
  "distinct (map snd m) \<Longrightarrow> v \<notin> snd ` set m \<Longrightarrow> distinct (map snd (map_insert lt k v m))"
proof (induction m)
  case (Cons a m)
  then show ?case using set_map_insert [of lt k v m] by (cases a) (force simp: image_iff)
qed simp

section \<open>The invariant of the table\<close>

text \<open>
  The table is sorted by id, its entries are allocated and no two ids share a subscription.
\<close>

definition ps_inv :: "ps_state \<Rightarrow> bool" where
  "ps_inv st \<longleftrightarrow> map_wf oid_lt (ps_subscriptions st)
     \<and> (\<forall>e \<in> set (ps_subscriptions st). snd e < length (ps_heap st))
     \<and> distinct (map snd (ps_subscriptions st))"

lemma ps_inv_init [simp]: "ps_inv ps_init"
  by (simp add: ps_inv_def ps_init_def)

lemma ps_inv_upd_info [simp]: "ps_inv (upd_info r f st) \<longleftrightarrow> ps_inv st"
  by (simp add: ps_inv_def ps_simps)

lemma ps_inv_erase [simp]:
  assumes "ps_inv st"
  shows "ps_inv (erase_sub sid st)"
proof -
  have "subseq (map snd (map_erase oid_lt sid (ps_subscriptions st))) (map snd (ps_subscriptions st))"
    by (rule subseq_map) (rule subseq_map_erase)
  then have "distinct (map snd (map_erase oid_lt sid (ps_subscriptions st)))"
    using assms by (auto simp: ps_inv_def subseq_conv_nths intro: distinct_nthsI)
  then show ?thesis
    using assms oid_order.map_wf_erase [of "ps_subscriptions st" sid]
      set_map_erase [of oid_lt sid "ps_subscriptions st"]
    by (auto simp: ps_inv_def ps_simps)
qed

lemma find_sub_valid: "ps_inv st \<Longrightarrow> find_sub sid st = Some r \<Longrightarrow> r < length (ps_heap st)"
  by (auto simp: ps_inv_def dest!: map_find_in_set)

lemma ps_inv_subscribe:
  assumes "ps_inv st"
  shows "ps_inv (fst (subscribe env zerr now mp ch f p st))"
proof -
  have "length (ps_heap st) \<notin> snd ` set (ps_subscriptions st)" using assms by (auto simp: ps_inv_def)
  then have "distinct (map snd (map_insert oid_lt sid (length (ps_heap st)) (ps_subscriptions st)))" for sid
    using assms by (intro distinct_snd_insert) (auto simp: ps_inv_def)
  moreover have "map_wf oid_lt (map_insert oid_lt sid (length (ps_heap st)) (ps_subscriptions st))" for sid
    using assms by (intro oid_order.map_wf_insert) (simp add: ps_inv_def)
  ultimately show ?thesis
    using assms set_map_insert [of oid_lt _ "length (ps_heap st)" "ps_subscriptions st"]
    by (fastforce simp: subscribe_def ps_inv_def Let_def less_Suc_eq split: prod.splits option.splits sum.splits)
qed

section \<open>What each operation does to the table\<close>

lemma ps_inv_unsubscribe [simp]: "ps_inv st \<Longrightarrow> ps_inv (snd (unsubscribe z sid force errors st))"
  by (auto simp: unsubscribe_def split: option.splits)

lemma ps_inv_checkin [simp]: "ps_inv (checkinSocket r st) \<longleftrightarrow> ps_inv st"
  by (simp add: checkinSocket_def)

lemma ps_inv_checkout [simp]: "ps_inv st \<Longrightarrow> ps_inv (snd (checkoutSocket sid st))"
  by (auto simp: checkoutSocket_def split: option.splits)

lemma ps_inv_cleanup_entry [simp]: "ps_inv st \<Longrightarrow> ps_inv (cleanup_entry e st)"
  by (auto simp: cleanup_entry_def split: prod.splits)

lemma ps_inv_endCurrentPolls [simp]: "ps_inv (endCurrentPolls subs st) \<longleftrightarrow> ps_inv st"
proof -
  have "ps_inv (fold (\<lambda>(sid, r). checkinSocket r) subs st) \<longleftrightarrow> ps_inv st"
    by (induction subs arbitrary: st) (simp_all add: split_beta)
  then show ?thesis by (simp add: endCurrentPolls_def)
qed

lemma unsubscribe_frame [ps_simps]:
  assumes "ps_inv st"
  shows "length (ps_heap (snd (unsubscribe z sid force errors st))) = length (ps_heap st)"
    "ps_maxTimeoutMillis (snd (unsubscribe z sid force errors st)) = ps_maxTimeoutMillis st"
    "si_inUse (info (snd (unsubscribe z sid force errors st)) q) = si_inUse (info st q)"
  using find_sub_valid [OF assms, of sid]
  by (auto simp: unsubscribe_def ps_simps split: option.splits)

lemma cleanup_entry_frame:
  assumes "snd e < length (ps_heap st)"
  shows "length (ps_heap (cleanup_entry e st)) = length (ps_heap st)"
    "si_inUse (info (cleanup_entry e st) q) = si_inUse (info st q)"
    "si_shouldUnsub (info (cleanup_entry e st) q) = si_shouldUnsub (info st q)"
  using assms by (cases e; simp add: cleanup_entry_def ps_simps)+

lemma map_erase_middle:
  assumes "map_wf oid_lt (pre @ (k, v) # es)"
  shows "map_erase oid_lt k (pre @ (k, v) # es) = pre @ es"
  using assms
proof (induction pre)
  case (Cons a pre)
  then have "oid_lt (fst a) k" by simp
  with Cons show ?case by (cases a) (auto dest: oid_order.asym)
qed simp

text \<open>
  The rounds of the cleanup thread in one step: the marks of the subscriptions up to the first idle one are
  reset, and that one is closed and erased.
\<close>

definition reset_polled :: "sub_vector \<Rightarrow> ps_state \<Rightarrow> ps_state" where
  "reset_polled es st = fold (\<lambda>e. upd_info (snd e) (\<lambda>s. s\<lparr>si_polledRecently := False\<rparr>)) es st"

lemma reset_polled_frame [ps_simps]:
  "ps_subscriptions (reset_polled es st) = ps_subscriptions st"
  "length (ps_heap (reset_polled es st)) = length (ps_heap st)"
  by (induction es arbitrary: st) (simp_all add: reset_polled_def ps_simps)

lemma info_reset_polled:
  "\<forall>e \<in> set es. snd e < length (ps_heap st) \<Longrightarrow>
   info (reset_polled es st) q = (if q \<in> snd ` set es then (info st q)\<lparr>si_polledRecently := False\<rparr> else info st q)"
proof (induction es arbitrary: st)
  case (Cons e es)
  let ?st = "upd_info (snd e) (\<lambda>s. s\<lparr>si_polledRecently := False\<rparr>) st"
  have "info (reset_polled es ?st) q
      = (if q \<in> snd ` set es then (info ?st q)\<lparr>si_polledRecently := False\<rparr> else info ?st q)"
    using Cons.prems by (intro Cons.IH) (simp add: ps_simps)
  moreover have "reset_polled (e # es) st = reset_polled es ?st" by (simp add: reset_polled_def)
  ultimately show ?case using Cons.prems by (auto simp: ps_simps)
qed (simp add: reset_polled_def)

lemma cleanup_loop_spec:
  assumes "distinct (map snd es)" "\<forall>e \<in> set es. snd e < length (ps_heap st)"
  shows "cleanup_loop es st = (let polled = (\<lambda>e. si_polledRecently (info st (snd e))) in
     case dropWhile polled es of
       [] \<Rightarrow> Round (reset_polled es st)
     | e # _ \<Rightarrow> Dangling (erase_sub (fst e) (upd_info (snd e) close_sock (reset_polled (takeWhile polled es) st))))"
  using assms
proof (induction es arbitrary: st)
  case (Cons e es)
  show ?case
  proof (cases "si_polledRecently (info st (snd e))")
    case True
    let ?st = "upd_info (snd e) (\<lambda>s. s\<lparr>si_polledRecently := False\<rparr>) st"
    have same: "si_polledRecently (info ?st (snd x)) = si_polledRecently (info st (snd x))" if "x \<in> set es" for x
    proof -
      have "snd x \<noteq> snd e" using that Cons.prems(1) by (metis distinct.simps(2) image_eqI list.set_map list.simps(9))
      then show ?thesis by (simp add: info_upd_other)
    qed
    have step: "cleanup_loop (e # es) st = cleanup_loop es ?st" using True by (simp add: cleanup_entry_def split_beta)
    have parts: "takeWhile (\<lambda>x. si_polledRecently (info ?st (snd x))) es = takeWhile (\<lambda>x. si_polledRecently (info st (snd x))) es"
      "dropWhile (\<lambda>x. si_polledRecently (info ?st (snd x))) es = dropWhile (\<lambda>x. si_polledRecently (info st (snd x))) es"
      using same by (auto intro!: takeWhile_cong dropWhile_cong)
    have reset: "reset_polled (e # xs) st = reset_polled xs ?st" for xs by (simp add: reset_polled_def)
    have "distinct (map snd es)" "\<forall>e \<in> set es. snd e < length (ps_heap ?st)" using Cons.prems by (simp_all add: ps_simps)
    from Cons.IH [OF this] show ?thesis
      unfolding step Let_def parts takeWhile.simps dropWhile.simps if_P [OF True] reset .
  qed (simp add: cleanup_entry_def split_beta reset_polled_def)
qed (simp add: reset_polled_def)

lemma cleanup_pass_spec:
  assumes "ps_inv st"
  shows "cleanup_pass st = (let polled = (\<lambda>e. si_polledRecently (info st (snd e))) in
     case dropWhile polled (ps_subscriptions st) of
       [] \<Rightarrow> Round (reset_polled (ps_subscriptions st) st)
     | e # _ \<Rightarrow> Dangling (erase_sub (fst e) (upd_info (snd e) close_sock
         (reset_polled (takeWhile polled (ps_subscriptions st)) st))))"
  unfolding cleanup_pass_def using assms by (intro cleanup_loop_spec) (auto simp: ps_inv_def)



section \<open>Polling\<close>

lemma map_erase_absent: "map_find lt k m = None \<Longrightarrow> map_erase lt k m = m"
  by (induction m) (auto split: if_splits)

lemma forced_unsubscribe_frame [ps_simps]:
  assumes "ps_inv st"
  shows "si_shouldUnsub (info (snd (unsubscribe z sid True errors st)) q) = si_shouldUnsub (info st q)"
    "ps_subscriptions (snd (unsubscribe z sid True errors st)) = map_erase oid_lt sid (ps_subscriptions st)"
  using find_sub_valid [OF assms, of sid]
  by (auto simp: unsubscribe_def ps_simps map_erase_absent split: option.splits)

lemma find_insert_keep: "map_find oid_lt k m = Some x \<Longrightarrow> map_find oid_lt k (map_insert oid_lt sid v m) = Some x"
proof (induction m)
  case (Cons a m)
  then show ?case
    by (cases a) (auto split: if_splits dest: oid_order.trans oid_order.equiv_less_less)
qed simp

lemma unsubscribe_errors_keep:
  "map_find oid_lt k errors = Some m \<Longrightarrow>
   map_find oid_lt k (fst (unsubscribe z sid force errors st)) = Some m"
  by (auto simp: unsubscribe_def find_insert_keep split: option.splits)

abbreviation alive :: "ps_state \<Rightarrow> oid \<times> sref \<Rightarrow> bool" where
  "alive st e \<equiv> \<not> si_shouldUnsub (info st (snd e))"

lemma take_remove_at: "i < length xs \<Longrightarrow> take i (remove_at i xs) = take i xs"
  by (simp add: remove_at_def)

lemma drop_remove_at: "i < length xs \<Longrightarrow> drop i (remove_at i xs) = drop (Suc i) xs"
  by (simp add: remove_at_def)

lemma map_remove_at: "map f (remove_at i xs) = remove_at i (map f xs)"
  by (simp add: remove_at_def take_map drop_map)

text \<open>
  The loop over the subscriptions keeps the ones that were not cancelled, in order; the sockets stay
  aligned with them and the table loses exactly the cancelled ids.
\<close>

lemma drop_cancelled_spec:
  assumes "ps_inv st" "items = map snd subs"
  shows "\<exists>errors' st'. drop_cancelled z i items subs errors st =
      (map snd (take i subs @ filter (alive st) (drop i subs)),
       take i subs @ filter (alive st) (drop i subs), errors', st')
    \<and> ps_inv st' \<and> length (ps_heap st') = length (ps_heap st)
    \<and> ps_maxTimeoutMillis st' = ps_maxTimeoutMillis st
    \<and> (\<forall>q. si_shouldUnsub (info st' q) = si_shouldUnsub (info st q)
          \<and> si_inUse (info st' q) = si_inUse (info st q))
    \<and> ps_subscriptions st' = fold (map_erase oid_lt)
         (map fst (filter (\<lambda>e. \<not> alive st e) (drop i subs))) (ps_subscriptions st)"
  using assms
proof (induction z i items subs errors st rule: drop_cancelled.induct)
  case (1 z i items subs errors st)
  show ?case
  proof (cases "i < length subs")
    case True
    then have d: "drop i subs = subs ! i # drop (Suc i) subs" by (simp add: Cons_nth_drop_Suc)
    show ?thesis
    proof (cases "alive st (subs ! i)")
      case True
      then show ?thesis
        using \<open>i < length subs\<close> "1.IH"(2) [OF \<open>i < length subs\<close>] "1.prems" d take_Suc_conv_app_nth [OF \<open>i < length subs\<close>]
        by (simp add: drop_cancelled.simps [of z i])
    next
      case False
      define sid where "sid = fst (subs ! i)"
      define e1 where "e1 = add_error sid ''Poll interrupted by unsubscribe.'' errors"
      obtain e2 st2 where u: "unsubscribe z sid True e1 st = (e2, st2)" by fastforce
      note fr = unsubscribe_frame [OF "1.prems"(1), of z sid True e1, unfolded u snd_conv]
        forced_unsubscribe_frame [OF "1.prems"(1), of z sid e1, unfolded u snd_conv]
      have inv2: "ps_inv st2" using ps_inv_unsubscribe [OF "1.prems"(1), of z sid True e1] u by simp
      have al: "alive st2 = alive st" using fr by auto
      have eq: "drop_cancelled z i items subs errors st
          = drop_cancelled z i (remove_at i items) (remove_at i subs) e2 st2"
        using True False u by (simp add: drop_cancelled.simps [of z i items] sid_def e1_def)
      have "remove_at i items = map snd (remove_at i subs)"
        using "1.prems"(2) by (simp add: map_remove_at)
      moreover have "si_shouldUnsub (info st (snd (subs ! i)))" using False by simp
      note "1.IH"(1) [OF True this refl refl u [unfolded sid_def e1_def, symmetric] inv2]
      ultimately show ?thesis using True d False fr
        by (simp add: eq al sid_def take_remove_at drop_remove_at)
    qed
  next
    case False
    then show ?thesis using "1.prems" by (simp add: drop_cancelled.simps [of z i])
  qed
qed

lemma endCurrentPolls_frame [ps_simps]:
  "ps_maxTimeoutMillis (endCurrentPolls subs st) = ps_maxTimeoutMillis st"
  "ps_subscriptions (endCurrentPolls subs st) = ps_subscriptions st"
proof -
  have "ps_maxTimeoutMillis (fold (\<lambda>(sid, r). checkinSocket r) subs st) = ps_maxTimeoutMillis st
    \<and> ps_subscriptions (fold (\<lambda>(sid, r). checkinSocket r) subs st) = ps_subscriptions st"
    by (induction subs arbitrary: st) (simp_all add: split_beta checkinSocket_def ps_simps)
  then show "ps_maxTimeoutMillis (endCurrentPolls subs st) = ps_maxTimeoutMillis st"
    "ps_subscriptions (endCurrentPolls subs st) = ps_subscriptions st"
    by (simp_all add: endCurrentPolls_def)
qed

lemma checkout_frame [ps_simps]:
  "ps_maxTimeoutMillis (snd (checkoutSocket sid st)) = ps_maxTimeoutMillis st"
  "ps_subscriptions (snd (checkoutSocket sid st)) = ps_subscriptions st"
  "length (ps_heap (snd (checkoutSocket sid st))) = length (ps_heap st)"
  by (auto simp: checkoutSocket_def ps_simps split: option.splits)

lemma getSubscriptions_max:
  "getSubscriptions ids items subs errors st = (items', subs', errors', st') \<Longrightarrow>
   ps_maxTimeoutMillis st' = ps_maxTimeoutMillis st"
proof (induction ids arbitrary: items subs errors st)
  case (Cons sid ids)
  obtain x st1 where c: "checkoutSocket sid st = (x, st1)" by fastforce
  then have "ps_maxTimeoutMillis st1 = ps_maxTimeoutMillis st" using checkout_frame(1) [of sid st] by simp
  with c Cons show ?case by (cases x) (auto simp: c)
qed simp

fun end_in_bounds :: "int \<Rightarrow> int \<Rightarrow> ps_state \<Rightarrow> loop_end \<Rightarrow> bool" where
  "end_in_bounds lo hi st (Returns r) \<longleftrightarrow> pr_messages r = [] \<and> lo \<le> pr_millisPolled r
     \<and> pr_millisPolled r \<le> hi \<and> (pr_pollAgain r \<longrightarrow> ps_maxTimeoutMillis st \<le> pr_millisPolled r)"
| "end_in_bounds lo hi st (Throws x) \<longleftrightarrow> (\<exists>w. x = UserException 18547 w)"
| "end_in_bounds lo hi st (Falls subs errors t) \<longleftrightarrow> lo \<le> t \<and> t \<le> hi"

lemma end_in_bounds_mono: "end_in_bounds lo' hi st e \<Longrightarrow> lo \<le> lo' \<Longrightarrow> end_in_bounds lo hi st e"
  by (cases e) auto

lemma poll_loop_bounds:
  assumes "0 \<le> timeout"
  shows "case poll_loop z k timeout runtime items subs errors st of (st', e) \<Rightarrow>
    end_in_bounds runtime (runtime + timeout) st' e"
  using assms
proof (induction z k timeout runtime items subs errors st rule: poll_loop.induct)
  case (1 z k timeout runtime items subs errors st)
  show ?case
  proof (cases "timeout \<le> 0 \<or> z_wait z k \<noteq> NotReady")
    case True
    with "1.prems" show ?thesis
      by (cases "z_wait z k") (simp_all add: poll_loop.simps [of z k] Let_def)
  next
    case False
    define st1 where "st1 = z_others z k st"
    define c where "c = min maxPollInterval timeout"
    obtain items' subs' errors' st2 where
      d: "drop_cancelled z 0 items subs errors st1 = (items', subs', errors', st2)"
      by (metis prod.exhaust)
    have c: "0 < c" "c \<le> timeout" using False by (auto simp: c_def maxPollInterval_def)
    show ?thesis
    proof (cases "items' = [] \<or> ps_maxTimeoutMillis st2 \<le> runtime + c")
      case True
      then show ?thesis using False c d "1.prems"
        by (auto simp: poll_loop.simps [of z k] Let_def st1_def c_def ps_simps)
    next
      case ret: False
      have "case poll_loop z (Suc k) (timeout - c) (runtime + c) items' subs' errors' st2 of (st', e) \<Rightarrow>
          end_in_bounds (runtime + c) ((runtime + c) + (timeout - c)) st' e"
        using "1.IH" [OF _ c_def st1_def _ d [symmetric]] ret False c by simp
      then have "case poll_loop z (Suc k) (timeout - c) (runtime + c) items' subs' errors' st2 of (st', e) \<Rightarrow>
          end_in_bounds runtime (runtime + timeout) st' e"
        using c by (auto split: prod.splits intro: end_in_bounds_mono)
      then show ?thesis using False ret d
        by (simp add: poll_loop.simps [of z k] Let_def st1_def c_def)
    qed
  qed
qed
text \<open>
  C13.  A poll that returns has waited no longer than it was asked to, and never longer than the
  limit of ten minutes (or the limit in force); it asks the client to poll again only when it found
  nothing and the limit is used up.  The only exception of the waiting itself is code 18547.
\<close>

theorem poll_bounds:
  assumes "poll z ids timeout st = (st', Inr r)" and "0 \<le> ps_maxTimeoutMillis st"
  shows "0 \<le> pr_millisPolled r
    \<and> pr_millisPolled r \<le> (if timeout < 0 then ps_maxTimeoutMillis st else min timeout (ps_maxTimeoutMillis st))
    \<and> (pr_pollAgain r \<longrightarrow> pr_messages r = [] \<and> ps_maxTimeoutMillis st' \<le> pr_millisPolled r)"
proof -
  obtain items subs errors st1 where g: "getSubscriptions ids [] [] [] st = (items, subs, errors, st1)"
    by (metis prod.exhaust)
  have mx: "ps_maxTimeoutMillis st1 = ps_maxTimeoutMillis st" using g by (rule getSubscriptions_max)
  define T where "T = (if timeout > ps_maxTimeoutMillis st1 \<or> timeout < 0 then ps_maxTimeoutMillis st1 else timeout)"
  have T: "T = (if timeout < 0 then ps_maxTimeoutMillis st else min timeout (ps_maxTimeoutMillis st))" "0 \<le> T"
    using assms(2) mx by (auto simp: T_def)
  show ?thesis
  proof (cases "items = []")
    case True
    then show ?thesis using assms g T by (auto simp: poll_def)
  next
    case False
    obtain st2 e where l: "poll_loop z 0 T 0 items subs errors st1 = (st2, e)" by fastforce
    then have "end_in_bounds 0 T st2 e" using poll_loop_bounds [of T 0 z 0 items subs errors st1] T(2) by simp
    then show ?thesis using assms(1) g l False
      unfolding T(1) [symmetric]
      by (cases e) (auto simp: poll_def T_def [symmetric] Let_def split: prod.splits sum.splits)
  qed
qed

text \<open>Two environments that differ in the waits only.\<close>

abbreviation rewait :: "zmq_env \<Rightarrow> (nat \<Rightarrow> poll_wait) \<Rightarrow> (nat \<Rightarrow> ps_state \<Rightarrow> ps_state) \<Rightarrow> zmq_env" where
  "rewait z w others \<equiv> z\<lparr>z_wait := w, z_others := others\<rparr>"

lemma unsubscribe_rewait [simp]: "unsubscribe (rewait z w others) = unsubscribe z"
  by (rule ext)+ (simp add: unsubscribe_def split: option.splits)

lemma drop_cancelled_rewait [simp]:
  "drop_cancelled (rewait z w others) i items subs errors st = drop_cancelled z i items subs errors st"
proof (induction z i items subs errors st rule: drop_cancelled.induct)
  case (1 z i items subs errors st)
  then show ?case
    by (simp add: drop_cancelled.simps [of "rewait z w others" i] drop_cancelled.simps [of z i]
        Let_def split: prod.splits)
qed

lemma recvMessages_rewait [simp]:
  "recvMessages (rewait z w others) subs outbox errors st = recvMessages z subs outbox errors st"
  by (induction z subs outbox errors st rule: recvMessages.induct)
     (auto simp: sock_recv_def split: sum.splits prod.splits)

lemma poll_loop_rewait:
  assumes "timeout \<le> maxPollInterval * int n"
    and "\<And>j. k \<le> j \<Longrightarrow> j < k + n \<Longrightarrow> w j = z_wait z j \<and> others j = z_others z j"
  shows "poll_loop (rewait z w others) k timeout runtime items subs errors st
    = poll_loop z k timeout runtime items subs errors st"
  using assms
proof (induction n arbitrary: k timeout runtime items subs errors st)
  case 0
  then show ?case
    by (simp add: poll_loop.simps [of "rewait z w others" k] poll_loop.simps [of z k])
next
  case (Suc n)
  have now: "w k = z_wait z k" "others k = z_others z k" using Suc.prems(2) [of k] by auto
  have rest: "poll_loop (rewait z w others) (Suc k) (timeout - min maxPollInterval timeout) rt is ss es s
      = poll_loop z (Suc k) (timeout - min maxPollInterval timeout) rt is ss es s" for rt "is" ss es s
    using Suc.prems by (intro Suc.IH) (auto simp: maxPollInterval_def)
  show ?case
    by (simp add: poll_loop.simps [of "rewait z w others" k] poll_loop.simps [of z k] now rest Let_def
        split: poll_wait.splits prod.splits)
qed

text \<open>
  C14.  A poll waits at most once per started second of its timeout: what the library answers after
  that many waits cannot change the result.  With the default limit that is at most 600 waits.
\<close>

theorem poll_wait_count:
  assumes "0 \<le> ps_maxTimeoutMillis st" "ps_maxTimeoutMillis st \<le> maxPollInterval * int n"
    and "\<And>j. j < n \<Longrightarrow> w j = z_wait z j \<and> others j = z_others z j"
  shows "poll (z\<lparr>z_wait := w, z_others := others\<rparr>) ids timeout st = poll z ids timeout st"
proof -
  obtain items subs errors st1 where g: "getSubscriptions ids [] [] [] st = (items, subs, errors, st1)"
    by (metis prod.exhaust)
  have mx: "ps_maxTimeoutMillis st1 = ps_maxTimeoutMillis st" using g by (rule getSubscriptions_max)
  have "poll_loop (rewait z w others) 0
      (if timeout > ps_maxTimeoutMillis st1 \<or> timeout < 0 then ps_maxTimeoutMillis st1 else timeout) 0 items subs errors st1
    = poll_loop z 0
      (if timeout > ps_maxTimeoutMillis st1 \<or> timeout < 0 then ps_maxTimeoutMillis st1 else timeout) 0 items subs errors st1"
    using assms mx by (intro poll_loop_rewait [where n = n]) auto
  then show ?thesis
    by (simp add: poll_def g Let_def split: prod.splits loop_end.splits)
qed

section \<open>Interrupting polls\<close>

text \<open>What the loop over the cancelled subscriptions does to the errors and to the state.\<close>

definition interrupt :: "zmq_env \<Rightarrow> oid \<times> sref \<Rightarrow> errs \<times> ps_state \<Rightarrow> errs \<times> ps_state" where
  "interrupt z e p = unsubscribe z (fst e) True (add_error (fst e) ''Poll interrupted by unsubscribe.'' (fst p)) (snd p)"

lemma drop_cancelled_fold:
  assumes "ps_inv st" "items = map snd subs"
  shows "drop_cancelled z i items subs errors st =
      (let (errors', st') = fold (interrupt z) (filter (\<lambda>e. \<not> alive st e) (drop i subs)) (errors, st);
           subs' = take i subs @ filter (alive st) (drop i subs)
       in (map snd subs', subs', errors', st'))"
  using assms
proof (induction z i items subs errors st rule: drop_cancelled.induct)
  case (1 z i items subs errors st)
  show ?case
  proof (cases "i < length subs")
    case True
    then have d: "drop i subs = subs ! i # drop (Suc i) subs" by (simp add: Cons_nth_drop_Suc)
    show ?thesis
    proof (cases "alive st (subs ! i)")
      case True
      then show ?thesis
        using \<open>i < length subs\<close> "1.IH"(2) [OF \<open>i < length subs\<close>] "1.prems" d take_Suc_conv_app_nth [OF \<open>i < length subs\<close>]
        by (simp add: drop_cancelled.simps [of z i])
    next
      case False
      let ?sid = "fst (subs ! i)"
      let ?e1 = "add_error ?sid ''Poll interrupted by unsubscribe.'' errors"
      obtain e2 st2 where u: "unsubscribe z ?sid True ?e1 st = (e2, st2)" by fastforce
      have al: "si_shouldUnsub (info st2 q) = si_shouldUnsub (info st q)" for q
        using forced_unsubscribe_frame(1) [OF "1.prems"(1), of z ?sid ?e1] u by simp
      have inv2: "ps_inv st2" using ps_inv_unsubscribe [OF "1.prems"(1), of z ?sid True ?e1] u by simp
      have eq: "drop_cancelled z i items subs errors st
          = drop_cancelled z i (remove_at i items) (remove_at i subs) e2 st2"
        using True False u by (simp add: drop_cancelled.simps [of z i items])
      have "remove_at i items = map snd (remove_at i subs)" using "1.prems"(2) by (simp add: map_remove_at)
      moreover have "si_shouldUnsub (info st (snd (subs ! i)))" using False by simp
      note "1.IH"(1) [OF True this refl refl u [symmetric] inv2]
      ultimately show ?thesis using True d False
        by (simp add: eq al take_remove_at drop_remove_at interrupt_def u)
    qed
  next
    case False
    then show ?thesis using "1.prems" by (simp add: drop_cancelled.simps [of z i])
  qed
qed

lemma interrupt_spec:
  assumes "ps_inv st" "find_sub (fst e) st \<in> {None, Some (snd e)}" "interrupt z e (errors, st) = (errors', st')"
  shows "ps_inv st'" "find_sub (fst e) st' = None"
    and "find_sub (fst e) st = Some (snd e) \<Longrightarrow> \<not> zs_open (si_sock (info st' (snd e)))"
    and "q \<noteq> snd e \<Longrightarrow> info st' q = info st q"
    and "\<not> oid_eq k (fst e) \<Longrightarrow> find_sub k st' = find_sub k st"
    and "find_sub k st' \<in> {None, find_sub k st}"
    and "zs_open (si_sock (info st' q)) \<Longrightarrow> zs_open (si_sock (info st q))"
    and "map_find oid_lt k errors = Some m \<Longrightarrow> map_find oid_lt k errors' = Some m"
    and "map_find oid_lt (fst e) errors = None \<Longrightarrow> map_find oid_lt (fst e) errors' = Some ''Poll interrupted by unsubscribe.''"
    and "map_wf oid_lt errors \<Longrightarrow> map_wf oid_lt errors'"
    and "map_wf oid_lt errors \<Longrightarrow> \<not> oid_eq k (fst e) \<Longrightarrow> map_find oid_lt k errors' = map_find oid_lt k errors"
proof -
  note u = assms(3) [unfolded interrupt_def fst_conv snd_conv]
  let ?e1 = "add_error (fst e) ''Poll interrupted by unsubscribe.'' errors"
  have wf: "map_wf oid_lt (ps_subscriptions st)" using assms(1) by (simp add: ps_inv_def)
  show "ps_inv st'" using ps_inv_unsubscribe [OF assms(1), of z "fst e" True ?e1] u by simp
  have tab: "ps_subscriptions st' = map_erase oid_lt (fst e) (ps_subscriptions st)"
    using forced_unsubscribe_frame(2) [OF assms(1), of z "fst e" ?e1] u by simp
  show gone: "find_sub (fst e) st' = None" unfolding tab using wf by (intro oid_order.find_erase_same) (auto simp: oid_order.irrefl)
  show other: "find_sub k st' = find_sub k st" if "\<not> oid_eq k (fst e)" for k
    unfolding tab using that wf by (intro oid_order.find_erase_other) (auto simp: oid_eq_iff)
  show "find_sub k st' \<in> {None, find_sub k st}"
  proof (cases "oid_eq k (fst e)")
    case True
    then have "find_sub k st' = None" unfolding tab using wf by (intro oid_order.find_erase_same) (auto simp: oid_eq_iff)
    then show ?thesis by simp
  qed (use other in blast)
  have heap: "ps_heap st' = (case find_sub (fst e) st of None \<Rightarrow> ps_heap st
      | Some r \<Rightarrow> (ps_heap st)[r := close_sock (info st r)])"
    using u by (auto simp: unsubscribe_def erase_sub_def upd_info_def split: option.splits)
  show "\<not> zs_open (si_sock (info st' (snd e)))" if "find_sub (fst e) st = Some (snd e)"
    using heap that find_sub_valid [OF assms(1) that] by (simp add: close_sock_def)
  show "info st' q = info st q" if "q \<noteq> snd e" using heap assms(2) that by auto
  show "zs_open (si_sock (info st q))" if "zs_open (si_sock (info st' q))"
    using heap that find_sub_valid [OF assms(1)] by (auto simp: nth_list_update close_sock_def split: option.splits if_splits)
  show "map_find oid_lt k errors' = Some m" if "map_find oid_lt k errors = Some m"
  proof -
    have "map_find oid_lt k (fst (unsubscribe z (fst e) True ?e1 st)) = Some m"
      by (rule unsubscribe_errors_keep, rule find_insert_keep) (rule that)
    then show ?thesis using u by simp
  qed
  show "map_find oid_lt (fst e) errors' = Some ''Poll interrupted by unsubscribe.''" if "map_find oid_lt (fst e) errors = None"
  proof -
    have "map_find oid_lt (fst e) ?e1 = Some ''Poll interrupted by unsubscribe.''"
      using that by (simp add: oid_order.find_insert_same oid_order.irrefl)
    then have "map_find oid_lt (fst e) (fst (unsubscribe z (fst e) True ?e1 st)) = Some ''Poll interrupted by unsubscribe.''"
      by (rule unsubscribe_errors_keep)
    then show ?thesis using u by simp
  qed
  show wf': "map_wf oid_lt errors'" if "map_wf oid_lt errors"
    using that u by (auto simp: unsubscribe_def oid_order.map_wf_insert split: option.splits if_splits)
  show "map_find oid_lt k errors' = map_find oid_lt k errors" if "map_wf oid_lt errors" "\<not> oid_eq k (fst e)"
  proof -
    have ne: "oid_lt (fst e) k \<or> oid_lt k (fst e)" using that(2) by (auto simp: oid_eq_iff)
    have "map_wf oid_lt ?e1" using that(1) by (rule oid_order.map_wf_insert)
    then show ?thesis using u that(1)
      by (auto simp: unsubscribe_def oid_order.find_insert_other [OF ne] split: option.splits if_splits)
  qed
qed

lemma interrupts_spec:
  assumes "ps_inv st" "\<forall>e \<in> set dead. find_sub (fst e) st \<in> {None, Some (snd e)}"
    and "map_wf oid_lt errors" "sorted_wrt oid_lt (map fst dead)"
    and "fold (interrupt z) dead (errors, st) = (errors', st')"
  shows "(\<forall>e \<in> set dead. find_sub (fst e) st' = None
      \<and> (find_sub (fst e) st = Some (snd e) \<longrightarrow> \<not> zs_open (si_sock (info st' (snd e))))
      \<and> (map_find oid_lt (fst e) errors = None \<longrightarrow>
           map_find oid_lt (fst e) errors' = Some ''Poll interrupted by unsubscribe.''))
    \<and> (\<forall>q. q \<notin> snd ` set dead \<longrightarrow> info st' q = info st q)
    \<and> (\<forall>k. (\<forall>e \<in> set dead. \<not> oid_eq k (fst e)) \<longrightarrow> find_sub k st' = find_sub k st)
    \<and> (\<forall>k. find_sub k st' \<in> {None, find_sub k st})
    \<and> (\<forall>q. zs_open (si_sock (info st' q)) \<longrightarrow> zs_open (si_sock (info st q)))
    \<and> (\<forall>k m. map_find oid_lt k errors = Some m \<longrightarrow> map_find oid_lt k errors' = Some m)
    \<and> map_wf oid_lt errors'
    \<and> (\<forall>k. (\<forall>e \<in> set dead. \<not> oid_eq k (fst e)) \<longrightarrow> map_find oid_lt k errors' = map_find oid_lt k errors)"
  using assms
proof (induction dead arbitrary: errors st)
  case (Cons e dead)
  obtain e1 st1 where u: "interrupt z e (errors, st) = (e1, st1)" by fastforce
  have e: "find_sub (fst e) st \<in> {None, Some (snd e)}" using Cons.prems(2) by simp
  note s = interrupt_spec [OF Cons.prems(1) e u]
  have ne: "\<not> oid_eq (fst x) (fst e)" if "x \<in> set dead" for x using that Cons.prems(4) by (auto simp: oid_eq_iff)
  have same: "find_sub (fst x) st1 = find_sub (fst x) st" "map_find oid_lt (fst x) e1 = map_find oid_lt (fst x) errors"
    if "x \<in> set dead" for x
    using s(5) [OF ne [OF that]] s(11) [OF Cons.prems(3) ne [OF that]] by auto
  have "\<forall>x \<in> set dead. find_sub (fst x) st1 \<in> {None, Some (snd x)}" using same Cons.prems(2) by auto
  moreover have "sorted_wrt oid_lt (map fst dead)" using Cons.prems(4) by simp
  moreover have "fold (interrupt z) dead (e1, st1) = (errors', st')" using Cons.prems(5) u by simp
  ultimately have IH: "\<And>x. x \<in> set dead \<Longrightarrow> find_sub (fst x) st' = None"
    "\<And>x. x \<in> set dead \<Longrightarrow> find_sub (fst x) st1 = Some (snd x) \<Longrightarrow> \<not> zs_open (si_sock (info st' (snd x)))"
    "\<And>x. x \<in> set dead \<Longrightarrow> map_find oid_lt (fst x) e1 = None \<Longrightarrow>
       map_find oid_lt (fst x) errors' = Some ''Poll interrupted by unsubscribe.''"
    "\<And>q. q \<notin> snd ` set dead \<Longrightarrow> info st' q = info st1 q"
    "\<And>k. \<forall>x \<in> set dead. \<not> oid_eq k (fst x) \<Longrightarrow> find_sub k st' = find_sub k st1"
    "\<And>k. find_sub k st' \<in> {None, find_sub k st1}"
    "\<And>q. zs_open (si_sock (info st' q)) \<Longrightarrow> zs_open (si_sock (info st1 q))"
    "\<And>k m. map_find oid_lt k e1 = Some m \<Longrightarrow> map_find oid_lt k errors' = Some m"
    "map_wf oid_lt errors'"
    "\<And>k. \<forall>x \<in> set dead. \<not> oid_eq k (fst x) \<Longrightarrow> map_find oid_lt k errors' = map_find oid_lt k e1"
    using Cons.IH [OF s(1) _ s(10) [OF Cons.prems(3)]] by blast+
  have "find_sub (fst e) st' = None" using IH(6) [of "fst e"] s(2) by simp
  moreover have "find_sub (fst e) st = Some (snd e) \<Longrightarrow> \<not> zs_open (si_sock (info st' (snd e)))" using s(3) IH(7) by blast
  moreover have "find_sub k st' \<in> {None, find_sub k st}" for k using IH(6) [of k] s(6) [of k] by auto
  moreover have "info st' q = info st q" if "q \<notin> snd ` set (e # dead)" for q using that IH(4) [of q] s(4) [of q] by simp
  moreover have "find_sub k st' = find_sub k st" if "\<forall>x \<in> set (e # dead). \<not> oid_eq k (fst x)" for k
    using that IH(5) [of k] s(5) [of k] by simp
  moreover have "map_find oid_lt k errors' = map_find oid_lt k errors" if "\<forall>x \<in> set (e # dead). \<not> oid_eq k (fst x)" for k
    using that IH(10) [of k] s(11) [OF Cons.prems(3), of k] by simp
  ultimately show ?case using IH(1-3) same IH(7) s(7,8,9) IH(8,9) by (simp only: set_simps ball_simps) auto
qed simp

text \<open>
  The arguments of the waiting loop: the items belong to the subscriptions, whose ids ascend (they come
  from a set) and have no error yet.  They start like this, and the theorem below shows that every
  iteration keeps it.
\<close>

definition poll_shape :: "sref list \<Rightarrow> sub_vector \<Rightarrow> errs \<Rightarrow> bool" where
  "poll_shape items subs errors \<longleftrightarrow> items = map snd subs \<and> sorted_wrt oid_lt (map fst subs)
     \<and> map_wf oid_lt errors \<and> (\<forall>e \<in> set subs. map_find oid_lt (fst e) errors = None)"

lemma getSubscriptions_shape:
  assumes "poll_shape items subs errors" "sorted_wrt oid_lt ids"
    and "\<forall>sid \<in> set ids. (\<forall>e \<in> set subs. oid_lt (fst e) sid) \<and> map_find oid_lt sid errors = None"
    and "getSubscriptions ids items subs errors st = (items', subs', errors', st')"
  shows "poll_shape items' subs' errors'"
  using assms
proof (induction ids arbitrary: items subs errors st)
  case (Cons sid ids)
  have lt: "\<forall>k \<in> set ids. oid_lt sid k" using Cons.prems(2) by simp
  have other: "map_find oid_lt k (add_error sid m errors) = map_find oid_lt k errors"
    if "oid_lt sid k \<or> oid_lt k sid" for k m
    using that Cons.prems(1) by (auto simp: poll_shape_def intro!: oid_order.find_insert_other)
  show ?case
  proof (cases "checkoutSocket sid st")
    case (Pair res st1)
    show ?thesis
    proof (cases res)
      case (Inl m)
      have "poll_shape items subs (add_error sid m errors)"
        using Cons.prems(1,3) other by (auto simp: poll_shape_def oid_order.map_wf_insert)
      moreover have "\<forall>k \<in> set ids. (\<forall>e \<in> set subs. oid_lt (fst e) k) \<and> map_find oid_lt k (add_error sid m errors) = None"
        using Cons.prems(3) lt other by simp
      ultimately show ?thesis using Cons.IH Cons.prems(2,4) Pair Inl by simp
    next
      case (Inr r)
      have "poll_shape (items @ [r]) (subs @ [(sid, r)]) errors"
        using Cons.prems(1,3) by (auto simp: poll_shape_def sorted_wrt_append)
      moreover have "\<forall>k \<in> set ids. (\<forall>e \<in> set (subs @ [(sid, r)]). oid_lt (fst e) k) \<and> map_find oid_lt k errors = None"
        using Cons.prems(3) lt by auto
      ultimately show ?thesis using Cons.IH Cons.prems(2,4) Pair Inr by simp
    qed
  qed
qed simp

lemma poll_starts_in_shape:
  "sorted_wrt oid_lt ids \<Longrightarrow> getSubscriptions ids [] [] [] st = (items, subs, errors, st1) \<Longrightarrow> poll_shape items subs errors"
  using getSubscriptions_shape [of "[]" "[]" "[]" ids st items subs errors st1] by (simp add: poll_shape_def)

lemma poll_shape_live:
  assumes "poll_shape items subs errors" "map_wf oid_lt errors'"
    and "\<forall>e \<in> set (filter P subs). map_find oid_lt (fst e) errors' = map_find oid_lt (fst e) errors"
  shows "poll_shape (map snd (filter P subs)) (filter P subs) errors'"
proof -
  have "sorted_wrt oid_lt (map fst (filter P subs))"
    using assms(1) by (simp add: poll_shape_def sorted_wrt_map sorted_wrt_filter)
  then show ?thesis using assms by (auto simp: poll_shape_def)
qed

lemma sorted_ids_distinct:
  assumes "sorted_wrt oid_lt (map fst subs)" "e \<in> set subs" "x \<in> set subs" "oid_eq (fst e) (fst x)"
  shows "e = x"
  using assms
  by (induction subs) (auto simp: oid_eq_iff)

text \<open>
  C5.  A poll notices unsubscribes after every wait that ends without a message.  Whatever the other
  threads did during the wait, each subscription of the poll they cancelled is then reported as
  interrupted, gone from the table, and its socket is closed; the others are left as they are.  If none
  is left the poll returns at once with the time before this wait; if the limit is reached it checks the
  rest in and asks to be polled again; otherwise it waits again for the rest.  (When a message is ready
  or the timeout is over the poll receives instead and the cancelled subscriptions are not looked at.)
\<close>

theorem unsubscribe_interrupts_poll:
  assumes "poll_shape items subs errors" "0 < timeout" "z_wait z k = NotReady"
    and "ps_inv (z_others z k st)" "\<forall>e \<in> set subs. find_sub (fst e) (z_others z k st) \<in> {None, Some (snd e)}"
  shows "\<exists>errors' st2. (let st1 = z_others z k st; c = min maxPollInterval timeout; live = filter (alive st1) subs in
      (\<forall>e \<in> set subs. if alive st1 e
         then find_sub (fst e) st2 = find_sub (fst e) st1 \<and> info st2 (snd e) = info st1 (snd e)
              \<and> map_find oid_lt (fst e) errors' = None
         else find_sub (fst e) st2 = None
              \<and> (find_sub (fst e) st1 \<noteq> None \<longrightarrow> \<not> zs_open (si_sock (info st2 (snd e))))
              \<and> map_find oid_lt (fst e) errors' = Some ''Poll interrupted by unsubscribe.'')
      \<and> ps_inv st2 \<and> poll_shape (map snd live) live errors'
      \<and> poll_loop z k timeout pollRuntime items subs errors st =
          (if live = [] then
             (st2, Returns \<lparr>pr_messages = [], pr_millisPolled = pollRuntime, pr_pollAgain = False, pr_errors = errors'\<rparr>)
           else if ps_maxTimeoutMillis st2 \<le> pollRuntime + c then
             (endCurrentPolls live st2, Returns \<lparr>pr_messages = [], pr_millisPolled = pollRuntime + c,
                pr_pollAgain = True, pr_errors = errors'\<rparr>)
           else poll_loop z (Suc k) (timeout - c) (pollRuntime + c) (map snd live) live errors' st2))"
proof -
  define st1 where "st1 = z_others z k st"
  define live where "live = filter (alive st1) subs"
  define dead where "dead = filter (\<lambda>e. \<not> alive st1 e) subs"
  obtain errors' st2 where f: "fold (interrupt z) dead (errors, st1) = (errors', st2)" by fastforce
  have inv: "ps_inv st1" and sh: "items = map snd subs" "sorted_wrt oid_lt (map fst subs)" "map_wf oid_lt errors"
    "\<forall>e \<in> set subs. map_find oid_lt (fst e) errors = None"
    using assms(1,4) by (simp_all add: st1_def poll_shape_def)
  have d: "drop_cancelled z 0 items subs errors st1 = (map snd live, live, errors', st2)"
    using drop_cancelled_fold [OF inv sh(1), of z 0 errors] f by (simp add: dead_def live_def Let_def)
  have so: "sorted_wrt oid_lt (map fst dead)" using sh(2) by (simp add: dead_def sorted_wrt_map sorted_wrt_filter)
  have "\<forall>e \<in> set dead. find_sub (fst e) st1 \<in> {None, Some (snd e)}" using assms(5) by (simp add: dead_def st1_def)
  note s = interrupts_spec [OF inv this sh(3) so f]
  have inv2: "ps_inv st2" using drop_cancelled_spec [OF inv sh(1), of z 0 errors] d by auto
  have dead: "find_sub (fst e) st2 = None" "find_sub (fst e) st1 \<noteq> None \<Longrightarrow> \<not> zs_open (si_sock (info st2 (snd e)))"
    "map_find oid_lt (fst e) errors' = Some ''Poll interrupted by unsubscribe.''"
    if "e \<in> set subs" "\<not> alive st1 e" for e
  proof -
    have e: "e \<in> set dead" using that by (simp add: dead_def)
    show "find_sub (fst e) st2 = None" "map_find oid_lt (fst e) errors' = Some ''Poll interrupted by unsubscribe.''"
      using s e sh(4) that by simp_all
    show "\<not> zs_open (si_sock (info st2 (snd e)))" if "find_sub (fst e) st1 \<noteq> None"
      using s e that assms(5) \<open>e \<in> set subs\<close> by (auto simp: st1_def)
  qed
  have live: "find_sub (fst e) st2 = find_sub (fst e) st1" "info st2 (snd e) = info st1 (snd e)"
    "map_find oid_lt (fst e) errors' = map_find oid_lt (fst e) errors" if "e \<in> set subs" "alive st1 e" for e
  proof -
    have ne: "\<forall>x \<in> set dead. \<not> oid_eq (fst e) (fst x)"
      using that sorted_ids_distinct [OF sh(2) that(1)] unfolding dead_def by fastforce
    moreover have "snd e \<notin> snd ` set dead" using that by (auto simp: dead_def)
    ultimately show "find_sub (fst e) st2 = find_sub (fst e) st1" "info st2 (snd e) = info st1 (snd e)"
      "map_find oid_lt (fst e) errors' = map_find oid_lt (fst e) errors" using s by blast+
  qed
  have "poll_shape (map snd live) live errors'"
    unfolding live_def by (rule poll_shape_live [OF assms(1)]) (use s live(3) in auto)
  moreover have "poll_loop z k timeout pollRuntime items subs errors st =
      (let c = min maxPollInterval timeout in if live = [] then
         (st2, Returns \<lparr>pr_messages = [], pr_millisPolled = pollRuntime, pr_pollAgain = False, pr_errors = errors'\<rparr>)
       else if ps_maxTimeoutMillis st2 \<le> pollRuntime + c then
         (endCurrentPolls live st2, Returns \<lparr>pr_messages = [], pr_millisPolled = pollRuntime + c,
            pr_pollAgain = True, pr_errors = errors'\<rparr>)
       else poll_loop z (Suc k) (timeout - c) (pollRuntime + c) (map snd live) live errors' st2)"
    using assms(2,3) d by (simp add: poll_loop.simps [of z k] st1_def [symmetric] Let_def)
  ultimately show ?thesis
    using dead live sh(4) inv2 unfolding Let_def st1_def [symmetric] live_def [symmetric] by (intro exI [of _ errors'] exI [of _ st2]) simp
qed

section \<open>What a poll delivers\<close>

text \<open>
  The messages of one subscription that its filter accepts, projected.  \<open>decides\<close> says that neither
  the filter nor the projection throws on a message.
\<close>

definition decides :: "sub_info \<Rightarrow> zmsg \<Rightarrow> bool" where
  "decides s m = (case filter_matches (si_filter s) (fst (snd m)) of
     Inl _ \<Rightarrow> False
   | Inr False \<Rightarrow> True
   | Inr True \<Rightarrow> (case apply_projection (si_projection s) (fst (snd m)) of Inl _ \<Rightarrow> False | Inr _ \<Rightarrow> True))"

definition delivered :: "oid \<Rightarrow> sub_info \<Rightarrow> zmsg list \<Rightarrow> sub_msg list" where
  "delivered sid s ms =
     map (\<lambda>(frame, message, timestamp). \<lparr>sm_subscriptionId = sid, sm_channel = c_str frame,
            sm_message = projr (apply_projection (si_projection s) message), sm_timestamp = timestamp\<rparr>)
       (filter (\<lambda>m. filter_matches (si_filter s) (fst (snd m)) = Inr True) ms)"

lemma recv_loop_spec:
  assumes "\<forall>m \<in> set ms. decides s m" "pq_inv sm_lt outbox"
  shows "\<exists>outbox'. recv_loop sid s ms outbox = Inr outbox' \<and> pq_inv sm_lt outbox'
    \<and> mset outbox' = mset outbox + mset (delivered sid s ms)"
  using assms
proof (induction ms arbitrary: outbox)
  case (Cons m ms)
  obtain frame message timestamp where m: "m = (frame, message, timestamp)" by (cases m)
  have dec: "decides s (frame, message, timestamp)" using Cons.prems(1) m by simp
  show ?case
  proof (cases "filter_matches (si_filter s) message = Inr True")
    case True
    then obtain msg where msg: "apply_projection (si_projection s) message = Inr msg"
      using dec by (auto simp: decides_def split: sum.splits)
    let ?sm = "\<lparr>sm_subscriptionId = sid, sm_channel = c_str frame, sm_message = msg, sm_timestamp = timestamp\<rparr>"
    have "pq_inv sm_lt (pq_push sm_lt ?sm outbox)" using Cons.prems(2) by (rule outbox.inv_push)
    from Cons.IH [OF _ this] Cons.prems(1) True msg show ?thesis by (auto simp: m delivered_def)
  next
    case False
    then have "filter_matches (si_filter s) message = Inr False"
      using dec by (auto simp: decides_def split: sum.splits bool.splits)
    with Cons.IH [OF _ Cons.prems(2)] Cons.prems(1) show ?thesis by (auto simp: m delivered_def)
  qed
qed (simp add: delivered_def)

lemma checkin_frame [ps_simps]:
  "length (ps_heap (checkinSocket r st)) = length (ps_heap st)"
  "ps_subscriptions (checkinSocket r st) = ps_subscriptions st"
  "ps_maxTimeoutMillis (checkinSocket r st) = ps_maxTimeoutMillis st"
  by (simp_all add: checkinSocket_def ps_simps)

lemma checkin_info:
  "r < length (ps_heap st) \<Longrightarrow> si_filter (info (checkinSocket r st) q) = si_filter (info st q)"
  "r < length (ps_heap st) \<Longrightarrow> si_projection (info (checkinSocket r st) q) = si_projection (info st q)"
  "r < length (ps_heap st) \<Longrightarrow> si_sock (info (checkinSocket r st) q) = si_sock (info st q)"
  "r < length (ps_heap st) \<Longrightarrow> si_inUse (info (checkinSocket r st) q) = (si_inUse (info st q) \<and> q \<noteq> r)"
  by (simp_all add: checkinSocket_def ps_simps)

lemma checkin_delivered:
  assumes "r < length (ps_heap st)"
  shows "delivered sid (info (checkinSocket r st) q) ms = delivered sid (info st q) ms"
    "decides (info (checkinSocket r st) q) = decides (info st q)"
    "sock_recv z q (checkinSocket r st) = sock_recv z q st"
  unfolding delivered_def decides_def fun_eq_iff sock_recv_def checkin_info(1-3) [OF assms] by simp_all

lemma recvMessages_spec:
  assumes "\<forall>(sid, r) \<in> set subs. r < length (ps_heap st) \<and> (\<forall>m \<in> set (fst (sock_recv z r st)). decides (info st r) m)"
    and "pq_inv sm_lt outbox"
  shows "\<exists>st' outbox' errors'. recvMessages z subs outbox errors st = (st', Inr (outbox', errors'))
    \<and> pq_inv sm_lt outbox' \<and> mset outbox' = mset outbox
        + mset (concat (map (\<lambda>(sid, r). delivered sid (info st r) (fst (sock_recv z r st))) subs))
    \<and> (\<forall>q. si_inUse (info st' q) = (si_inUse (info st q) \<and> q \<notin> snd ` set subs))"
  using assms
proof (induction subs arbitrary: outbox errors st)
  case (Cons x subs)
  obtain sid r where x: "x = (sid, r)" by (cases x)
  obtain ms failed where ms: "sock_recv z r st = (ms, failed)" by fastforce
  have r: "r < length (ps_heap st)" "\<forall>m \<in> set ms. decides (info st r) m" using Cons.prems(1) x ms by auto
  obtain outbox1 where o1: "recv_loop sid (info st r) ms outbox = Inr outbox1" "pq_inv sm_lt outbox1"
    "mset outbox1 = mset outbox + mset (delivered sid (info st r) ms)"
    using recv_loop_spec [OF r(2) Cons.prems(2)] by blast
  note ci = checkin_delivered [OF r(1)]
  have pre: "\<forall>(sid', q) \<in> set subs. q < length (ps_heap (checkinSocket r st))
      \<and> (\<forall>m \<in> set (fst (sock_recv z q (checkinSocket r st))). decides (info (checkinSocket r st) q) m)"
    using Cons.prems(1) ci by (auto simp: ps_simps)
  define e1 where "e1 = (if failed then add_error sid ''Error receiving messages from zmq socket.'' errors else errors)"
  obtain st' outbox' errors' where IH:
    "recvMessages z subs outbox1 e1 (checkinSocket r st) = (st', Inr (outbox', errors'))" "pq_inv sm_lt outbox'"
    "mset outbox' = mset outbox1 + mset (concat (map (\<lambda>(sid, r). delivered sid (info st r) (fst (sock_recv z r st))) subs))"
    "\<forall>q. si_inUse (info st' q) = (si_inUse (info st q) \<and> q \<noteq> r \<and> q \<notin> snd ` set subs)"
    using Cons.IH [OF pre o1(2), of e1] unfolding ci checkin_info(4) [OF r(1)] conj_assoc by blast
  have "recvMessages z (x # subs) outbox errors st = (st', Inr (outbox', errors'))"
    using IH(1) o1(1) ms by (simp add: x e1_def)
  moreover have "mset outbox' = mset outbox
      + mset (concat (map (\<lambda>(sid, r). delivered sid (info st r) (fst (sock_recv z r st))) (x # subs)))"
    using IH(3) o1(3) ms by (simp add: x)
  moreover have "\<forall>q. si_inUse (info st' q) = (si_inUse (info st q) \<and> q \<notin> snd ` set (x # subs))"
    using IH(4) by (simp add: x)
  ultimately show ?case using IH(2) by blast
qed simp

text \<open>
  C4.  When filters and projections decide every waiting message, receiving returns without an
  exception: the outbox holds exactly the messages that the filters of the polled subscriptions accept,
  each projected once per subscription, it hands them out in the order of ids, channels and ages, and
  all the polled subscriptions are checked in again.
\<close>

theorem recvMessages_delivers:
  assumes "\<forall>(sid, r) \<in> set subs. r < length (ps_heap st)
      \<and> (\<forall>m \<in> set (fst (sock_recv z r st)). decides (info st r) m)"
  shows "\<exists>st' box errors'. recvMessages z subs [] errors st = (st', Inr (box, errors'))
    \<and> mset box = mset (concat (map (\<lambda>(sid, r). delivered sid (info st r) (fst (sock_recv z r st))) subs))
    \<and> sorted_wrt (\<lambda>m1 m2. \<not> sm_lt m1 m2) box
    \<and> (\<forall>(sid, r) \<in> set subs. \<not> si_inUse (info st' r))"
proof -
  have "pq_inv sm_lt []" by (simp add: pq_inv_def)
  from recvMessages_spec [OF assms this, of errors] obtain st' box errors' where
    "recvMessages z subs [] errors st = (st', Inr (box, errors'))" "pq_inv sm_lt box"
    "mset box = mset (concat (map (\<lambda>(sid, r). delivered sid (info st r) (fst (sock_recv z r st))) subs))"
    "\<forall>q. si_inUse (info st' q) = (si_inUse (info st q) \<and> q \<notin> snd ` set subs)"
    unfolding mset.simps(1) add_0 by blast
  moreover from this(4) have "\<forall>(sid, r) \<in> set subs. \<not> si_inUse (info st' r)" by force
  ultimately show ?thesis unfolding pq_inv_def by blast
qed

section \<open>Witnesses\<close>

text \<open>One subscription to channel \<open>a\<close>, and a library with one message waiting for it.\<close>

definition st_one :: ps_state where
  "st_one = ps_init\<lparr>ps_heap := [new_info ''a'' None None], ps_subscriptions := [(oid_null, 0)]\<rparr>"

definition z_one :: zmq_env where
  "z_one = \<lparr>z_wait = (\<lambda>k. Ready), z_others = (\<lambda>k st. st), z_close_fails = (\<lambda>r. False),
     z_recv = (\<lambda>r. ([(''ab'' @ [NUL], [(''x'', BNumberInt 1)], 7)], False))\<rparr>"

definition z_quiet :: zmq_env where
  "z_quiet = \<lparr>z_wait = (\<lambda>k. NotReady),
     z_others = (\<lambda>k st. if k = 2 then snd (unsubscribe z_one oid_null False [] st) else st),
     z_close_fails = (\<lambda>r. False), z_recv = (\<lambda>r. ([], False))\<rparr>"

definition st_busy :: ps_state where
  "st_busy = upd_info 0 (\<lambda>s. s\<lparr>si_inUse := True\<rparr>) st_one"

lemmas st_one_simps = st_one_def z_one_def z_quiet_def ps_init_def new_info_def

lemma st_one_inv: "ps_inv st_one"
  by (simp add: st_one_simps ps_inv_def)

lemma poll_bounds_witness:
  "\<exists>st' r. poll z_one [oid_null] 2500 st_one = (st', Inr r) \<and> length (pr_messages r) = 1
     \<and> 0 \<le> pr_millisPolled r \<and> pr_millisPolled r \<le> 2500"
proof -
  define res where "res = poll z_one [oid_null] 2500 st_one"
  have ok: "\<exists>r. snd res = Inr r \<and> length (pr_messages r) = 1"
    by (simp add: res_def poll_def st_one_simps checkoutSocket_def poll_loop.simps upd_info_def
        sock_recv_def filter_matches_def apply_projection_def)
  then obtain r where r: "res = (fst res, Inr r)" "length (pr_messages r) = 1" by (metis prod.collapse)
  have "0 \<le> ps_maxTimeoutMillis st_one" by (simp add: st_one_simps)
  from poll_bounds [OF r(1) [unfolded res_def] this] r show ?thesis
    by (auto simp: res_def st_one_simps)
qed

lemma poll_wait_count_witness:
  "poll (z_one\<lparr>z_wait := (\<lambda>j. if j < 600 then Ready else NotReady), z_others := (\<lambda>j st. st)\<rparr>) [oid_null] (-1) st_one
   = poll z_one [oid_null] (-1) st_one"
  by (rule poll_wait_count [where n = 600]) (simp_all add: st_one_simps maxPollInterval_def)

lemma unsubscribe_interrupts_poll_witness:
  "\<exists>errors st'. poll_loop z_quiet 2 8000 2000 [0] [(oid_null, 0)] [] st_busy =
      (st', Returns \<lparr>pr_messages = [], pr_millisPolled = 2000, pr_pollAgain = False, pr_errors = errors\<rparr>)
    \<and> map_find oid_lt oid_null errors = Some ''Poll interrupted by unsubscribe.''
    \<and> find_sub oid_null st' = None \<and> \<not> zs_open (si_sock (info st' 0))"
proof -
  have 1: "poll_shape [0] [(oid_null, 0)] []" by (simp add: poll_shape_def)
  have 2: "z_wait z_quiet 2 = NotReady" by (simp add: z_quiet_def)
  have o: "z_others z_quiet 2 st_busy = upd_info 0 (\<lambda>s. s\<lparr>si_shouldUnsub := True\<rparr>) st_busy"
    by (simp add: st_one_simps st_busy_def unsubscribe_def upd_info_def)
  have 3: "ps_inv (z_others z_quiet 2 st_busy)" unfolding o by (simp add: st_busy_def ps_simps st_one_inv)
  have 4: "\<forall>e \<in> set [(oid_null, 0)]. find_sub (fst e) (z_others z_quiet 2 st_busy) \<in> {None, Some (snd e)}"
    unfolding o by (simp add: st_busy_def st_one_simps upd_info_def)
  have dead: "\<not> alive (z_others z_quiet 2 st_busy) (oid_null, 0)" "find_sub oid_null (z_others z_quiet 2 st_busy) = Some 0"
    unfolding o by (simp_all add: st_busy_def st_one_simps upd_info_def)
  from unsubscribe_interrupts_poll [OF 1 _ 2 3 4, of 8000 2000] dead show ?thesis
    by (auto simp: Let_def)
qed

lemma recvMessages_delivers_witness:
  "\<exists>st' box errors'. recvMessages z_one [(oid_null, 0)] [] [] st_one = (st', Inr (box, errors'))
    \<and> mset box = mset (concat (map (\<lambda>(sid, r). delivered sid (info st_one r) (fst (sock_recv z_one r st_one))) [(oid_null, 0)]))
    \<and> sorted_wrt (\<lambda>m1 m2. \<not> sm_lt m1 m2) box
    \<and> (\<forall>(sid, r) \<in> set [(oid_null, 0)]. \<not> si_inUse (info st' r))"
  by (rule recvMessages_delivers)
     (simp add: st_one_simps decides_def filter_matches_def apply_projection_def sock_recv_def)

end
