(* ===== verification/PubSubSystem.thy ===== *)
theory PubSubSystem
  imports PubSub
begin

text \<open>
  The subscription table under concurrent commands: any number of threads poll, subscribe and
  unsubscribe while the cleanup thread runs.  Each thread has its own vector of checked-out
  subscriptions (the local \<open>subs\<close> of \<open>PubSub::poll\<close>).  The flags \<open>inUse\<close>, \<open>shouldUnsub\<close> and
  \<open>polledRecently\<close> of a subscription are bit-fields of one memory word (\<open>src/src/mongo/db/pubsub.h\<close>), so
  an assignment to one of them loads the word and stores it with that bit changed.  \<open>checkinSocket\<close> does
  two such assignments without the lock of the table; the loads and stores of the threads are steps of
  their own here.  Everything else a thread does under the lock is one step.
\<close>

section \<open>The flags of a subscription\<close>

record flags =
  fl_inUse :: bool
  fl_shouldUnsub :: bool
  fl_polledRecently :: bool

datatype flag_write = SetInUse | SetShouldUnsub | ClearPolled | SetPolled | ClearInUse

definition flags_of :: "sub_info \<Rightarrow> flags" where
  "flags_of i = \<lparr>fl_inUse = si_inUse i, fl_shouldUnsub = si_shouldUnsub i, fl_polledRecently = si_polledRecently i\<rparr>"

definition put_flags :: "flags \<Rightarrow> sub_info \<Rightarrow> sub_info" where
  "put_flags fl i = i\<lparr>si_inUse := fl_inUse fl, si_shouldUnsub := fl_shouldUnsub fl,
     si_polledRecently := fl_polledRecently fl\<rparr>"

fun write_flag :: "flag_write \<Rightarrow> flags \<Rightarrow> flags" where
  "write_flag SetInUse fl = fl\<lparr>fl_inUse := True\<rparr>"
| "write_flag SetShouldUnsub fl = fl\<lparr>fl_shouldUnsub := True\<rparr>"
| "write_flag ClearPolled fl = fl\<lparr>fl_polledRecently := False\<rparr>"
| "write_flag SetPolled fl = fl\<lparr>fl_polledRecently := True\<rparr>"
| "write_flag ClearInUse fl = fl\<lparr>fl_inUse := False\<rparr>"

text \<open>The assignments of \<open>checkoutSocket\<close>, \<open>unsubscribe\<close> and the cleanup thread run under the lock.\<close>

fun lock_write :: "flag_write \<Rightarrow> bool" where
  "lock_write SetInUse = True"
| "lock_write SetShouldUnsub = True"
| "lock_write ClearPolled = True"
| "lock_write SetPolled = False"
| "lock_write ClearInUse = False"

text \<open>Where a thread is: between two assignments, before the load of one, or before its store.\<close>

datatype access = Idle | Want flag_write oid sref | Loaded flag_write oid sref flags

fun has_lock :: "access \<Rightarrow> bool" where
  "has_lock Idle = False"
| "has_lock (Want w sid r) = lock_write w"
| "has_lock (Loaded w sid r fl) = lock_write w"

section \<open>Steps\<close>

text \<open>\<open>sy_round\<close> holds the entries a running round of the cleanup thread has not looked at yet.\<close>

record sys =
  sy_state :: ps_state
  sy_subs :: "nat \<Rightarrow> sub_vector"
  sy_access :: "nat \<Rightarrow> access"
  sy_round :: "sub_vector option"
  sy_abandoned :: "nat \<Rightarrow> sref set"

definition sys_init :: sys where
  "sys_init = \<lparr>sy_state = ps_init, sy_subs = (\<lambda>t. []), sy_access = (\<lambda>t. Idle), sy_round = None,
     sy_abandoned = (\<lambda>t. {})\<rparr>"

definition set_subs :: "nat \<Rightarrow> sub_vector \<Rightarrow> sys \<Rightarrow> sys" where
  "set_subs t subs s = s\<lparr>sy_subs := (sy_subs s)(t := subs)\<rparr>"

definition set_state :: "ps_state \<Rightarrow> sys \<Rightarrow> sys" where
  "set_state st s = s\<lparr>sy_state := st\<rparr>"

definition set_access :: "nat \<Rightarrow> access \<Rightarrow> sys \<Rightarrow> sys" where
  "set_access t a s = s\<lparr>sy_access := (sy_access s)(t := a)\<rparr>"

definition set_round :: "sub_vector option \<Rightarrow> sys \<Rightarrow> sys" where
  "set_round es s = s\<lparr>sy_round := es\<rparr>"

definition held :: "sys \<Rightarrow> nat \<Rightarrow> sref set" where
  "held s t = snd ` set (sy_subs s t)"

definition give_up :: "nat \<Rightarrow> sys \<Rightarrow> sys" where
  "give_up t s = set_subs t [] (s\<lparr>sy_abandoned := (sy_abandoned s)(t := sy_abandoned s t \<union> held s t)\<rparr>)"

definition writing :: "sys \<Rightarrow> bool" where
  "writing s \<longleftrightarrow> (\<exists>t. has_lock (sy_access s t))"

definition locked :: "sys \<Rightarrow> bool" where
  "locked s \<longleftrightarrow> sy_round s \<noteq> None \<or> writing s"

text \<open>Thread 0 is the cleanup thread.  What a thread does after the store of an assignment:\<close>

definition cleaner :: nat where
  "cleaner = 0"

fun after_write :: "nat \<Rightarrow> flag_write \<Rightarrow> oid \<Rightarrow> sref \<Rightarrow> sys \<Rightarrow> sys" where
  "after_write t SetInUse sid r s = set_subs t (sy_subs s t @ [(sid, r)]) (set_access t Idle s)"
| "after_write t SetShouldUnsub sid r s = set_access t Idle s"
| "after_write t ClearPolled sid r s = set_access t Idle s"
| "after_write t SetPolled sid r s = set_access t (Want ClearInUse sid r) s"
| "after_write t ClearInUse sid r s = set_subs t (tl (sy_subs s t)) (set_access t Idle s)"

text \<open>
  \<open>checkout\<close> starts one round of \<open>getSubscriptions\<close>, \<open>interrupt\<close> is one removal in the waiting loop,
  \<open>checkin\<close> starts the end of one round of \<open>recvMessages\<close> or \<open>endCurrentPolls\<close>.  \<open>abandon\<close> is an
  exception of a filter or a projection that leaves \<open>recvMessages\<close>: the subscriptions not yet reached stay
  checked out.  After \<open>cleanup_drop\<close> the iterator of the round is invalid; the round counts as over.
\<close>

inductive ps_step :: "sys \<Rightarrow> sys \<Rightarrow> bool" where
  subscribe_step:
    "\<not> locked s \<Longrightarrow> subscribe env zerr now mp channel f p (sy_state s) = (st', res) \<Longrightarrow>
     ps_step s (set_state st' s)"
| checkout:
    "\<not> locked s \<Longrightarrow> sy_access s t = Idle \<Longrightarrow> fst (checkoutSocket sid (sy_state s)) = Inr r \<Longrightarrow>
     ps_step s (set_access t (Want SetInUse sid r) s)"
| unsubscribe_flag:
    "\<not> locked s \<Longrightarrow> sy_access s t = Idle \<Longrightarrow> find_sub sid (sy_state s) = Some r \<Longrightarrow>
     si_inUse (info (sy_state s) r) \<Longrightarrow> ps_step s (set_access t (Want SetShouldUnsub sid r) s)"
| unsubscribe_step:
    "\<not> locked s \<Longrightarrow> (\<And>r. find_sub sid (sy_state s) = Some r \<Longrightarrow> \<not> si_inUse (info (sy_state s) r)) \<Longrightarrow>
     unsubscribe z sid False errors (sy_state s) = (errors', st') \<Longrightarrow> ps_step s (set_state st' s)"
| interrupt:
    "\<not> locked s \<Longrightarrow> sy_access s t = Idle \<Longrightarrow> i < length (sy_subs s t) \<Longrightarrow>
     si_shouldUnsub (info (sy_state s) (snd (sy_subs s t ! i))) \<Longrightarrow>
     unsubscribe z (fst (sy_subs s t ! i)) True errors (sy_state s) = (errors', st') \<Longrightarrow>
     ps_step s (set_subs t (remove_at i (sy_subs s t)) (set_state st' s))"
| checkin:
    "sy_access s t = Idle \<Longrightarrow> sy_subs s t = (sid, r) # rest \<Longrightarrow>
     ps_step s (set_access t (Want SetPolled sid r) s)"
| abandon:
    "sy_access s t = Idle \<Longrightarrow> sy_subs s t = (sid, r) # rest \<Longrightarrow>
     recv_loop sid (info (sy_state s) r) ms outbox = Inl x \<Longrightarrow> ps_step s (give_up t s)"
| cleanup_begin:
    "\<not> locked s \<Longrightarrow> ps_step s (set_round (Some (ps_subscriptions (sy_state s))) s)"
| cleanup_reset:
    "sy_round s = Some ((sid, r) # es) \<Longrightarrow> \<not> writing s \<Longrightarrow> sy_access s cleaner = Idle \<Longrightarrow>
     si_polledRecently (info (sy_state s) r) \<Longrightarrow>
     ps_step s (set_access cleaner (Want ClearPolled sid r) (set_round (Some es) s))"
| cleanup_drop:
    "sy_round s = Some ((sid, r) # es) \<Longrightarrow> \<not> writing s \<Longrightarrow> \<not> si_polledRecently (info (sy_state s) r) \<Longrightarrow>
     ps_step s (set_state (cleanup_entry (sid, r) (sy_state s)) (set_round None s))"
| cleanup_end:
    "sy_round s = Some [] \<Longrightarrow> \<not> writing s \<Longrightarrow> ps_step s (set_round None s)"
| load:
    "sy_access s t = Want w sid r \<Longrightarrow>
     ps_step s (set_access t (Loaded w sid r (flags_of (info (sy_state s) r))) s)"
| store:
    "sy_access s t = Loaded w sid r fl \<Longrightarrow>
     ps_step s (after_write t w sid r (set_state (upd_info r (put_flags (write_flag w fl)) (sy_state s)) s))"

inductive reachable :: "sys \<Rightarrow> bool" where
  start: "reachable sys_init"
| step: "reachable s \<Longrightarrow> ps_step s s' \<Longrightarrow> reachable s'"

inductive_cases ps_stepE: "ps_step s s'"

section \<open>Invariant\<close>

text \<open>
  A thread that assigns to \<open>inUse\<close> or \<open>polledRecently\<close> at a check-in holds the subscription; one that
  checks it out found it free; and the word a thread loaded has \<open>inUse\<close> set if the subscription is held.
\<close>

fun write_ok :: "sys \<Rightarrow> nat \<Rightarrow> flag_write \<Rightarrow> oid \<Rightarrow> sref \<Rightarrow> bool" where
  "write_ok s t SetInUse sid r = (\<not> si_inUse (info (sy_state s) r)
     \<and> (\<forall>k. (k, r) \<in> set (ps_subscriptions (sy_state s)) \<longrightarrow> oid_eq k sid))"
| "write_ok s t SetPolled sid r = (\<exists>rest. sy_subs s t = (sid, r) # rest)"
| "write_ok s t ClearInUse sid r = (\<exists>rest. sy_subs s t = (sid, r) # rest)"
| "write_ok s t w sid r = True"

fun access_ok :: "sys \<Rightarrow> nat \<Rightarrow> access \<Rightarrow> bool" where
  "access_ok s t Idle = True"
| "access_ok s t (Want w sid r) = (r < length (ps_heap (sy_state s)) \<and> write_ok s t w sid r)"
| "access_ok s t (Loaded w sid r fl) = (r < length (ps_heap (sy_state s)) \<and> write_ok s t w sid r
     \<and> ((\<exists>u. r \<in> held s u) \<longrightarrow> fl_inUse fl))"

text \<open>
  What a thread holds is allocated and marked in use, no two threads hold the same subscription, no
  thread holds one twice, the table knows a held subscription under no id but the holder's, and at most
  one thread is in an assignment under the lock.
\<close>

definition sys_inv :: "sys \<Rightarrow> bool" where
  "sys_inv s \<longleftrightarrow> ps_inv (sy_state s)
     \<and> (\<forall>t. \<forall>r \<in> held s t. r < length (ps_heap (sy_state s)) \<and> si_inUse (info (sy_state s) r))
     \<and> (\<forall>t. distinct (map snd (sy_subs s t)))
     \<and> (\<forall>t u. t \<noteq> u \<longrightarrow> held s t \<inter> held s u = {})
     \<and> (\<forall>t sid r k. (sid, r) \<in> set (sy_subs s t) \<longrightarrow> (k, r) \<in> set (ps_subscriptions (sy_state s)) \<longrightarrow> oid_eq k sid)
     \<and> (\<forall>t. access_ok s t (sy_access s t))
     \<and> (\<forall>t u. has_lock (sy_access s t) \<longrightarrow> has_lock (sy_access s u) \<longrightarrow> t = u)
     \<and> (\<forall>es. sy_round s = Some es \<longrightarrow> set es \<subseteq> set (ps_subscriptions (sy_state s)))"

lemma sys_frame [simp]:
  "sy_state (set_subs t subs s) = sy_state s" "sy_state (set_state st s) = st"
  "sy_state (set_access t a s) = sy_state s" "sy_state (set_round es s) = sy_state s"
  "sy_subs (set_subs t subs s) = (sy_subs s)(t := subs)" "sy_subs (set_state st s) = sy_subs s"
  "sy_subs (set_access t a s) = sy_subs s" "sy_subs (set_round es s) = sy_subs s"
  "sy_access (set_subs t subs s) = sy_access s" "sy_access (set_state st s) = sy_access s"
  "sy_access (set_access t a s) = (sy_access s)(t := a)" "sy_access (set_round es s) = sy_access s"
  "sy_round (set_subs t subs s) = sy_round s" "sy_round (set_state st s) = sy_round s"
  "sy_round (set_access t a s) = sy_round s" "sy_round (set_round es s) = es"
  "sy_abandoned (set_subs t subs s) = sy_abandoned s" "sy_abandoned (set_state st s) = sy_abandoned s"
  "sy_abandoned (set_access t a s) = sy_abandoned s" "sy_abandoned (set_round es s) = sy_abandoned s"
  "held (set_subs t subs s) = (held s)(t := snd ` set subs)" "held (set_state st s) = held s"
  "held (set_access t a s) = held s" "held (set_round es s) = held s"
  by (auto simp: set_subs_def set_state_def set_access_def set_round_def held_def fun_eq_iff)

lemma give_up_frame [simp]:
  "sy_state (give_up t s) = sy_state s" "sy_subs (give_up t s) = (sy_subs s)(t := [])"
  "sy_access (give_up t s) = sy_access s" "sy_round (give_up t s) = sy_round s"
  "held (give_up t s) = (held s)(t := {})"
  "sy_abandoned (give_up t s) = (sy_abandoned s)(t := sy_abandoned s t \<union> held s t)"
  by (auto simp: give_up_def set_subs_def held_def fun_eq_iff)

lemma put_flags_simps [simp]:
  "si_inUse (put_flags fl i) = fl_inUse fl" "si_shouldUnsub (put_flags fl i) = fl_shouldUnsub fl"
  "si_polledRecently (put_flags fl i) = fl_polledRecently fl" "si_sock (put_flags fl i) = si_sock i"
  by (simp_all add: put_flags_def)

lemma sys_inv_init: "sys_inv sys_init"
  by (simp add: sys_inv_def sys_init_def held_def)

lemma sys_invD:
  assumes "sys_inv s"
  shows sys_inv_ps: "ps_inv (sy_state s)"
    and sys_inv_valid: "r \<in> held s t \<Longrightarrow> r < length (ps_heap (sy_state s))"
    and sys_inv_inUse: "r \<in> held s t \<Longrightarrow> si_inUse (info (sy_state s) r)"
    and sys_inv_distinct: "distinct (map snd (sy_subs s t))"
    and sys_inv_disjoint: "r \<in> held s t \<Longrightarrow> r \<in> held s u \<Longrightarrow> t = u"
    and sys_inv_key: "(sid, r) \<in> set (sy_subs s t) \<Longrightarrow> (k, r) \<in> set (ps_subscriptions (sy_state s)) \<Longrightarrow> oid_eq k sid"
    and sys_inv_access: "access_ok s t (sy_access s t)"
    and sys_inv_lock: "has_lock (sy_access s t) \<Longrightarrow> has_lock (sy_access s u) \<Longrightarrow> t = u"
    and sys_inv_round: "sy_round s = Some es \<Longrightarrow> set es \<subseteq> set (ps_subscriptions (sy_state s))"
    and sys_inv_table_valid: "(k, r) \<in> set (ps_subscriptions (sy_state s)) \<Longrightarrow> r < length (ps_heap (sy_state s))"
  using assms unfolding sys_inv_def ps_inv_def by (blast, blast, blast, blast, blast, blast, blast, blast, blast, fastforce)

lemma sys_invI:
  assumes "ps_inv (sy_state s)"
    and "\<And>t r. r \<in> held s t \<Longrightarrow> r < length (ps_heap (sy_state s)) \<and> si_inUse (info (sy_state s) r)"
    and "\<And>t. distinct (map snd (sy_subs s t))"
    and "\<And>t u r. r \<in> held s t \<Longrightarrow> r \<in> held s u \<Longrightarrow> t = u"
    and "\<And>t sid r k. (sid, r) \<in> set (sy_subs s t) \<Longrightarrow> (k, r) \<in> set (ps_subscriptions (sy_state s)) \<Longrightarrow> oid_eq k sid"
    and "\<And>t. access_ok s t (sy_access s t)"
    and "\<And>t u. has_lock (sy_access s t) \<Longrightarrow> has_lock (sy_access s u) \<Longrightarrow> t = u"
    and "\<And>es. sy_round s = Some es \<Longrightarrow> set es \<subseteq> set (ps_subscriptions (sy_state s))"
  shows "sys_inv s"
  using assms unfolding sys_inv_def by blast

section \<open>Steps keep the invariant\<close>

lemma access_ok_frame [simp]:
  "access_ok (set_access t a s) u b = access_ok s u b" "access_ok (set_round es s) u b = access_ok s u b"
proof -
  have "write_ok (set_access t a s) u w sid r = write_ok s u w sid r" "write_ok (set_round es s) u w sid r = write_ok s u w sid r"
    for w sid r by (cases w; simp)+
  then show "access_ok (set_access t a s) u b = access_ok s u b" "access_ok (set_round es s) u b = access_ok s u b"
    by (cases b; simp)+
qed

lemma sys_inv_set_access:
  assumes inv: "sys_inv s" and "access_ok s t a" "has_lock a \<Longrightarrow> \<not> writing s \<or> has_lock (sy_access s t)"
  shows "sys_inv (set_access t a s)"
proof (rule sys_invI; unfold sys_frame access_ok_frame)
  fix u v
  show "access_ok s u (((sy_access s)(t := a)) u)" using assms(2) sys_inv_access [OF inv] by simp
  show "u = v" if "has_lock (((sy_access s)(t := a)) u)" "has_lock (((sy_access s)(t := a)) v)"
    using that assms(3) sys_inv_lock [OF inv, of u v] sys_inv_lock [OF inv, of u t] sys_inv_lock [OF inv, of v t]
    by (auto simp: writing_def split: if_splits)
qed (use sys_invD [OF inv] in blast)+

lemma sys_inv_set_round:
  assumes inv: "sys_inv s" and "\<And>xs. es = Some xs \<Longrightarrow> set xs \<subseteq> set (ps_subscriptions (sy_state s))"
  shows "sys_inv (set_round es s)"
  by (rule sys_invI; unfold sys_frame access_ok_frame) (use sys_invD [OF inv] assms(2) in blast)+

text \<open>An assignment without the lock does not depend on the table.\<close>

lemma access_ok_unlocked:
  assumes "access_ok s t a" "\<not> has_lock a" "length (ps_heap (sy_state s)) \<le> length (ps_heap (sy_state s'))"
    and "sy_subs s' t = sy_subs s t" "\<And>r. (\<exists>u. r \<in> held s' u) \<Longrightarrow> (\<exists>u. r \<in> held s u)"
  shows "access_ok s' t a"
proof -
  have "write_ok s' t w sid r" if "write_ok s t w sid r" "\<not> lock_write w" for w sid r
    using that assms(4) by (cases w) auto
  then show ?thesis using assms by (cases a) (auto simp del: write_ok.simps)
qed

text \<open>A step of the table that changes no \<open>inUse\<close> flag keeps the invariant.\<close>

lemma sys_inv_table:
  assumes inv: "sys_inv s" and free: "\<not> writing s" "sy_round s = None"
    and "ps_inv st'" "length (ps_heap (sy_state s)) \<le> length (ps_heap st')"
    and use: "\<And>r. r < length (ps_heap (sy_state s)) \<Longrightarrow> si_inUse (info st' r) = si_inUse (info (sy_state s) r)"
    and tab: "\<And>k r. (k, r) \<in> set (ps_subscriptions st') \<Longrightarrow> (k, r) \<in> set (ps_subscriptions (sy_state s))
           \<or> length (ps_heap (sy_state s)) \<le> r"
  shows "sys_inv (set_state st' s)"
proof (rule sys_invI)
  let ?s = "set_state st' s"
  show "ps_inv (sy_state ?s)" using assms(4) by simp
  fix t u r
  show "r < length (ps_heap (sy_state ?s)) \<and> si_inUse (info (sy_state ?s) r)" if "r \<in> held ?s t"
    using that sys_inv_valid [OF inv, of r t] sys_inv_inUse [OF inv, of r t] assms(5) use by simp
  show "distinct (map snd (sy_subs ?s t))" using sys_inv_distinct [OF inv] by simp
  show "t = u" if "r \<in> held ?s t" "r \<in> held ?s u" using sys_inv_disjoint [OF inv] that by simp
  show "oid_eq k sid" if h: "(sid, r) \<in> set (sy_subs ?s t)" and k: "(k, r) \<in> set (ps_subscriptions (sy_state ?s))" for sid k
  proof -
    have "r \<in> held s t" using h by (force simp: held_def)
    with tab [of k r] k sys_inv_valid [OF inv] have "(k, r) \<in> set (ps_subscriptions (sy_state s))" by fastforce
    with h show ?thesis using sys_inv_key [OF inv] by simp
  qed
  have "\<not> has_lock (sy_access s t)" using free(1) by (simp add: writing_def)
  then show "access_ok ?s t (sy_access ?s t)"
    using access_ok_unlocked [OF sys_inv_access [OF inv, of t], of ?s] assms(5) by simp
  show "t = u" if "has_lock (sy_access ?s t)" "has_lock (sy_access ?s u)" using that free(1) by (auto simp: writing_def)
  show "set es \<subseteq> set (ps_subscriptions (sy_state ?s))" if "sy_round ?s = Some es" for es using that free(2) by simp
qed

lemma remove_at_set: "set (remove_at i xs) \<subseteq> set xs"
  by (auto simp: remove_at_def dest: in_set_takeD in_set_dropD)

lemma remove_at_distinct: "distinct xs \<Longrightarrow> distinct (remove_at i xs)"
  using set_take_disj_set_drop_if_distinct [of xs i "Suc i"] by (simp add: remove_at_def)

lemma sys_inv_unsubscribe:
  assumes "sys_inv s" "\<not> locked s" "unsubscribe z sid force errors (sy_state s) = (errors', st')"
    "\<And>r. find_sub sid (sy_state s) = Some r \<Longrightarrow> force \<or> \<not> si_inUse (info (sy_state s) r)"
  shows "sys_inv (set_state st' s)"
proof (rule sys_inv_table [OF assms(1)])
  note ps = sys_inv_ps [OF assms(1)]
  show "\<not> writing s" "sy_round s = None" using assms(2) by (auto simp: locked_def)
  show "ps_inv st'" using ps_inv_unsubscribe [OF ps, of z sid force errors] assms(3) by simp
  note fr = unsubscribe_frame [OF ps, of z sid force errors, unfolded assms(3) snd_conv]
  show "length (ps_heap (sy_state s)) \<le> length (ps_heap st')" by (simp add: fr)
  show "si_inUse (info st' r) = si_inUse (info (sy_state s) r)" for r by (rule fr)
  have "set (ps_subscriptions st') \<subseteq> set (ps_subscriptions (sy_state s))"
    using assms(3) set_map_erase [of oid_lt sid "ps_subscriptions (sy_state s)"]
    by (auto simp: unsubscribe_def ps_simps split: option.splits if_splits)
  then show "(k, r) \<in> set (ps_subscriptions st') \<Longrightarrow> (k, r) \<in> set (ps_subscriptions (sy_state s))
      \<or> length (ps_heap (sy_state s)) \<le> r" for k r
    by blast
qed

lemma sys_inv_cleanup_drop:
  assumes "sys_inv s" "sy_round s = Some ((sid, r) # es)" "\<not> writing s"
  shows "sys_inv (set_state (cleanup_entry (sid, r) (sy_state s)) (set_round None s))"
proof -
  have "(sid, r) \<in> set (ps_subscriptions (sy_state s))" using sys_inv_round [OF assms(1,2)] by simp
  then have r: "snd (sid, r) < length (ps_heap (sy_state s))" using sys_inv_table_valid [OF assms(1)] by simp
  note fr = cleanup_entry_frame [OF r]
  have sub: "set (ps_subscriptions (cleanup_entry (sid, r) (sy_state s))) \<subseteq> set (ps_subscriptions (sy_state s))"
    using set_map_erase [of oid_lt sid "ps_subscriptions (sy_state s)"] by (auto simp: cleanup_entry_def ps_simps)
  have "sys_inv (set_round None s)" using assms(1) by (rule sys_inv_set_round) simp
  then show ?thesis
    by (rule sys_inv_table) (use assms(3) sys_inv_ps [OF assms(1)] fr sub in \<open>auto simp: writing_def\<close>)
qed

lemma subscribe_cases:
  assumes "subscribe env zerr now mp channel f p st = (st', res)"
  obtains (fail) inc where "st' = st\<lparr>ps_oidInc := inc\<rparr>"
  | (ok) inc sid mf mp' where "st' = st\<lparr>ps_oidInc := inc, ps_heap := ps_heap st @ [new_info channel mf mp'],
      ps_subscriptions := map_insert oid_lt sid (length (ps_heap st)) (ps_subscriptions st)\<rparr>" "res = Inr sid"
  using assms by (auto simp: subscribe_def Let_def split: prod.splits option.splits sum.splits)

lemma sys_inv_subscribe:
  assumes "sys_inv s" "\<not> locked s" "subscribe env zerr now mp channel f p (sy_state s) = (st', res)"
  shows "sys_inv (set_state st' s)"
proof (rule sys_inv_table [OF assms(1)])
  show "\<not> writing s" "sy_round s = None" using assms(2) by (auto simp: locked_def)
  show "ps_inv st'"
    using ps_inv_subscribe [OF sys_inv_ps [OF assms(1)], of env zerr now mp channel f p] assms(3) by simp
  show "length (ps_heap (sy_state s)) \<le> length (ps_heap st')"
    using assms(3) by (cases rule: subscribe_cases) auto
  show "si_inUse (info st' r) = si_inUse (info (sy_state s) r)" if "r < length (ps_heap (sy_state s))" for r
    using assms(3) that by (cases rule: subscribe_cases) (auto simp: nth_append)
  show "(k, r) \<in> set (ps_subscriptions (sy_state s)) \<or> length (ps_heap (sy_state s)) \<le> r"
    if "(k, r) \<in> set (ps_subscriptions st')" for k r
    using assms(3)
  proof (cases rule: subscribe_cases)
    case (ok inc sid mf mp')
    then show ?thesis
      using that set_map_insert [of oid_lt sid "length (ps_heap (sy_state s))" "ps_subscriptions (sy_state s)"] by auto
  qed (use that in auto)
qed

lemma checkoutSocket_Inr:
  assumes "fst (checkoutSocket sid st) = Inr r"
  shows "find_sub sid st = Some r" "\<not> si_inUse (info st r)" "\<not> si_shouldUnsub (info st r)"
    "snd (checkoutSocket sid st) = upd_info r (\<lambda>s. s\<lparr>si_inUse := True\<rparr>) st"
  using assms by (auto simp: checkoutSocket_def split: option.splits if_splits)

lemma found_key:
  assumes "ps_inv st" "find_sub sid st = Some r" "(k, r) \<in> set (ps_subscriptions st)"
  shows "oid_eq k sid"
proof -
  obtain k' where k': "(k', r) \<in> set (ps_subscriptions st)" "\<not> oid_lt sid k'" "\<not> oid_lt k' sid"
    using map_find_in_set [OF assms(2)] by blast
  have "inj_on snd (set (ps_subscriptions st))" using assms(1) by (simp add: ps_inv_def distinct_map)
  then have "(k', r) = (k, r)" using inj_onD [of snd _ "(k', r)" "(k, r)"] k'(1) assms(3) by simp
  with k' show ?thesis by (simp add: oid_eq_iff)
qed

lemma sys_inv_checkout:
  assumes inv: "sys_inv s" and "\<not> locked s" and co: "fst (checkoutSocket sid (sy_state s)) = Inr r"
  shows "sys_inv (set_access t (Want SetInUse sid r) s)"
  using find_sub_valid [OF sys_inv_ps [OF inv] checkoutSocket_Inr(1) [OF co]] checkoutSocket_Inr(2) [OF co]
    found_key [OF sys_inv_ps [OF inv] checkoutSocket_Inr(1) [OF co]] assms(2)
  by (intro sys_inv_set_access [OF inv]) (auto simp: locked_def)

text \<open>A thread between two assignments may forget some of its subscriptions.\<close>

lemma sys_inv_drop:
  assumes inv: "sys_inv s" and s': "sy_state s' = sy_state s" "sy_subs s' = (sy_subs s)(t := subs')"
      "sy_access s' = sy_access s" "sy_round s' = sy_round s"
    and idle: "sy_access s t = Idle" and sub: "set subs' \<subseteq> set (sy_subs s t)" and dist: "distinct (map snd subs')"
  shows "sys_inv s'"
proof (rule sys_invI; (unfold s')?)
  have hsub: "held s' u \<subseteq> held s u" for u using sub by (auto simp: s' held_def)
  show "ps_inv (sy_state s)" using inv by (rule sys_inv_ps)
  fix u v r
  show "r < length (ps_heap (sy_state s)) \<and> si_inUse (info (sy_state s) r)" if "r \<in> held s' u"
    using sys_inv_valid [OF inv subsetD [OF hsub that]] sys_inv_inUse [OF inv subsetD [OF hsub that]] by blast
  show "distinct (map snd (((sy_subs s)(t := subs')) u))" using sys_inv_distinct [OF inv] dist by simp
  show "u = v" if "r \<in> held s' u" "r \<in> held s' v" using that hsub sys_inv_disjoint [OF inv] by blast
  show "oid_eq k sid" if "(sid, r) \<in> set (((sy_subs s)(t := subs')) u)" "(k, r) \<in> set (ps_subscriptions (sy_state s))" for sid k
    using that sub sys_inv_key [OF inv, of sid r u k] by (auto split: if_splits)
  show "access_ok s' u (sy_access s u)"
  proof (cases "u = t")
    case False
    have "write_ok s' u w sid r = write_ok s u w sid r" for w sid r using False by (cases w) (auto simp: s')
    then show ?thesis using sys_inv_access [OF inv, of u] subsetD [OF hsub]
      by (cases "sy_access s u") (force simp: s' simp del: write_ok.simps)+
  qed (simp add: idle)
  show "u = v" if "has_lock (sy_access s u)" "has_lock (sy_access s v)" using that by (rule sys_inv_lock [OF inv])
  show "set es \<subseteq> set (ps_subscriptions (sy_state s))" if "sy_round s = Some es" for es
    using that by (rule sys_inv_round [OF inv])
qed

lemma sys_inv_interrupt:
  assumes inv: "sys_inv s" and free: "\<not> locked s" "sy_access s t = Idle"
    and u: "unsubscribe z (fst (sy_subs s t ! i)) True errors (sy_state s) = (errors', st')"
  shows "sys_inv (set_subs t (remove_at i (sy_subs s t)) (set_state st' s))"
proof -
  have "sys_inv (set_state st' s)" using inv free(1) u by (rule sys_inv_unsubscribe) simp
  then show ?thesis
    by (rule sys_inv_drop [where t = t and subs' = "remove_at i (sy_subs s t)"])
       (use free(2) remove_at_set [of i "sy_subs s t"] remove_at_distinct [OF sys_inv_distinct [OF inv, of t], of i]
         in \<open>auto simp: map_remove_at\<close>)
qed

lemma sys_inv_give_up: "sys_inv s \<Longrightarrow> sy_access s t = Idle \<Longrightarrow> sys_inv (give_up t s)"
  by (erule sys_inv_drop [where t = t and subs' = "[]"]) auto

text \<open>The flags after the store of an assignment.\<close>

definition stored :: "flag_write \<Rightarrow> sref \<Rightarrow> flags \<Rightarrow> sys \<Rightarrow> sys" where
  "stored w r fl s = set_state (upd_info r (put_flags (write_flag w fl)) (sy_state s)) s"

lemma stored_frame [simp]:
  "ps_subscriptions (sy_state (stored w r fl s)) = ps_subscriptions (sy_state s)"
  "length (ps_heap (sy_state (stored w r fl s))) = length (ps_heap (sy_state s))"
  "sy_subs (stored w r fl s) = sy_subs s" "sy_access (stored w r fl s) = sy_access s"
  "sy_round (stored w r fl s) = sy_round s" "held (stored w r fl s) = held s"
  "sy_abandoned (stored w r fl s) = sy_abandoned s"
  "ps_inv (sy_state (stored w r fl s)) = ps_inv (sy_state s)"
  by (simp_all add: stored_def ps_simps)

lemma stored_info:
  "r < length (ps_heap (sy_state s)) \<Longrightarrow>
   info (sy_state (stored w r fl s)) q
     = (if q = r then put_flags (write_flag w fl) (info (sy_state s) r) else info (sy_state s) q)"
  by (simp add: stored_def ps_simps)

lemma stored_keeps:
  assumes inv: "sys_inv s" and a: "sy_access s t = Loaded w sid r fl"
    and w: "w \<noteq> SetInUse" "w \<noteq> ClearInUse"
  shows "sys_inv (stored w r fl s)"
proof (rule sys_invI)
  let ?s = "stored w r fl s"
  have ok: "access_ok s t (Loaded w sid r fl)" using sys_inv_access [OF inv, of t] a by simp
  then have r: "r < length (ps_heap (sy_state s))" by simp
  have use: "si_inUse (info (sy_state ?s) q) = (if q = r then fl_inUse fl else si_inUse (info (sy_state s) q))" for q
    using w by (cases w) (auto simp: stored_info [OF r])
  show "ps_inv (sy_state ?s)" using sys_inv_ps [OF inv] by simp
  fix u v q
  show "q < length (ps_heap (sy_state ?s)) \<and> si_inUse (info (sy_state ?s) q)" if "q \<in> held ?s u"
    using that ok sys_inv_valid [OF inv, of q u] sys_inv_inUse [OF inv, of q u] by (auto simp: use)
  show "access_ok ?s u (sy_access ?s u)"
  proof (cases "has_lock (sy_access s u)")
    case False
    then show ?thesis using access_ok_unlocked [OF sys_inv_access [OF inv, of u], of ?s] by simp
  next
    case True
    have "\<not> si_inUse (info (sy_state ?s) q)" if q: "sy_access s u \<in> {Want SetInUse k q, Loaded SetInUse k q fl'}" for k q fl'
    proof -
      have "\<not> si_inUse (info (sy_state s) q)" using sys_inv_access [OF inv, of u] q by auto
      moreover have "q \<noteq> r"
      proof
        assume "q = r"
        have ne: "u \<noteq> t" using q a w by auto
        then have nl: "\<not> lock_write w" using sys_inv_lock [OF inv, of u t] True a by auto
        then have "r \<in> held s t" using ok w by (cases w) (auto simp: held_def)
        with calculation \<open>q = r\<close> sys_inv_inUse [OF inv] show False by blast
      qed
      ultimately show ?thesis by (simp add: use)
    qed
    then have "write_ok ?s u x k q" if "sy_access s u \<in> {Want x k q, Loaded x k q fl'}" "write_ok s u x k q" for x k q fl'
      using that by (cases x) (auto simp: use)
    then show ?thesis using sys_inv_access [OF inv, of u]
      by (cases "sy_access s u") (auto simp del: write_ok.simps)
  qed
  show "set es \<subseteq> set (ps_subscriptions (sy_state ?s))" if "sy_round ?s = Some es" for es
    using that sys_inv_round [OF inv] by simp
qed (unfold stored_frame, (use sys_invD [OF inv] in blast)+)

lemma after_access_other:
  "u \<noteq> t \<Longrightarrow> sy_access (after_write t w sid r s) u = sy_access s u"
  "sy_state (after_write t w sid r s) = sy_state s" "sy_abandoned (after_write t w sid r s) = sy_abandoned s"
  by (cases w; simp)+

text \<open>Two threads in assignments to the same subscription, one of them to \<open>inUse\<close>.\<close>

lemma taking_excludes:
  assumes inv: "sys_inv s" and a: "sy_access s t = Loaded SetInUse sid r fl" and "u \<noteq> t"
    and "sy_access s u \<in> {Want w k r, Loaded w k r fl'}"
  shows False
proof -
  have free: "\<not> si_inUse (info (sy_state s) r)" using sys_inv_access [OF inv, of t] a by simp
  have "has_lock (sy_access s t)" using a by simp
  then have "\<not> lock_write w" using sys_inv_lock [OF inv, of t u] assms(3,4) by auto
  then have "r \<in> held s u" using sys_inv_access [OF inv, of u] assms(4) by (cases w) (auto simp: held_def)
  with free sys_inv_inUse [OF inv] show False by blast
qed

lemma stored_SetInUse:
  assumes inv: "sys_inv s" and a: "sy_access s t = Loaded SetInUse sid r fl"
  shows "sys_inv (after_write t SetInUse sid r (stored SetInUse r fl s))"
proof (rule sys_invI)
  let ?s = "after_write t SetInUse sid r (stored SetInUse r fl s)"
  have ok: "access_ok s t (Loaded SetInUse sid r fl)" using sys_inv_access [OF inv, of t] a by simp
  then have r: "r < length (ps_heap (sy_state s))" by simp
  have use: "si_inUse (info (sy_state ?s) q) = (q = r \<or> si_inUse (info (sy_state s) q))" for q
    by (auto simp: stored_info [OF r])
  have h: "held ?s u = (if u = t then insert r (held s t) else held s u)" for u by (auto simp: held_def)
  have new: "r \<notin> held s u" for u using sys_inv_inUse [OF inv] ok by auto
  show "ps_inv (sy_state ?s)" using sys_inv_ps [OF inv] by simp
  fix u v q
  show "q < length (ps_heap (sy_state ?s)) \<and> si_inUse (info (sy_state ?s) q)" if "q \<in> held ?s u"
    using that r sys_inv_valid [OF inv, of q] sys_inv_inUse [OF inv, of q] unfolding h use by (auto split: if_splits)
  show "distinct (map snd (sy_subs ?s u))" using sys_inv_distinct [OF inv] new [of t] by (simp add: held_def)
  show "u = v" if "q \<in> held ?s u" "q \<in> held ?s v"
    using that new sys_inv_disjoint [OF inv, of q] unfolding h by (auto split: if_splits)
  show "oid_eq k sid'" if "(sid', q) \<in> set (sy_subs ?s u)" "(k, q) \<in> set (ps_subscriptions (sy_state ?s))" for sid' k
    using that ok sys_inv_key [OF inv, of sid' q u k] by (auto split: if_splits)
  show "access_ok ?s u (sy_access ?s u)"
  proof (cases "u = t")
    case False
    have ne: "q \<noteq> r" if "sy_access s u \<in> {Want w k q, Loaded w k q fl'}" for w k q fl'
      using taking_excludes [OF inv a False, of w k fl'] that by auto
    have "write_ok ?s u w k q = write_ok s u w k q" if "q \<noteq> r" for w k q
      using that False by (cases w) (auto simp: stored_info [OF r])
    moreover have "\<exists>v. q \<in> held s v" if "q \<noteq> r" "q \<in> held ?s v" for q v
      using that unfolding h by (auto split: if_splits)
    ultimately show ?thesis using sys_inv_access [OF inv, of u] ne False
      by (cases "sy_access s u") (force simp del: write_ok.simps after_write.simps simp add: after_access_other)+
  qed simp
  show "u = v" if "has_lock (sy_access ?s u)" "has_lock (sy_access ?s v)"
    using that sys_inv_lock [OF inv, of u v] by (auto split: if_splits)
  show "set es \<subseteq> set (ps_subscriptions (sy_state ?s))" if "sy_round ?s = Some es" for es
    using that sys_inv_round [OF inv] by simp
qed

lemma stored_ClearInUse:
  assumes inv: "sys_inv s" and a: "sy_access s t = Loaded ClearInUse sid r fl"
  shows "sys_inv (after_write t ClearInUse sid r (stored ClearInUse r fl s))"
proof (rule sys_invI)
  let ?s = "after_write t ClearInUse sid r (stored ClearInUse r fl s)"
  have ok: "access_ok s t (Loaded ClearInUse sid r fl)" using sys_inv_access [OF inv, of t] a by simp
  then obtain rest where hd: "sy_subs s t = (sid, r) # rest" and r: "r < length (ps_heap (sy_state s))" by auto
  have use: "si_inUse (info (sy_state ?s) q) = (q \<noteq> r \<and> si_inUse (info (sy_state s) q))" for q
    by (auto simp: stored_info [OF r])
  have rt: "r \<in> held s t" using hd by (simp add: held_def)
  have "distinct (map snd (sy_subs s t))" by (rule sys_inv_distinct [OF inv])
  then have rest: "distinct (map snd rest)" "snd ` set rest = held s t - {r}" using hd by (auto simp: held_def)
  have "r \<notin> held s u" if "u \<noteq> t" for u using sys_inv_disjoint [OF inv rt, of u] that by blast
  then have h: "held ?s u = held s u - {r}" for u using rest(2) hd by (cases "u = t") simp_all
  show "ps_inv (sy_state ?s)" using sys_inv_ps [OF inv] by simp
  fix u v q
  show "q < length (ps_heap (sy_state ?s)) \<and> si_inUse (info (sy_state ?s) q)" if "q \<in> held ?s u"
    using that sys_inv_valid [OF inv, of q u] sys_inv_inUse [OF inv, of q u] unfolding h use by auto
  show "distinct (map snd (sy_subs ?s u))" using sys_inv_distinct [OF inv, of u] rest(1) hd by simp
  show "u = v" if "q \<in> held ?s u" "q \<in> held ?s v" using that sys_inv_disjoint [OF inv, of q] unfolding h by blast
  show "oid_eq k sid'" if "(sid', q) \<in> set (sy_subs ?s u)" "(k, q) \<in> set (ps_subscriptions (sy_state ?s))" for sid' k
    using that hd sys_inv_key [OF inv, of sid' q u k] by (auto split: if_splits)
  show "access_ok ?s u (sy_access ?s u)"
  proof (cases "u = t")
    case False
    have "write_ok ?s u w k q" if "write_ok s u w k q" for w k q
      using that False by (cases w) (auto simp: stored_info [OF r])
    moreover have "\<exists>v. q \<in> held s v" if "q \<in> held ?s v" for q v using that unfolding h by blast
    ultimately show ?thesis using sys_inv_access [OF inv, of u] False
      by (cases "sy_access s u") (force simp del: write_ok.simps after_write.simps simp add: after_access_other)+
  qed simp
  show "u = v" if "has_lock (sy_access ?s u)" "has_lock (sy_access ?s v)"
    using that sys_inv_lock [OF inv, of u v] by (auto split: if_splits)
  show "set es \<subseteq> set (ps_subscriptions (sy_state ?s))" if "sy_round ?s = Some es" for es
    using that sys_inv_round [OF inv] by simp
qed

lemma sys_inv_store:
  assumes "sys_inv s" "sy_access s t = Loaded w sid r fl"
  shows "sys_inv (after_write t w sid r (set_state (upd_info r (put_flags (write_flag w fl)) (sy_state s)) s))"
proof -
  let ?s = "stored w r fl s"
  have ok: "access_ok s t (Loaded w sid r fl)" using sys_inv_access [OF assms(1), of t] assms(2) by simp
  have keep: "sys_inv (set_access t a ?s)" if "w \<notin> {SetInUse, ClearInUse}" "access_ok ?s t a" "\<not> has_lock a" for a
    using that stored_keeps [OF assms] by (intro sys_inv_set_access) auto
  have "sys_inv (after_write t w sid r ?s)"
  proof (cases w)
    case SetPolled
    then show ?thesis using keep [of "Want ClearInUse sid r"] ok by simp
  qed (use keep [of Idle] stored_SetInUse [of s t sid r fl] stored_ClearInUse [of s t sid r fl] assms in \<open>simp_all\<close>)
  then show ?thesis by (simp add: stored_def)
qed

lemma sys_inv_load:
  assumes "sys_inv s" "sy_access s t = Want w sid r"
  shows "sys_inv (set_access t (Loaded w sid r (flags_of (info (sy_state s) r))) s)"
proof (rule sys_inv_set_access [OF assms(1)])
  show "access_ok s t (Loaded w sid r (flags_of (info (sy_state s) r)))"
    using sys_inv_access [OF assms(1), of t] sys_inv_inUse [OF assms(1)] assms(2) by (auto simp: flags_of_def)
qed (simp add: assms(2))

lemma ps_step_inv: "ps_step s s' \<Longrightarrow> sys_inv s \<Longrightarrow> sys_inv s'"
proof (induction rule: ps_step.induct)
  case (unsubscribe_step s sid z errors errors' st')
  then show ?case using sys_inv_unsubscribe [of s z sid False errors errors' st'] by simp
next
  case (unsubscribe_flag s t sid r)
  then show ?case using find_sub_valid [OF sys_inv_ps]
    by (intro sys_inv_set_access) (auto simp: locked_def)
next
  case (checkin s t sid r rest)
  then have "r \<in> held s t" by (simp add: held_def)
  then show ?case using checkin sys_inv_valid by (intro sys_inv_set_access) auto
next
  case (cleanup_begin s)
  then show ?case by (intro sys_inv_set_round) auto
next
  case (cleanup_reset s sid r es)
  have "set ((sid, r) # es) \<subseteq> set (ps_subscriptions (sy_state s))"
    using cleanup_reset.prems cleanup_reset.hyps(1) by (rule sys_inv_round)
  moreover have "r < length (ps_heap (sy_state s))"
    using calculation sys_inv_table_valid [OF cleanup_reset.prems] by auto
  ultimately show ?case using cleanup_reset
    by (intro sys_inv_set_access sys_inv_set_round) (auto simp: writing_def)
next
  case (cleanup_end s)
  then show ?case by (intro sys_inv_set_round) auto
qed (blast intro: sys_inv_subscribe sys_inv_checkout sys_inv_interrupt sys_inv_give_up sys_inv_cleanup_drop
    sys_inv_load sys_inv_store)+

lemma reachable_inv: "reachable s \<Longrightarrow> sys_inv s"
  by (induction rule: reachable.induct) (auto intro: sys_inv_init ps_step_inv)

lemma reachable_steps: "ps_step\<^sup>*\<^sup>* s s' \<Longrightarrow> reachable s \<Longrightarrow> reachable s'"
  by (induction rule: rtranclp_induct) (auto intro: reachable.step)

section \<open>Polls are sequences of steps\<close>

lemma sys_eta [simp]:
  "set_subs t (sy_subs s t) s = s" "set_state (sy_state s) s = s"
  "set_subs t subs (set_subs t subs' s) = set_subs t subs s"
  "set_state st (set_state st' s) = set_state st s" "set_access t a (set_access t b s) = set_access t a s"
  "set_subs t subs (set_state st s) = set_state st (set_subs t subs s)"
  "set_access t a (set_state st s) = set_state st (set_access t a s)"
  "set_access t a (set_subs u subs s) = set_subs u subs (set_access t a s)"
  "set_round es (set_round es' s) = set_round es s" "set_round es (set_state st s) = set_state st (set_round es s)"
  "set_round es (set_access t a s) = set_access t a (set_round es s)"
  by (simp_all add: set_subs_def set_state_def set_access_def set_round_def)

lemma sys_same:
  "sy_subs s t = subs \<Longrightarrow> set_subs t subs s = s"
  "sy_subs s t = subs \<Longrightarrow> sy_state s = st \<Longrightarrow> set_state st (set_subs t subs s) = s"
  "sy_access s t = a \<Longrightarrow> set_access t a s = s" "sy_round s = es \<Longrightarrow> set_round es s = s"
  "sy_state s = st \<Longrightarrow> set_state st s = s"
  by (auto simp: set_access_def set_round_def)

text \<open>Thread \<open>t\<close> is between two assignments, and the lock is free.\<close>

definition quiet :: "sys \<Rightarrow> nat \<Rightarrow> bool" where
  "quiet s t \<longleftrightarrow> sy_access s t = Idle \<and> \<not> locked s"

lemma quiet_frame [simp]:
  "quiet (set_subs u subs s) t = quiet s t" "quiet (set_state st s) t = quiet s t" "quiet (give_up u s) t = quiet s t"
  by (simp_all add: quiet_def locked_def writing_def)

text \<open>An assignment that nobody interrupts changes the flag in the memory.\<close>

lemma write_steps:
  assumes "sy_access s t = Want w sid r"
  shows "ps_step\<^sup>*\<^sup>* s (after_write t w sid r
    (set_state (upd_info r (\<lambda>i. put_flags (write_flag w (flags_of i)) i) (sy_state s)) s))"
proof -
  let ?fl = "flags_of (info (sy_state s) r)"
  let ?s = "set_access t (Loaded w sid r ?fl) s"
  have 1: "ps_step s ?s" using assms by (rule ps_step.load)
  have "ps_step ?s (after_write t w sid r (set_state (upd_info r (put_flags (write_flag w ?fl)) (sy_state ?s)) ?s))"
    by (rule ps_step.store) simp
  moreover have "after_write t w sid r (set_state st ?s) = after_write t w sid r (set_state st s)" for st
    by (cases w) simp_all
  moreover have "upd_info r (put_flags (write_flag w ?fl)) (sy_state s)
      = upd_info r (\<lambda>i. put_flags (write_flag w (flags_of i)) i) (sy_state s)" by (simp add: upd_info_def)
  ultimately show ?thesis using 1 by simp
qed

lemma flag_updates [simp]:
  "put_flags ((flags_of i)\<lparr>fl_inUse := True\<rparr>) i = i\<lparr>si_inUse := True\<rparr>"
  "put_flags ((flags_of i)\<lparr>fl_shouldUnsub := True\<rparr>) i = i\<lparr>si_shouldUnsub := True\<rparr>"
  "put_flags ((flags_of i)\<lparr>fl_polledRecently := False\<rparr>) i = i\<lparr>si_polledRecently := False\<rparr>"
  "put_flags ((flags_of i)\<lparr>fl_polledRecently := True\<rparr>) i = i\<lparr>si_polledRecently := True\<rparr>"
  "put_flags ((flags_of i)\<lparr>fl_inUse := False\<rparr>) i = i\<lparr>si_inUse := False\<rparr>"
  by (simp_all add: put_flags_def flags_of_def)

lemma upd_info_twice: "upd_info r f (upd_info r g st) = upd_info r (\<lambda>i. f (g i)) st"
  by (cases "r < length (ps_heap st)") (simp_all add: upd_info_def list_update_beyond)

lemma checkout_steps:
  assumes "quiet s t" "fst (checkoutSocket sid (sy_state s)) = Inr r"
  shows "ps_step\<^sup>*\<^sup>* s (set_subs t (sy_subs s t @ [(sid, r)]) (set_state (snd (checkoutSocket sid (sy_state s))) s))"
proof -
  have 1: "ps_step s (set_access t (Want SetInUse sid r) s)"
    using assms by (intro ps_step.checkout) (auto simp: quiet_def)
  have "sy_access s t = Idle" using assms(1) by (simp add: quiet_def)
  with write_steps [of "set_access t (Want SetInUse sid r) s" t SetInUse sid r] checkoutSocket_Inr(4) [OF assms(2)]
  have "ps_step\<^sup>*\<^sup>* (set_access t (Want SetInUse sid r) s)
      (set_subs t (sy_subs s t @ [(sid, r)]) (set_state (snd (checkoutSocket sid (sy_state s))) s))"
    by (simp add: sys_same)
  with 1 show ?thesis by (rule converse_rtranclp_into_rtranclp)
qed

lemma checkin_steps:
  assumes "sy_access s t = Idle" "sy_subs s t = (sid, r) # rest"
  shows "ps_step\<^sup>*\<^sup>* s (set_subs t rest (set_state (checkinSocket r (sy_state s)) s))"
proof -
  let ?s1 = "set_access t (Want SetPolled sid r) s"
  let ?s2 = "set_access t (Want ClearInUse sid r)
    (set_state (upd_info r (\<lambda>i. i\<lparr>si_polledRecently := True\<rparr>) (sy_state s)) s)"
  have 1: "ps_step s ?s1" using assms by (rule ps_step.checkin)
  have 2: "ps_step\<^sup>*\<^sup>* ?s1 ?s2" using write_steps [of ?s1 t SetPolled sid r] by simp
  have 3: "ps_step\<^sup>*\<^sup>* ?s2 (set_subs t rest (set_state (checkinSocket r (sy_state s)) s))"
    using write_steps [of ?s2 t ClearInUse sid r] assms
    by (simp add: sys_same upd_info_twice checkinSocket_def)
  show ?thesis using 1 2 3 by (meson converse_rtranclp_into_rtranclp rtranclp_trans)
qed

lemma getSubscriptions_steps:
  assumes "getSubscriptions ids items subs errors (sy_state s) = (items', subs', errors', st')"
    "sy_subs s t = subs" "quiet s t"
  shows "ps_step\<^sup>*\<^sup>* s (set_subs t subs' (set_state st' s))"
  using assms
proof (induction ids arbitrary: items subs errors s)
  case Nil
  then show ?case by (auto simp: sys_same)
next
  case (Cons sid ids)
  obtain x st1 where c: "checkoutSocket sid (sy_state s) = (x, st1)" by fastforce
  show ?case
  proof (cases x)
    case (Inl msg)
    then have "st1 = sy_state s" using c by (auto simp: checkoutSocket_def split: option.splits if_splits)
    then show ?thesis using Cons Inl c by simp
  next
    case (Inr r)
    let ?s = "set_subs t (subs @ [(sid, r)]) (set_state st1 s)"
    have "ps_step\<^sup>*\<^sup>* s ?s" using checkout_steps [of s t sid r] c Inr Cons.prems(2,3) by simp
    moreover have "ps_step\<^sup>*\<^sup>* ?s (set_subs t subs' (set_state st' ?s))"
      using Cons.prems(1,3) c Inr by (intro Cons.IH) auto
    ultimately show ?thesis by simp
  qed
qed

lemma endCurrentPolls_steps:
  "sy_subs s t = subs \<Longrightarrow> quiet s t \<Longrightarrow>
   ps_step\<^sup>*\<^sup>* s (set_subs t [] (set_state (endCurrentPolls subs (sy_state s)) s))"
proof (induction subs arbitrary: s)
  case Nil
  then show ?case by (auto simp: sys_same endCurrentPolls_def)
next
  case (Cons e subs)
  obtain sid r where e: "e = (sid, r)" by (cases e)
  let ?s = "set_subs t subs (set_state (checkinSocket r (sy_state s)) s)"
  have "ps_step\<^sup>*\<^sup>* s ?s" using Cons.prems e by (intro checkin_steps) (simp_all add: quiet_def)
  moreover have "ps_step\<^sup>*\<^sup>* ?s (set_subs t [] (set_state (endCurrentPolls subs (sy_state ?s)) ?s))"
    by (rule Cons.IH) (use Cons.prems in simp_all)
  ultimately show ?case by (simp add: e endCurrentPolls_def)
qed

lemma drop_cancelled_steps:
  assumes "drop_cancelled z i items subs errors (sy_state s) = (items', subs', errors', st')"
    "sy_subs s t = subs" "quiet s t"
  shows "ps_step\<^sup>*\<^sup>* s (set_subs t subs' (set_state st' s))"
  using assms
proof (induction "length subs - i" arbitrary: i items subs errors s rule: less_induct)
  case less
  consider (fin) "\<not> i < length subs"
    | (keep) "i < length subs" "\<not> si_shouldUnsub (info (sy_state s) (snd (subs ! i)))"
    | (drp) "i < length subs" "si_shouldUnsub (info (sy_state s) (snd (subs ! i)))" by blast
  then show ?case
  proof cases
    case fin
    then show ?thesis using less.prems by (auto simp: drop_cancelled.simps [of z i] sys_same)
  next
    case keep
    then show ?thesis using less.hyps [of subs "Suc i"] less.prems by (simp add: drop_cancelled.simps [of z i])
  next
    case drp
    define e1 where "e1 = add_error (fst (subs ! i)) ''Poll interrupted by unsubscribe.'' errors"
    obtain e2 st2 where u: "unsubscribe z (fst (subs ! i)) True e1 (sy_state s) = (e2, st2)" by fastforce
    let ?s = "set_subs t (remove_at i subs) (set_state st2 s)"
    have "ps_step s ?s"
      using ps_step.interrupt [of s t i z e1 e2 st2] drp u less.prems(2,3) by (simp add: quiet_def)
    moreover have "ps_step\<^sup>*\<^sup>* ?s (set_subs t subs' (set_state st' ?s))"
      using less.prems(1,3) drp u
      by (intro less.hyps [where i = i and subs = "remove_at i subs" and items = "remove_at i items" and errors = e2])
         (simp_all add: drop_cancelled.simps [of z i items] e1_def)
    ultimately show ?thesis by simp
  qed
qed

text \<open>Nothing is abandoned unless a filter or a projection throws on a received message.\<close>

definition left_over :: "zmq_env \<Rightarrow> sub_vector \<Rightarrow> ps_state \<Rightarrow> merror \<Rightarrow> bool" where
  "left_over z subs st x \<longleftrightarrow> (\<exists>(sid, r) \<in> set subs. \<exists>outbox. recv_loop sid (info st r) (fst (sock_recv z r st)) outbox = Inl x)"

lemma recvMessages_steps:
  assumes "recvMessages z subs outbox errors (sy_state s) = (st', res)" "sy_subs s t = subs" "quiet s t"
  shows "\<exists>s'. ps_step\<^sup>*\<^sup>* s s' \<and> sy_state s' = st' \<and> sy_subs s' t = [] \<and> quiet s' t
    \<and> (case res of Inr _ \<Rightarrow> sy_abandoned s' = sy_abandoned s | Inl x \<Rightarrow> left_over z subs st' x)"
  using assms
proof (induction subs arbitrary: outbox errors s)
  case (Cons e subs)
  obtain sid r where e: "e = (sid, r)" by (cases e)
  obtain ms failed where ms: "sock_recv z r (sy_state s) = (ms, failed)" by fastforce
  show ?case
  proof (cases "recv_loop sid (info (sy_state s) r) ms outbox")
    case (Inl x)
    have "ps_step s (give_up t s)"
      using Cons.prems(2,3) Inl by (intro ps_step.abandon) (auto simp: e quiet_def)
    moreover have "sy_state (give_up t s) = st'" "res = Inl x" using Cons.prems(1) Inl ms by (auto simp: e)
    moreover have "left_over z (e # subs) (sy_state s) x" using Inl ms by (auto simp: left_over_def e)
    ultimately show ?thesis using Cons.prems(3) by (intro exI [of _ "give_up t s"]) auto
  next
    case (Inr box)
    let ?s = "set_subs t subs (set_state (checkinSocket r (sy_state s)) s)"
    have st: "ps_step\<^sup>*\<^sup>* s ?s" using Cons.prems e by (intro checkin_steps) (simp_all add: quiet_def)
    have "recvMessages z subs box (if failed then add_error sid ''Error receiving messages from zmq socket.'' errors
        else errors) (sy_state ?s) = (st', res)"
      using Cons.prems(1) Inr ms by (simp add: e)
    from Cons.IH [OF this] Cons.prems(3) obtain s' where s': "ps_step\<^sup>*\<^sup>* ?s s'" "sy_state s' = st'" "sy_subs s' t = []"
      "quiet s' t" "case res of Inr _ \<Rightarrow> sy_abandoned s' = sy_abandoned ?s | Inl x \<Rightarrow> left_over z subs st' x" by auto
    have "ps_step\<^sup>*\<^sup>* s s'" using st s'(1) by (rule rtranclp_trans)
    moreover have "left_over z subs st' x \<Longrightarrow> left_over z (e # subs) st' x" for x by (auto simp: left_over_def)
    ultimately show ?thesis using s'(2-5) by (intro exI [of _ s']) (auto split: sum.splits)
  qed
qed auto

text \<open>
  What the other threads do during a wait is a sequence of steps that leaves thread \<open>t\<close> alone and ends
  with the lock free.
\<close>

definition others_step :: "zmq_env \<Rightarrow> nat \<Rightarrow> bool" where
  "others_step z t \<longleftrightarrow> (\<forall>k s. reachable s \<longrightarrow> quiet s t \<longrightarrow>
     (\<exists>s'. ps_step\<^sup>*\<^sup>* s s' \<and> sy_state s' = z_others z k (sy_state s) \<and> sy_subs s' t = sy_subs s t
        \<and> sy_abandoned s' t = sy_abandoned s t \<and> quiet s' t))"

fun end_subs :: "loop_end \<Rightarrow> sub_vector" where
  "end_subs (Falls subs errors rt) = subs"
| "end_subs _ = []"

text \<open>The thread still holds \<open>subs\<close> and has given up nothing since \<open>s\<close>.\<close>

definition poll_at :: "nat \<Rightarrow> sys \<Rightarrow> sub_vector \<Rightarrow> sys \<Rightarrow> bool" where
  "poll_at t s subs s' \<longleftrightarrow> ps_step\<^sup>*\<^sup>* s s' \<and> sy_subs s' t = subs \<and> sy_abandoned s' t = sy_abandoned s t \<and> quiet s' t"

lemma poll_at_trans: "poll_at t s subs s' \<Longrightarrow> poll_at t s' subs' s'' \<Longrightarrow> poll_at t s subs' s''"
  by (auto simp: poll_at_def)

lemma poll_loop_steps:
  assumes "poll_loop z k timeout rt items subs errors (sy_state s) = (st', e)" "sy_subs s t = subs"
    and "items = map snd subs" "reachable s" "quiet s t" "others_step z t"
  shows "\<exists>s'. poll_at t s (end_subs e) s' \<and> sy_state s' = st'"
  using assms
proof (induction "nat timeout" arbitrary: k timeout rt items subs errors s rule: less_induct)
  case less
  show ?case
  proof (cases "timeout \<le> 0")
    case True
    then show ?thesis using less.prems by (auto simp: poll_loop.simps [of z k] poll_at_def)
  next
    case False
    obtain s1 where s1: "poll_at t s subs s1" "sy_state s1 = z_others z k (sy_state s)"
      using less.prems(2,4-6) unfolding others_step_def poll_at_def by metis
    have reach1: "reachable s1" using s1(1) less.prems(4) unfolding poll_at_def by (blast intro: reachable_steps)
    have fin: ?thesis if "poll_at t s1 (end_subs e) s'" "sy_state s' = st'" for s'
      using poll_at_trans [OF s1(1) that(1)] that(2) by blast
    have stop: ?thesis if "st' = endCurrentPolls subs1 (sy_state s2)" "end_subs e = []" "poll_at t s1 subs1 s2" for s2 subs1
    proof (rule fin [of "set_subs t [] (set_state (endCurrentPolls subs1 (sy_state s2)) s2)"])
      have "ps_step\<^sup>*\<^sup>* s2 (set_subs t [] (set_state (endCurrentPolls subs1 (sy_state s2)) s2))"
        using that(3) by (intro endCurrentPolls_steps) (auto simp: poll_at_def)
      then show "poll_at t s1 (end_subs e) (set_subs t [] (set_state (endCurrentPolls subs1 (sy_state s2)) s2))"
        using that(2,3) unfolding poll_at_def by auto
    qed (use that(1) in simp)
    have at1: "poll_at t s1 subs s1" using s1(1) by (auto simp: poll_at_def)
    show ?thesis
    proof (cases "z_wait z k")
      case Ready
      then show ?thesis using less.prems(1) False s1 at1 by (intro fin [of s1]) (auto simp: poll_loop.simps [of z k])
    next
      case (WaitError w)
      then show ?thesis using less.prems(1) False s1 at1 by (intro stop [of subs s1]) (auto simp: poll_loop.simps [of z k])
    next
      case NotReady
      obtain items' subs' errors' st2 where
        d: "drop_cancelled z 0 items subs errors (sy_state s1) = (items', subs', errors', st2)"
        by (metis prod.exhaust)
      define s2 where "s2 = set_subs t subs' (set_state st2 s1)"
      have s2: "poll_at t s1 subs' s2" "sy_state s2 = st2" "sy_subs s2 t = subs'" "quiet s2 t"
        using drop_cancelled_steps [OF d] s1(1) by (simp_all add: s2_def poll_at_def)
      have reach2: "reachable s2" using s2(1) reach1 unfolding poll_at_def by (blast intro: reachable_steps)
      have items': "items' = map snd subs'"
        using drop_cancelled_spec [OF sys_inv_ps [OF reachable_inv [OF reach1]] less.prems(3), of z 0 errors] d by auto
      let ?c = "min maxPollInterval timeout"
      consider (empty) "items' = []" | (again) "items' \<noteq> []" "ps_maxTimeoutMillis st2 \<le> rt + ?c"
        | (loop) "items' \<noteq> []" "\<not> ps_maxTimeoutMillis st2 \<le> rt + ?c" by blast
      then show ?thesis
      proof cases
        case empty
        then show ?thesis using less.prems(1) False NotReady d s1(2) s2 items'
          by (intro fin [of s2]) (auto simp: poll_loop.simps [of z k])
      next
        case again
        then show ?thesis using less.prems(1) False NotReady d s1(2) s2
          by (intro stop [of subs' s2]) (auto simp: poll_loop.simps [of z k] Let_def)
      next
        case loop
        have "poll_loop z (Suc k) (timeout - ?c) (rt + ?c) items' subs' errors' (sy_state s2) = (st', e)"
          using less.prems(1) False NotReady d s1(2) s2(2) loop by (simp add: poll_loop.simps [of z k] Let_def)
        from less.hyps [OF _ this s2(3) items' reach2 s2(4) less.prems(6)] False
        obtain s' where "poll_at t s2 (end_subs e) s'" "sy_state s' = st'" by (auto simp: maxPollInterval_def)
        then show ?thesis using poll_at_trans [OF s2(1)] by (intro fin) auto
      qed
    qed
  qed
qed

lemma getSubscriptions_items:
  "getSubscriptions ids items subs errors st = (items', subs', errors', st') \<Longrightarrow> items = map snd subs \<Longrightarrow>
   items' = map snd subs'"
  by (induction ids items subs errors st rule: getSubscriptions.induct) (auto split: prod.splits sum.splits)


text \<open>A round of the cleanup thread that nobody interrupts does what \<open>cleanup_pass\<close> says.\<close>

lemma cleanup_loop_steps:
  assumes "cleanup_loop es (sy_state s) \<in> {Round st', Dangling st'}" "sy_round s = Some es"
    "\<not> writing s" "sy_access s cleaner = Idle"
  shows "ps_step\<^sup>*\<^sup>* s (set_state st' (set_round None s))"
  using assms
proof (induction es arbitrary: s)
  case Nil
  then have "sy_state (set_round None s) = st'" by auto
  then have eq: "set_state st' (set_round None s) = set_round None s" by (rule sys_same)
  show ?case unfolding eq using ps_step.cleanup_end [of s] Nil by blast
next
  case (Cons e es)
  obtain sid r where e: "e = (sid, r)" by (cases e)
  show ?case
  proof (cases "si_polledRecently (info (sy_state s) r)")
    case True
    let ?s1 = "set_access cleaner (Want ClearPolled sid r) (set_round (Some es) s)"
    let ?s2 = "set_state (cleanup_entry e (sy_state s)) (set_round (Some es) s)"
    have "ps_step s ?s1" using Cons.prems True e by (intro ps_step.cleanup_reset) auto
    moreover have "ps_step\<^sup>*\<^sup>* ?s1 ?s2"
      using write_steps [of ?s1 cleaner ClearPolled sid r] Cons.prems(4) True by (simp add: sys_same e cleanup_entry_def)
    moreover have "ps_step\<^sup>*\<^sup>* ?s2 (set_state st' (set_round None ?s2))"
      by (rule Cons.IH) (use Cons.prems True e in \<open>auto simp: writing_def\<close>)
    ultimately show ?thesis by (simp add: converse_rtranclp_into_rtranclp)
  next
    case False
    then have "ps_step s (set_state (cleanup_entry (sid, r) (sy_state s)) (set_round None s))"
      using Cons.prems e by (intro ps_step.cleanup_drop) auto
    then show ?thesis using Cons.prems(1) False e by auto
  qed
qed

lemma cleanup_pass_steps:
  assumes "cleanup_pass (sy_state s) \<in> {Round st', Dangling st'}" "quiet s cleaner"
  shows "ps_step\<^sup>*\<^sup>* s (set_state st' s)"
proof -
  let ?s = "set_round (Some (ps_subscriptions (sy_state s))) s"
  have "ps_step s ?s" using assms(2) by (intro ps_step.cleanup_begin) (simp add: quiet_def)
  moreover have "ps_step\<^sup>*\<^sup>* ?s (set_state st' (set_round None ?s))"
    using assms by (intro cleanup_loop_steps) (auto simp: cleanup_pass_def quiet_def locked_def writing_def)
  moreover have "set_round None s = s" using assms(2) by (intro sys_same) (simp add: quiet_def locked_def)
  ultimately show ?thesis by simp
qed

section \<open>Safety\<close>

text \<open>
  C1.  Two threads never poll the same socket: in every reachable state a subscription is checked out
  by at most one thread, at most once, and it is marked in use as long as it is.
\<close>

theorem poll_mutual_exclusion:
  assumes "reachable s" "i < length (sy_subs s t)" "j < length (sy_subs s u)"
    and "snd (sy_subs s t ! i) = snd (sy_subs s u ! j)"
  shows "t = u \<and> i = j \<and> si_inUse (info (sy_state s) (snd (sy_subs s t ! i)))"
proof -
  note inv = reachable_inv [OF assms(1)]
  have h: "snd (sy_subs s t ! i) \<in> held s t"
    unfolding held_def using nth_mem [OF assms(2)] by (rule imageI)
  have "snd (sy_subs s t ! i) \<in> held s u"
    unfolding held_def assms(4) using nth_mem [OF assms(3)] by (rule imageI)
  with h have tu: "t = u" by (rule sys_inv_disjoint [OF inv])
  have "i = j"
    using sys_inv_distinct [OF inv, of t] assms(2-4) tu by (simp add: distinct_conv_nth) metis
  with tu sys_inv_inUse [OF inv h] show ?thesis by blast
qed

text \<open>
  C15.  Unsubscribing never closes a socket under a poll: the socket of a checked-out subscription
  stays as it is, and the poller is told through the flag if the subscription is the one cancelled.
\<close>

theorem unsubscribe_spares_polled:
  assumes "reachable s" "r \<in> held s t" "unsubscribe z sid False errors (sy_state s) = (errors', st')"
  shows "si_sock (info st' r) = si_sock (info (sy_state s) r)
    \<and> (find_sub sid (sy_state s) = Some r \<longrightarrow> si_shouldUnsub (info st' r) \<and> find_sub sid st' = Some r)"
proof -
  note inv = reachable_inv [OF assms(1)]
  have use: "si_inUse (info (sy_state s) r)" "r < length (ps_heap (sy_state s))"
    using sys_inv_inUse [OF inv assms(2)] sys_inv_valid [OF inv assms(2)] by auto
  show ?thesis
  proof (cases "find_sub sid (sy_state s)")
    case (Some q)
    then have "q < length (ps_heap (sy_state s))" using find_sub_valid [OF sys_inv_ps [OF inv]] by blast
    then show ?thesis using Some use assms(3)
      by (auto simp: unsubscribe_def ps_simps split: if_splits)
  qed (use assms(3) in \<open>auto simp: unsubscribe_def\<close>)
qed

section \<open>Runs\<close>

text \<open>In a reachable state all but finitely many threads are between two assignments.\<close>

lemma busy_finite: "reachable s \<Longrightarrow> finite {t. sy_access s t \<noteq> Idle}"
proof (induction rule: reachable.induct)
  case (step s s')
  have "\<exists>t. {u. sy_access s' u \<noteq> Idle} \<subseteq> insert t {u. sy_access s u \<noteq> Idle}"
    using step.hyps(2)
  proof cases
    case (store t w sid r fl)
    then show ?thesis by (cases w) (auto split: if_splits)
  qed (auto split: if_splits)
  then show ?case using step.IH by (meson finite_insert finite_subset)
qed (simp add: sys_init_def)

lemma idle_thread:
  assumes "reachable s"
  obtains u where "u \<noteq> t" "sy_access s u = Idle"
proof -
  have "finite (insert t {u. sy_access s u \<noteq> Idle})" using busy_finite [OF assms] by simp
  then obtain u where "u \<notin> insert t {u. sy_access s u \<noteq> Idle}" using ex_new_if_finite [OF infinite_UNIV_nat] by blast
  then show ?thesis using that by auto
qed

text \<open>A command that unsubscribes while the lock is free.\<close>

lemma unsubscribe_steps:
  assumes "reachable s" "quiet s t"
  shows "\<exists>s'. ps_step\<^sup>*\<^sup>* s s' \<and> sy_state s' = snd (unsubscribe z sid False errors (sy_state s))
    \<and> sy_subs s' t = sy_subs s t \<and> sy_abandoned s' t = sy_abandoned s t \<and> quiet s' t"
proof (cases "\<exists>r. find_sub sid (sy_state s) = Some r \<and> si_inUse (info (sy_state s) r)")
  case True
  then obtain r where r: "find_sub sid (sy_state s) = Some r" "si_inUse (info (sy_state s) r)" by blast
  obtain u where u: "u \<noteq> t" "sy_access s u = Idle" using idle_thread [OF assms(1)] by blast
  let ?s = "set_access u (Want SetShouldUnsub sid r) s"
  let ?s' = "set_state (upd_info r (\<lambda>i. i\<lparr>si_shouldUnsub := True\<rparr>) (sy_state s)) s"
  have "ps_step s ?s" using assms(2) u(2) r by (intro ps_step.unsubscribe_flag) (auto simp: quiet_def)
  moreover have "ps_step\<^sup>*\<^sup>* ?s ?s'" using write_steps [of ?s u SetShouldUnsub sid r] u(2) by (simp add: sys_same)
  ultimately have "ps_step\<^sup>*\<^sup>* s ?s'" by (rule converse_rtranclp_into_rtranclp)
  then show ?thesis using r assms(2) by (intro exI [of _ ?s']) (simp add: unsubscribe_def)
next
  case False
  obtain errors' st' where st': "unsubscribe z sid False errors (sy_state s) = (errors', st')" by fastforce
  have "ps_step s (set_state st' s)"
    by (rule ps_step.unsubscribe_step) (use False assms(2) st' in \<open>auto simp: quiet_def\<close>)
  then show ?thesis using assms(2) st' by (intro exI [of _ "set_state st' s"]) auto
qed

text \<open>A server with one subscription, and the same server while thread 7 polls it.\<close>

definition env_none :: parse_env where
  "env_none = \<lparr>pe_regex = (\<lambda>r options s. False), pe_geo = expressionParserGeoCallbackDefault,
     pe_where = expressionParserWhereCallbackDefault, pe_text = expressionParserTextCallbackDefault, pe_toString = (\<lambda>ob. [])\<rparr>"

definition mp_none :: machine_and_pid where
  "mp_none = machine_of_random 0"

definition sid_one :: oid where
  "sid_one = fst (oid_init 0 mp_none 0)"

definition sys_one :: sys where
  "sys_one = set_state (fst (subscribe env_none None 0 mp_none ''a'' [] [] ps_init)) sys_init"

definition sys_polled :: sys where
  "sys_polled = set_subs 7 [(sid_one, 0)] (set_state (snd (checkoutSocket sid_one (sy_state sys_one))) sys_one)"

text \<open>Nothing arrives, and the subscription is cancelled during the second wait.\<close>

definition z_cancel :: zmq_env where
  "z_cancel = \<lparr>z_wait = (\<lambda>k. NotReady),
     z_others = (\<lambda>k st. if k = 1 then snd (unsubscribe z_one sid_one False [] st) else st),
     z_close_fails = (\<lambda>r. False), z_recv = (\<lambda>r. ([], False))\<rparr>"

lemma sys_one_state: "sy_state sys_one = ps_init\<lparr>ps_oidInc := 1, ps_heap := [new_info ''a'' None None],
    ps_subscriptions := [(sid_one, 0)]\<rparr>"
  by (simp add: sys_one_def subscribe_def sid_one_def make_filter_def make_projection_def oid_init_alt ps_init_def)

lemma sys_one_subs:
  "sy_subs sys_one t = []" "sy_access sys_one t = Idle" "sy_round sys_one = None" "sy_abandoned sys_one t = {}"
  by (simp_all add: sys_one_def sys_init_def)

lemma sys_one_quiet: "quiet sys_one t" "quiet sys_polled t"
  by (simp_all add: quiet_def locked_def writing_def sys_one_subs sys_polled_def)

lemma sys_one_reachable: "reachable sys_one"
proof -
  have "ps_step sys_init sys_one"
    unfolding sys_one_def
    by (rule ps_step.subscribe_step [where res = "snd (subscribe env_none None 0 mp_none ''a'' [] [] ps_init)"])
       (simp_all add: sys_init_def locked_def writing_def)
  then show ?thesis by (rule reachable.step [OF reachable.start])
qed

lemmas sys_one_simps = sys_one_state sys_one_subs new_info_def ps_init_def

lemma sys_one_checkout: "checkoutSocket sid_one (sy_state sys_one)
    = (Inr 0, upd_info 0 (\<lambda>s. s\<lparr>si_inUse := True\<rparr>) (sy_state sys_one))"
  by (simp add: checkoutSocket_def sys_one_simps)

lemma sys_polled_reachable: "reachable sys_polled"
proof -
  have "ps_step\<^sup>*\<^sup>* sys_one sys_polled"
    using checkout_steps [OF sys_one_quiet(1), of sid_one 0 7] by (simp add: sys_polled_def sys_one_checkout sys_one_subs)
  then show ?thesis using sys_one_reachable by (rule reachable_steps)
qed

lemma sys_polled_facts:
  "sy_subs sys_polled 7 = [(sid_one, 0)]" "0 \<in> held sys_polled 7"
  "sy_state sys_polled = upd_info 0 (\<lambda>s. s\<lparr>si_inUse := True\<rparr>) (sy_state sys_one)"
  by (simp_all add: sys_polled_def sys_one_checkout)

lemma poll_mutual_exclusion_witness:
  "reachable sys_polled \<and> 0 < length (sy_subs sys_polled 7) \<and> si_inUse (info (sy_state sys_polled) 0)"
  using sys_polled_reachable poll_mutual_exclusion [of sys_polled 0 7 0 7] by (simp add: sys_polled_facts(1))

lemma unsubscribe_spares_polled_witness:
  "\<exists>errors' st'. unsubscribe z_one sid_one False [] (sy_state sys_polled) = (errors', st')
     \<and> zs_open (si_sock (info st' 0)) \<and> si_shouldUnsub (info st' 0)"
proof -
  obtain errors' st' where u: "unsubscribe z_one sid_one False [] (sy_state sys_polled) = (errors', st')"
    by fastforce
  have "find_sub sid_one (sy_state sys_polled) = Some 0" "zs_open (si_sock (info (sy_state sys_polled) 0))"
    by (simp_all add: sys_polled_facts(3) sys_one_simps ps_simps)
  with unsubscribe_spares_polled [OF sys_polled_reachable sys_polled_facts(2) u] u show ?thesis by auto
qed

lemma z_cancel_others: "others_step z_cancel t"
  unfolding others_step_def
proof (intro allI impI)
  fix k s
  assume "reachable s" "quiet s t"
  then show "\<exists>s'. ps_step\<^sup>*\<^sup>* s s' \<and> sy_state s' = z_others z_cancel k (sy_state s) \<and> sy_subs s' t = sy_subs s t
      \<and> sy_abandoned s' t = sy_abandoned s t \<and> quiet s' t"
    using unsubscribe_steps [of s t z_one sid_one "[]"] by (cases "k = 1") (auto simp: z_cancel_def)
qed


section \<open>Hazards\<close>

text \<open>
  C16.  A check-in can get lost.  The cleanup thread resets \<open>polledRecently\<close> under the lock of the table
  while a poll checks the subscription in without it; both assign to the same memory word.  If the poll
  checks in between the load and the store of the cleanup thread, the store brings \<open>inUse\<close> back: no thread
  polls the subscription, nothing was left by an exception and nobody cancelled it, but it counts as in
  use and every later poll of it fails.
\<close>

theorem checkin_lost_update:
  "\<exists>s sid r. reachable s \<and> (\<forall>t. sy_subs s t = [] \<and> sy_access s t = Idle \<and> sy_abandoned s t = {}) \<and> \<not> locked s
     \<and> find_sub sid (sy_state s) = Some r \<and> \<not> si_shouldUnsub (info (sy_state s) r)
     \<and> zs_open (si_sock (info (sy_state s) r))
     \<and> fst (checkoutSocket sid (sy_state s)) = Inl ''Poll currently active.''"
proof -
  define fl where "fl = flags_of (info (sy_state sys_polled) 0)"
  define s1 where "s1 = set_round (Some [(sid_one, 0)]) sys_polled"
  define s2 where "s2 = set_access cleaner (Want ClearPolled sid_one 0) (set_round (Some []) sys_polled)"
  define s3 where "s3 = set_access cleaner (Loaded ClearPolled sid_one 0 fl) (set_round (Some []) sys_polled)"
  define s4 where "s4 = set_subs 7 [] (set_state (checkinSocket 0 (sy_state s3)) s3)"
  define s5 where "s5 = after_write cleaner ClearPolled sid_one 0
    (set_state (upd_info 0 (put_flags (write_flag ClearPolled fl)) (sy_state s4)) s4)"
  define s6 where "s6 = set_round None s5"
  have free: "sy_access sys_polled t = Idle" "\<not> writing sys_polled" "\<not> locked sys_polled" for t
    using sys_one_quiet(2) by (auto simp: quiet_def locked_def)
  have st: "sy_state sys_polled = ps_init\<lparr>ps_oidInc := 1,
      ps_heap := [(new_info ''a'' None None)\<lparr>si_inUse := True\<rparr>], ps_subscriptions := [(sid_one, 0)]\<rparr>"
    by (simp add: sys_polled_facts(3) sys_one_state upd_info_def)
  have tab: "ps_subscriptions (sy_state sys_polled) = [(sid_one, 0)]" by (simp add: st)
  have "ps_step sys_polled s1" using ps_step.cleanup_begin [OF free(3)] by (simp add: s1_def tab)
  moreover have "ps_step s1 s2"
    using ps_step.cleanup_reset [of s1 sid_one 0 "[]"] free by (simp add: s1_def s2_def writing_def st new_info_def)
  moreover have "ps_step s2 s3" using ps_step.load [of s2 cleaner ClearPolled sid_one 0] by (simp add: s2_def s3_def fl_def)
  moreover have "ps_step\<^sup>*\<^sup>* s3 s4"
    unfolding s4_def by (rule checkin_steps [where sid = sid_one]) (simp_all add: s3_def free sys_polled_facts(1) cleaner_def)
  moreover have "ps_step s4 s5" unfolding s5_def by (rule ps_step.store) (simp add: s4_def s3_def)
  moreover have "ps_step s5 s6"
    unfolding s6_def by (rule ps_step.cleanup_end) (simp_all add: s5_def s4_def s3_def writing_def free)
  ultimately have "ps_step\<^sup>*\<^sup>* sys_polled s6" by (meson rtranclp.rtrancl_into_rtrancl rtranclp.rtrancl_refl rtranclp_trans)
  then have "reachable s6" using sys_polled_reachable by (rule reachable_steps)
  moreover have "\<forall>t. sy_subs s6 t = [] \<and> sy_access s6 t = Idle \<and> sy_abandoned s6 t = {}"
    by (simp add: s6_def s5_def s4_def s3_def free) (simp add: sys_polled_def sys_one_subs)
  moreover have "\<not> locked s6" using calculation(2) by (simp add: locked_def writing_def s6_def)
  moreover have "find_sub sid_one (sy_state s6) = Some 0" "\<not> si_shouldUnsub (info (sy_state s6) 0)"
    "zs_open (si_sock (info (sy_state s6) 0))" "si_inUse (info (sy_state s6) 0)"
    by (simp_all add: s6_def s5_def s4_def s3_def checkinSocket_def st upd_info_def fl_def flags_of_def new_info_def)
  ultimately show ?thesis
    by (intro exI [of _ s6] exI [of _ sid_one] exI [of _ 0]) (simp add: checkoutSocket_def)
qed

text \<open>
  C23.  The cleanup thread can close a socket that a poll is waiting on: it looks only at whether the
  subscription was polled since its last round, and a poll counts only when it ends.  After one
  checkout and two rounds the thread still holds the subscription but its socket is closed and the
  table no longer knows it.
\<close>

theorem cleanup_closes_polled_socket:
  "\<exists>s t r. reachable s \<and> r \<in> held s t \<and> si_inUse (info (sy_state s) r)
     \<and> \<not> zs_open (si_sock (info (sy_state s) r)) \<and> ps_subscriptions (sy_state s) = []"
proof -
  have st: "sy_state sys_polled = ps_init\<lparr>ps_oidInc := 1,
      ps_heap := [(new_info ''a'' None None)\<lparr>si_inUse := True\<rparr>], ps_subscriptions := [(sid_one, 0)]\<rparr>"
    by (simp add: sys_polled_facts(3) sys_one_state upd_info_def)
  obtain st1 st2 where c: "cleanup_pass (sy_state sys_polled) = Round st1" "cleanup_pass st1 = Dangling st2"
    and st2: "ps_subscriptions st2 = []" "\<not> zs_open (si_sock (info st2 0))"
    by (simp add: st cleanup_pass_def cleanup_entry_def new_info_def upd_info_def erase_sub_def close_sock_def)
  have "ps_step\<^sup>*\<^sup>* sys_polled (set_state st1 sys_polled)"
    using cleanup_pass_steps [of sys_polled st1] c(1) sys_one_quiet(2) by simp
  moreover have "ps_step\<^sup>*\<^sup>* (set_state st1 sys_polled) (set_state st2 sys_polled)"
    using cleanup_pass_steps [of "set_state st1 sys_polled" st2] c(2) sys_one_quiet(2) by simp
  ultimately have r: "reachable (set_state st2 sys_polled)"
    using reachable_steps sys_polled_reachable by blast
  have h: "0 \<in> held (set_state st2 sys_polled) 7" using sys_polled_facts(2) by simp
  show ?thesis using r h st2 sys_inv_inUse [OF reachable_inv [OF r] h]
    by (intro exI [of _ "set_state st2 sys_polled"] exI [of _ 7] exI [of _ 0]) simp
qed

text \<open>
  C24.  An unsubscribe that races with an arriving message is not carried out: the poll skips the check
  of the flag and checks the subscription in with the flag still set.  The subscription stays in the
  table with its socket open, although the unsubscribe reported no error and nobody can poll it.
\<close>

theorem cancelled_subscription_lingers:
  "\<exists>s sid r. reachable s \<and> (\<forall>t. sy_subs s t = []) \<and> find_sub sid (sy_state s) = Some r
     \<and> si_shouldUnsub (info (sy_state s) r) \<and> zs_open (si_sock (info (sy_state s) r))
     \<and> fst (checkoutSocket sid (sy_state s)) = Inl ''Subscription not found.''"
proof -
  define s1 where "s1 = set_access 3 (Want SetShouldUnsub sid_one 0) sys_polled"
  define s2 where "s2 = set_state (upd_info 0 (\<lambda>s. s\<lparr>si_shouldUnsub := True\<rparr>) (sy_state sys_polled)) sys_polled"
  define s3 where "s3 = set_subs 7 [] (set_state (checkinSocket 0 (sy_state s2)) s2)"
  have free: "sy_access sys_polled t = Idle" "\<not> locked sys_polled" for t using sys_one_quiet(2) by (auto simp: quiet_def)
  have "ps_step sys_polled s1"
    unfolding s1_def by (rule ps_step.unsubscribe_flag) (simp_all add: free sys_polled_facts(3) sys_one_simps ps_simps)
  moreover have "ps_step\<^sup>*\<^sup>* s1 s2"
    using write_steps [of s1 3 SetShouldUnsub sid_one 0] by (simp add: s1_def s2_def sys_same free)
  moreover have "ps_step\<^sup>*\<^sup>* s2 s3"
    unfolding s3_def by (rule checkin_steps [where sid = sid_one]) (simp_all add: s2_def free sys_polled_facts(1))
  ultimately have "ps_step\<^sup>*\<^sup>* sys_polled s3" by (meson converse_rtranclp_into_rtranclp rtranclp_trans)
  then have "reachable s3" using sys_polled_reachable by (rule reachable_steps)
  moreover have "\<forall>t. sy_subs s3 t = []" by (simp add: s3_def s2_def sys_polled_def sys_one_subs)
  moreover have "find_sub sid_one (sy_state s3) = Some 0" "si_shouldUnsub (info (sy_state s3) 0)"
    "zs_open (si_sock (info (sy_state s3) 0))"
    by (simp_all add: s3_def s2_def checkinSocket_def sys_polled_facts(3) sys_one_simps ps_simps)
  ultimately show ?thesis
    by (intro exI [of _ s3] exI [of _ sid_one] exI [of _ 0]) (simp add: checkoutSocket_def)
qed

end
