(* ===== verification/Strings.thy ===== *)
theory Strings
  imports Prelude
begin

text \<open>
  String slices, splitting and joining, the comparison of strings with embedded numbers, and the
  parsing of integers: \<open>string_data-inl.h\<close> and \<open>parse_number.cpp\<close> under \<open>src/src/mongo/base/\<close> and
  \<open>src/src/mongo/util/stringutils.cpp\<close>.  Positions are \<^typ>\<open>nat option\<close> where the code has
  \<open>string::npos\<close>.
\<close>

section \<open>StringData\<close>

definition sd_compare :: "string \<Rightarrow> string \<Rightarrow> int" where
  "sd_compare a b =
     (let res = memcmp a b (min (length a) (length b)) in
      if res \<noteq> 0 then (if res > 0 then 1 else -1)
      else if length a = length b then 0
      else if length a > length b then 1 else -1)"

definition tolower :: "char \<Rightarrow> char" where
  "tolower c = (if 65 \<le> (of_char c :: nat) \<and> (of_char c :: nat) \<le> 90 then char_of (of_char c + 32 :: nat) else c)"

definition equalCaseInsensitive :: "string \<Rightarrow> string \<Rightarrow> bool" where
  "equalCaseInsensitive a b \<longleftrightarrow> length b = length a \<and> list_all2 (\<lambda>x y. x = y \<or> tolower x = tolower y) a b"

fun find_from :: "char \<Rightarrow> nat \<Rightarrow> string \<Rightarrow> nat option" where
  "find_from c i [] = None"
| "find_from c i (x # xs) = (if x = c then Some i else find_from c (Suc i) xs)"

definition sd_find_char :: "char \<Rightarrow> nat \<Rightarrow> string \<Rightarrow> nat option" where
  "sd_find_char c fromPos s = (if fromPos \<ge> length s then None else find_from c fromPos (drop fromPos s))"

fun sd_find_loop :: "string \<Rightarrow> nat \<Rightarrow> string \<Rightarrow> nat option" where
  "sd_find_loop needle i [] = (if needle = [] then Some i else None)"
| "sd_find_loop needle i (x # xs) =
     (if take (length needle) (x # xs) = needle then Some i else sd_find_loop needle (Suc i) xs)"

definition sd_find :: "string \<Rightarrow> string \<Rightarrow> nat option" where
  "sd_find needle s =
     (if needle = [] then Some 0
      else if length needle > length s then None
      else sd_find_loop needle 0 s)"

fun sd_rfind_loop :: "char \<Rightarrow> nat \<Rightarrow> string \<Rightarrow> nat option" where
  "sd_rfind_loop c 0 s = None"
| "sd_rfind_loop c (Suc n) s = (if s ! n = c then Some n else sd_rfind_loop c n s)"

definition sd_rfind :: "char \<Rightarrow> nat \<Rightarrow> string \<Rightarrow> nat option" where
  "sd_rfind c fromPos s = sd_rfind_loop c (if fromPos > length s then length s else fromPos) s"

definition sd_substr :: "nat \<Rightarrow> nat \<Rightarrow> string \<Rightarrow> string option" where
  "sd_substr pos n s =
     (if pos > length s then None
      else Some (take (if n > length s - pos then length s - pos else n) (drop pos s)))"

definition sd_startsWith :: "string \<Rightarrow> string \<Rightarrow> bool" where
  "sd_startsWith pre s \<longleftrightarrow> sd_substr 0 (length pre) s = Some pre"

definition sd_endsWith :: "string \<Rightarrow> string \<Rightarrow> bool" where
  "sd_endsWith suf s \<longleftrightarrow>
     (if length suf > length s then False
      else sd_substr (length s - length suf) (length s) s = Some suf)"

section \<open>Splitting and joining\<close>

function split_loop :: "char \<Rightarrow> string \<Rightarrow> nat \<Rightarrow> nat option \<Rightarrow> string list" where
  "split_loop delim str beg None = [drop beg str]"
| "split_loop delim str beg (Some pos) =
     (if beg \<le> pos \<and> pos < length str then
        take (pos - beg) (drop beg str) # split_loop delim str (Suc pos) (sd_find_char delim (Suc pos) str)
      else [])"
  by pat_completeness auto
termination
  by (relation "measure (\<lambda>(delim, str, beg, pos). Suc (length str) - beg)") auto

definition splitStringDelim :: "char \<Rightarrow> string \<Rightarrow> string list" where
  "splitStringDelim delim str =
     (if str = [] then [] else split_loop delim str 0 (sd_find_char delim 0 str))"

fun join_loop :: "char \<Rightarrow> bool \<Rightarrow> string list \<Rightarrow> string \<Rightarrow> string" where
  "join_loop delim start [] res = res"
| "join_loop delim start (s # ss) res = join_loop delim False ss ((if start then res else res @ [delim]) @ s)"

definition joinStringDelim :: "char \<Rightarrow> string list \<Rightarrow> string" where
  "joinStringDelim delim strs = join_loop delim True strs []"

section \<open>Lexical and numeric comparison\<close>

text \<open>Plain characters are signed.\<close>

definition schar :: "char \<Rightarrow> int" where
  "schar c = (if (of_char c :: int) < 128 then of_char c else of_char c - 256)"

definition strip_zeros :: "bool \<Rightarrow> string \<Rightarrow> string" where
  "strip_zeros startWord s = (if startWord then dropWhile (\<lambda>c. c = CHR ''0'') s else s)"

definition digits_of :: "string \<Rightarrow> string" where
  "digits_of s = takeWhile isdigit s"

definition after_digits :: "bool \<Rightarrow> string \<Rightarrow> string" where
  "after_digits startWord s = dropWhile isdigit (strip_zeros startWord s)"

lemma after_digits_shorter:
  assumes "isdigit c"
  shows "length (after_digits startWord (c # s)) < length (c # s)"
proof (cases "startWord \<and> c = CHR ''0''")
  case True
  have "length (dropWhile isdigit (dropWhile (\<lambda>c. c = CHR ''0'') s)) \<le> length s"
    using length_dropWhile_le [of isdigit "dropWhile (\<lambda>c. c = CHR ''0'') s"]
      length_dropWhile_le [of "\<lambda>c. c = CHR ''0''" s] by linarith
  with True show ?thesis by (simp add: after_digits_def strip_zeros_def)
next
  case False
  then have "strip_zeros startWord (c # s) = c # s" by (auto simp: strip_zeros_def)
  then show ?thesis using assms length_dropWhile_le [of isdigit s] by (simp add: after_digits_def less_Suc_eq_le)
qed

lemma after_digits_less: "isdigit c \<Longrightarrow> length (after_digits startWord (c # s)) < Suc (length s)"
  using after_digits_shorter [of c startWord s] by simp

text \<open>Two numbers without leading zeros: the longer is greater, equally long ones compare by digits.\<close>

definition num_cmp :: "string \<Rightarrow> string \<Rightarrow> int" where
  "num_cmp d1 d2 =
     (if length d1 > length d2 then 1
      else if length d2 > length d1 then -1
      else byte_cmp d1 d2)"

function lexnum :: "bool \<Rightarrow> bool \<Rightarrow> string \<Rightarrow> string \<Rightarrow> int" where
  "lexnum lexOnly startWord (x # xs) (y # ys) =
     (if (x = CHR ''.'') \<noteq> (y = CHR ''.'') then (if x = CHR ''.'' then -1 else 1)
      else if x = CHR ''.'' then lexnum lexOnly True xs ys
      else if (x = CHR 0xFF) \<noteq> (y = CHR 0xFF) then (if x = CHR 0xFF then 1 else -1)
      else if \<not> lexOnly \<and> isdigit x \<and> isdigit y then
        (if num_cmp (digits_of (strip_zeros startWord (x # xs))) (digits_of (strip_zeros startWord (y # ys))) \<noteq> 0
         then num_cmp (digits_of (strip_zeros startWord (x # xs))) (digits_of (strip_zeros startWord (y # ys)))
         else lexnum lexOnly False (after_digits startWord (x # xs)) (after_digits startWord (y # ys)))
      else if \<not> lexOnly \<and> isdigit x then 1
      else if \<not> lexOnly \<and> isdigit y then -1
      else if schar x > schar y then 1
      else if schar y > schar x then -1
      else lexnum lexOnly False xs ys)"
| "lexnum lexOnly startWord [] ys = (if ys \<noteq> [] \<and> hd ys \<noteq> NUL then -1 else 0)"
| "lexnum lexOnly startWord (x # xs) [] = (if x \<noteq> NUL then 1 else 0)"
  by pat_completeness auto
termination
proof (relation "measure (\<lambda>(lexOnly, startWord, xs, ys). length xs)", goal_cases)
  case (3 lexOnly startWord x xs y ys)
  then have "isdigit x" by blast
  then show ?case by (simp add: after_digits_less)
qed simp_all

definition LexNumCmp_cmp :: "string \<Rightarrow> string \<Rightarrow> bool \<Rightarrow> int" where
  "LexNumCmp_cmp sd1 sd2 lexOnly = lexnum lexOnly True sd1 sd2"

definition LexNumCmp_lt :: "bool \<Rightarrow> string \<Rightarrow> string \<Rightarrow> bool" where
  "LexNumCmp_lt lexOnly s1 s2 \<longleftrightarrow> LexNumCmp_cmp s1 s2 lexOnly < 0"

definition strncmp :: "string \<Rightarrow> string \<Rightarrow> nat \<Rightarrow> int" where
  "strncmp a b n = byte_cmp (c_str (take n a)) (c_str (take n b))"

definition versionCmp :: "string \<Rightarrow> string \<Rightarrow> int" where
  "versionCmp rhs lhs =
     (if rhs = lhs then 0
      else if length rhs < length lhs \<and> strncmp rhs lhs (length rhs) = 0 \<and> lhs ! length rhs = CHR ''-'' then 1
      else if length rhs > length lhs \<and> strncmp rhs lhs (length lhs) = 0 \<and> rhs ! length lhs = CHR ''-'' then -1
      else LexNumCmp_cmp rhs lhs False)"

section \<open>Parsing integers\<close>

text \<open>The number type is given by its limits; \<open>num_cast\<close> is a conversion to it, which wraps.\<close>

record num_limits =
  nl_signed :: bool
  nl_min :: int
  nl_max :: int

definition num_cast :: "num_limits \<Rightarrow> int \<Rightarrow> int" where
  "num_cast nl x = nl_min nl + (x - nl_min nl) mod (nl_max nl - nl_min nl + 1)"

definition digitValue :: "char \<Rightarrow> int" where
  "digitValue c = (let v = (of_char c :: int) in
     if 48 \<le> v \<and> v \<le> 57 then v - 48
     else if 97 \<le> v \<and> v \<le> 122 then v - 97 + 10
     else if 65 \<le> v \<and> v \<le> 90 then v - 65 + 10
     else 36)"

definition extractSign :: "string \<Rightarrow> bool \<times> string" where
  "extractSign s = (case s of
     [] \<Rightarrow> (False, [])
   | c # cs \<Rightarrow> if c = CHR ''-'' then (True, cs) else if c = CHR ''+'' then (False, cs) else (False, s))"

definition extractBase :: "string \<Rightarrow> int \<Rightarrow> int \<times> string" where
  "extractBase s inputBase =
     (if inputBase = 0 then
        if length s > 2 \<and> (sd_startsWith ''0x'' s \<or> sd_startsWith ''0X'' s) then (16, drop 2 s)
        else if length s > 1 \<and> hd s = CHR ''0'' then (8, s)
        else (10, s)
      else (inputBase,
        if inputBase = 16 \<and> (sd_startsWith ''0x'' s \<or> sd_startsWith ''0X'' s) then drop 2 s else s))"

text \<open>Division truncates towards zero.\<close>

definition c_quot :: "int \<Rightarrow> int \<Rightarrow> int" where
  "c_quot a b = sgn a * sgn b * (\<bar>a\<bar> div \<bar>b\<bar>)"

fun parse_negative :: "num_limits \<Rightarrow> int \<Rightarrow> string \<Rightarrow> int \<Rightarrow> string + int" where
  "parse_negative nl base [] n = Inr n"
| "parse_negative nl base (c # cs) n =
     (if digitValue c \<ge> base then Inl ''Bad digit''
      else if num_cast nl (c_quot (nl_min nl) base) > n
              \<or> nl_min nl - num_cast nl (n * base) > - digitValue c then Inl ''Underflow''
      else parse_negative nl base cs (num_cast nl (num_cast nl (n * base) - digitValue c)))"

fun parse_positive :: "num_limits \<Rightarrow> int \<Rightarrow> string \<Rightarrow> int \<Rightarrow> string + int" where
  "parse_positive nl base [] n = Inr n"
| "parse_positive nl base (c # cs) n =
     (if digitValue c \<ge> base then Inl ''Bad digit''
      else if num_cast nl (c_quot (nl_max nl) base) < n
              \<or> num_cast nl (nl_max nl - n * base) < digitValue c then Inl ''Overflow''
      else parse_positive nl base cs (num_cast nl (num_cast nl (n * base) + digitValue c)))"

definition parseNumberFromStringWithBase :: "num_limits \<Rightarrow> string \<Rightarrow> int \<Rightarrow> string + int" where
  "parseNumberFromStringWithBase nl stringValue base =
     (if base = 1 \<or> base < 0 \<or> base > 36 then Inl ''Invalid base''
      else let (isNegative, s) = extractSign stringValue; (base', str) = extractBase s base in
        if str = [] then Inl ''No digits''
        else if isNegative then
          if nl_signed nl then parse_negative nl base' str 0 else Inl ''Negative value''
        else parse_positive nl base' str 0)"

subsection \<open>The value of a numeral\<close>

fun digits_value :: "int \<Rightarrow> string \<Rightarrow> int \<Rightarrow> int" where
  "digits_value base [] n = n"
| "digits_value base (c # cs) n = digits_value base cs (n * base + digitValue c)"

definition good_digits :: "int \<Rightarrow> string \<Rightarrow> bool" where
  "good_digits base s \<longleftrightarrow> (\<forall>c \<in> set s. digitValue c < base)"

text \<open>What a text means in unbounded integers: its sign and its value, if it is a numeral at all.\<close>

definition numeral_meaning :: "string \<Rightarrow> int \<Rightarrow> (bool \<times> int) option" where
  "numeral_meaning s base =
     (let (neg, s1) = extractSign s; (b, s2) = extractBase s1 base in
      if s2 = [] \<or> \<not> good_digits b s2 then None
      else Some (neg, if neg then - digits_value b s2 0 else digits_value b s2 0))"

definition limits_ok :: "num_limits \<Rightarrow> bool" where
  "limits_ok nl \<longleftrightarrow> nl_min nl \<le> 0 \<and> 36 \<le> nl_max nl \<and> (nl_signed nl \<longrightarrow> nl_min nl \<le> -36)"

lemma digitValue_range: "0 \<le> digitValue c" "digitValue c \<le> 36"
  by (auto simp: digitValue_def Let_def)

lemma num_cast_id: "nl_min nl \<le> x \<Longrightarrow> x \<le> nl_max nl \<Longrightarrow> num_cast nl x = x"
  by (simp add: num_cast_def)

lemma digits_value_ge: "2 \<le> base \<Longrightarrow> 0 \<le> n \<Longrightarrow> n \<le> digits_value base s n"
proof (induction s arbitrary: n)
  case (Cons c cs)
  have "n \<le> n * base" using Cons.prems by (metis mult.right_neutral mult_left_mono one_le_numeral order_trans)
  then have "n \<le> n * base + digitValue c" using digitValue_range(1) [of c] by linarith
  also have "\<dots> \<le> digits_value base cs (n * base + digitValue c)"
    using Cons.prems calculation by (intro Cons.IH) auto
  finally show ?case by simp
qed simp

lemma over_quotient:
  fixes m n base :: int
  assumes "0 < base"
  shows "m div base < n \<longleftrightarrow> m < n * base"
proof -
  have r: "base * (m div base) \<le> m" "m < base * (m div base) + base"
    using assms minus_mod_eq_mult_div [of m base] pos_mod_bound [of base m] pos_mod_sign [of base m] by linarith+
  show ?thesis
  proof
    assume "m div base < n"
    then have "base * (m div base + 1) \<le> base * n" using assms by (intro mult_left_mono) auto
    then show "m < n * base" using r(2) by (simp add: distrib_left mult.commute [of n])
  next
    assume "m < n * base"
    moreover have "base * n \<le> base * (m div base)" if "n \<le> m div base" using that assms by simp
    ultimately show "m div base < n" using r(1) by (simp only: mult.commute [of n]) linarith
  qed
qed

lemma quotient_range:
  fixes m base :: int
  assumes "0 \<le> m" "1 \<le> base"
  shows "0 \<le> m div base" "m div base \<le> m"
proof -
  show "0 \<le> m div base" using assms by (simp add: pos_imp_zdiv_nonneg_iff)
  have "m + 1 \<le> (m + 1) * base" using mult_left_mono [of 1 base "m + 1"] assms by simp
  then have "m < (m + 1) * base" by (rule less_le_trans [OF less_add_one])
  then show "m div base \<le> m" using over_quotient [of base m "m + 1"] assms by simp
qed

lemma parse_positive_iff:
  assumes "limits_ok nl" "2 \<le> base" "base \<le> 36" "0 \<le> n" "n \<le> nl_max nl"
  shows "parse_positive nl base s n = Inr v \<longleftrightarrow>
    good_digits base s \<and> digits_value base s n = v \<and> v \<le> nl_max nl"
  using assms(4,5)
proof (induction s arbitrary: n)
  case Nil
  then show ?case by (auto simp: good_digits_def)
next
  case (Cons c cs)
  have lim: "nl_min nl \<le> 0" "36 \<le> nl_max nl" using assms(1) by (auto simp: limits_ok_def)
  define q where "q = nl_max nl div base"
  have q0: "0 \<le> q" "q \<le> nl_max nl" using lim assms(2) quotient_range [of "nl_max nl" base] by (simp_all add: q_def)
  have q: "num_cast nl (c_quot (nl_max nl) base) = q"
    using lim assms(2) q0 by (subst num_cast_id) (auto simp: c_quot_def q_def)
  have oq: "q < n \<longleftrightarrow> nl_max nl < n * base" using assms(2) Cons.prems by (simp add: q_def over_quotient)
  have dv: "0 \<le> digitValue c" by (rule digitValue_range)
  have nb: "0 \<le> n * base" using Cons.prems assms(2) by simp
  have ge: "n * base + digitValue c \<le> digits_value base cs (n * base + digitValue c)"
    using assms(2) nb dv by (intro digits_value_ge) auto
  show ?case
  proof (cases "digitValue c < base \<and> n * base + digitValue c \<le> nl_max nl")
    case True
    then have "num_cast nl (nl_max nl - n * base) = nl_max nl - n * base" "num_cast nl (n * base) = n * base"
      "num_cast nl (n * base + digitValue c) = n * base + digitValue c"
      using lim nb dv by (auto intro!: num_cast_id)
    then have "parse_positive nl base (c # cs) n = parse_positive nl base cs (n * base + digitValue c)"
      using True q oq dv by simp
    then show ?thesis using Cons.IH [of "n * base + digitValue c"] True nb dv by (simp add: good_digits_def)
  next
    case False
    have "parse_positive nl base (c # cs) n \<noteq> Inr v"
    proof (cases "nl_max nl < n * base")
      case le: False
      then have "num_cast nl (nl_max nl - n * base) = nl_max nl - n * base"
        using lim nb by (intro num_cast_id) auto
      then show ?thesis using False le by auto
    qed (use q oq in simp)
    moreover have "\<not> (good_digits base (c # cs) \<and> digits_value base (c # cs) n = v \<and> v \<le> nl_max nl)"
      using False ge by (auto simp: good_digits_def)
    ultimately show ?thesis by blast
  qed
qed

lemma parse_negative_iff:
  assumes "limits_ok nl" "nl_signed nl" "2 \<le> base" "base \<le> 36" "n \<le> 0" "nl_min nl \<le> n"
  shows "parse_negative nl base s n = Inr v \<longleftrightarrow>
    good_digits base s \<and> - digits_value base s (- n) = v \<and> nl_min nl \<le> v"
  using assms(5,6)
proof (induction s arbitrary: n)
  case Nil
  then show ?case by (auto simp: good_digits_def)
next
  case (Cons c cs)
  have lim: "nl_min nl \<le> -36" "36 \<le> nl_max nl" using assms(1,2) by (auto simp: limits_ok_def)
  define q where "q = (- nl_min nl) div base"
  have q0: "0 \<le> q" "q \<le> - nl_min nl" using lim assms(3) quotient_range [of "- nl_min nl" base] by (simp_all add: q_def)
  have q: "num_cast nl (c_quot (nl_min nl) base) = - q"
    using lim assms(3) q0 by (subst num_cast_id) (auto simp: c_quot_def q_def)
  have oq: "n < - q \<longleftrightarrow> - nl_min nl < (- n) * base"
    using assms(3) over_quotient [of base "- nl_min nl" "- n"] unfolding q_def [symmetric] by linarith
  have dv: "0 \<le> digitValue c" by (rule digitValue_range)
  have nb: "0 \<le> (- n) * base" using Cons.prems assms(3) by (intro mult_nonneg_nonneg) auto
  have ge: "(- n) * base + digitValue c \<le> digits_value base cs ((- n) * base + digitValue c)"
    using assms(3) nb dv by (intro digits_value_ge) auto
  show ?case
  proof (cases "digitValue c < base \<and> nl_min nl \<le> n * base - digitValue c")
    case True
    then have "num_cast nl (n * base) = n * base" "num_cast nl (n * base - digitValue c) = n * base - digitValue c"
      using lim nb dv by (auto intro!: num_cast_id)
    then have "parse_negative nl base (c # cs) n = parse_negative nl base cs (n * base - digitValue c)"
      using True q oq dv by simp
    then show ?thesis using Cons.IH [of "n * base - digitValue c"] True nb dv by (simp add: good_digits_def)
  next
    case False
    have "parse_negative nl base (c # cs) n \<noteq> Inr v"
    proof (cases "- nl_min nl < (- n) * base")
      case le: False
      then have "num_cast nl (n * base) = n * base" using lim nb by (intro num_cast_id) auto
      then show ?thesis using False le by auto
    qed (use q oq in simp)
    moreover have "\<not> (good_digits base (c # cs) \<and> - digits_value base (c # cs) (- n) = v \<and> nl_min nl \<le> v)"
      using False ge by (auto simp: good_digits_def)
    ultimately show ?thesis by blast
  qed
qed

lemma parseNumber_iff:
  assumes "limits_ok nl" "base = 0 \<or> 2 \<le> base \<and> base \<le> 36"
  shows "parseNumberFromStringWithBase nl s base = Inr v \<longleftrightarrow>
    (\<exists>neg. numeral_meaning s base = Some (neg, v) \<and> (neg \<longrightarrow> nl_signed nl) \<and> nl_min nl \<le> v \<and> v \<le> nl_max nl)"
proof -
  obtain neg s1 where sg: "extractSign s = (neg, s1)" by fastforce
  obtain b s2 where bs: "extractBase s1 base = (b, s2)" by fastforce
  have b: "2 \<le> b" "b \<le> 36" using bs assms(2) by (auto simp: extractBase_def split: if_splits)
  have lim: "nl_min nl \<le> 0" "0 \<le> nl_max nl" using assms(1) by (auto simp: limits_ok_def)
  define D where "D = digits_value b s2 0"
  have nn: "0 \<le> D" using digits_value_ge [of b 0 s2] b by (simp add: D_def)
  have pn: "parseNumberFromStringWithBase nl s base = (if s2 = [] then Inl ''No digits''
      else if neg then if nl_signed nl then parse_negative nl b s2 0 else Inl ''Negative value''
      else parse_positive nl b s2 0)"
    using assms(2) by (auto simp: parseNumberFromStringWithBase_def sg bs)
  have nm: "numeral_meaning s base = (if s2 = [] \<or> \<not> good_digits b s2 then None
      else Some (neg, if neg then - D else D))"
    by (simp add: numeral_meaning_def sg bs D_def)
  have pos: "parse_positive nl b s2 0 = Inr v \<longleftrightarrow> good_digits b s2 \<and> v = D \<and> v \<le> nl_max nl"
    using parse_positive_iff [OF assms(1) b, of 0 s2 v] lim by (auto simp: D_def)
  have neg: "parse_negative nl b s2 0 = Inr v \<longleftrightarrow> good_digits b s2 \<and> v = - D \<and> nl_min nl \<le> v"
    if "nl_signed nl" using parse_negative_iff [OF assms(1) that b, of 0 s2 v] lim by (auto simp: D_def)
  show ?thesis
  proof (cases neg)
    case True
    then have "parseNumberFromStringWithBase nl s base = Inr v \<longleftrightarrow>
        s2 \<noteq> [] \<and> nl_signed nl \<and> good_digits b s2 \<and> v = - D \<and> nl_min nl \<le> v"
      using neg by (simp add: pn)
    moreover have "v = - D \<Longrightarrow> v \<le> nl_max nl" using lim nn by linarith
    ultimately show ?thesis using True unfolding nm by auto
  next
    case False
    then have "parseNumberFromStringWithBase nl s base = Inr v \<longleftrightarrow>
        s2 \<noteq> [] \<and> good_digits b s2 \<and> v = D \<and> v \<le> nl_max nl"
      using pos by (simp add: pn)
    moreover have "v = D \<Longrightarrow> nl_min nl \<le> v" using lim nn by linarith
    ultimately show ?thesis using False unfolding nm by auto
  qed
qed

text \<open>
  C34.  Parsing an integer succeeds exactly on the texts that denote an integer of the target type, and
  yields the integer they denote: the digit-by-digit overflow checks neither reject a value in range
  nor let one wrap, for every base and for signed and unsigned types of every width of 8 bits or more.
\<close>

theorem parseNumber_correct:
  assumes "limits_ok nl" "base = 0 \<or> 2 \<le> base \<and> base \<le> 36"
  shows "parseNumberFromStringWithBase nl s base = Inr v \<longleftrightarrow>
    (\<exists>neg. numeral_meaning s base = Some (neg, v) \<and> (neg \<longrightarrow> nl_signed nl) \<and> nl_min nl \<le> v \<and> v \<le> nl_max nl)"
  using assms by (rule parseNumber_iff)

definition int8_limits :: num_limits where
  "int8_limits = \<lparr>nl_signed = True, nl_min = -128, nl_max = 127\<rparr>"

lemma parseNumber_correct_witness:
  "limits_ok int8_limits \<and> parseNumberFromStringWithBase int8_limits ''-0x80'' 0 = Inr (-128)
   \<and> parseNumberFromStringWithBase int8_limits ''128'' 10 \<noteq> Inr 128"
proof -
  have ok: "limits_ok int8_limits" by (simp add: limits_ok_def int8_limits_def)
  have "numeral_meaning ''-0x80'' 0 = Some (True, -128)" by code_simp
  then have "parseNumberFromStringWithBase int8_limits ''-0x80'' 0 = Inr (-128)"
    using parseNumber_correct [OF ok, of 0 "''-0x80''" "-128"] by (auto simp: int8_limits_def)
  moreover have "parseNumberFromStringWithBase int8_limits ''128'' 10 \<noteq> Inr 128"
    using parseNumber_correct [OF ok, of 10 "''128''" 128] by (simp add: int8_limits_def)
  ultimately show ?thesis using ok by blast
qed

subsection \<open>Printing and parsing\<close>

lemma digits_value_append: "digits_value base (s @ t) n = digits_value base t (digits_value base s n)"
  by (induction s arbitrary: n) auto

lemma digitValue_digit_char: "d < 10 \<Longrightarrow> digitValue (digit_char d) = int d"
proof -
  assume d: "d < 10"
  have "(of_char (digit_char d) :: int) = 48 + int d"
    using of_char_digit_char [OF d] by (metis of_nat_add of_nat_numeral of_nat_of_char)
  then show ?thesis using d by (simp add: digitValue_def)
qed

lemma digits_value_nat_str: "digits_value 10 (nat_str n) 0 = int n"
proof (induction n rule: nat_str.induct)
  case (1 n)
  show ?case
  proof (cases "n < 10")
    case True
    then show ?thesis by (simp add: nat_str_code(1) digitValue_digit_char)
  next
    case False
    have "10 * int (n div 10) + int (n mod 10) = int n" by (metis mult_div_mod_eq of_nat_add of_nat_mult of_nat_numeral)
    then show ?thesis
      using False 1 by (simp add: nat_str_code(2) [OF False] digits_value_append digitValue_digit_char algebra_simps)
  qed
qed

lemma isdigit_digitValue: "isdigit c \<Longrightarrow> digitValue c < 10"
proof -
  assume "isdigit c"
  moreover have "(of_char c :: int) = int (of_char c)" by (simp only: of_nat_of_char)
  ultimately have "48 \<le> (of_char c :: int)" "(of_char c :: int) \<le> 57" unfolding isdigit_def by linarith+
  then show ?thesis by (simp add: digitValue_def)
qed

lemma good_digits_nat_str: "good_digits 10 (nat_str n)"
  using nat_str_digits [of n] isdigit_digitValue by (auto simp: good_digits_def)

lemma extractSign_nat_str: "extractSign (nat_str n) = (False, nat_str n)"
proof -
  obtain c cs where c: "nat_str n = c # cs" by (cases "nat_str n") auto
  then have "isdigit c" using nat_str_digits [of n] by simp
  then have "c \<noteq> CHR ''-''" "c \<noteq> CHR ''+''" by (auto simp: isdigit_def)
  then show ?thesis by (simp add: c extractSign_def)
qed

lemma numeral_meaning_int_str: "numeral_meaning (int_str i) 10 = Some (i < 0, i)"
  using extractSign_nat_str [of "nat i"]
  by (auto simp: numeral_meaning_def int_str_def extractSign_def [of "_ # _"] extractBase_def
      good_digits_nat_str digits_value_nat_str)

text \<open>
  Printing an integer in decimal and parsing the text gives the integer back, for every number
  type that contains it.
\<close>

theorem parseNumber_int_str:
  assumes "limits_ok nl" "nl_min nl \<le> i" "i \<le> nl_max nl" "i < 0 \<Longrightarrow> nl_signed nl"
  shows "parseNumberFromStringWithBase nl (int_str i) 10 = Inr i"
  using parseNumber_iff [OF assms(1), of 10 "int_str i" i] assms(2-4) by (simp add: numeral_meaning_int_str)

lemma parseNumber_int_str_witness:
  "parseNumberFromStringWithBase int8_limits (int_str (-128)) 10 = Inr (-128)"
  by (rule parseNumber_int_str) (simp_all add: limits_ok_def int8_limits_def)

section \<open>Splitting and joining are inverse\<close>

lemma find_from_Some:
  "find_from c i s = Some p \<Longrightarrow> i \<le> p \<and> p < i + length s \<and> s ! (p - i) = c \<and> c \<notin> set (take (p - i) s)"
proof (induction s arbitrary: i)
  case (Cons x xs)
  show ?case
  proof (cases "x = c")
    case False
    then have IH: "Suc i \<le> p \<and> p < Suc i + length xs \<and> xs ! (p - Suc i) = c \<and> c \<notin> set (take (p - Suc i) xs)"
      using Cons.IH [of "Suc i"] Cons.prems by simp
    then have "p - i = Suc (p - Suc i)" by (simp add: Suc_diff_Suc)
    then show ?thesis using IH False by auto
  qed (use Cons.prems in auto)
qed simp

lemma find_from_None: "find_from c i s = None \<Longrightarrow> c \<notin> set s"
  by (induction s arbitrary: i) (auto split: if_splits)

lemma sd_find_char_Some:
  assumes "sd_find_char c i s = Some p"
  shows "i \<le> p" "p < length s" "drop i s = take (p - i) (drop i s) @ c # drop (Suc p) s"
    "c \<notin> set (take (p - i) (drop i s))"
proof -
  have f: "i < length s" "find_from c i (drop i s) = Some p" using assms by (auto simp: sd_find_char_def split: if_splits)
  note p = find_from_Some [OF f(2)]
  show "i \<le> p" "p < length s" "c \<notin> set (take (p - i) (drop i s))" using p f(1) by auto
  have "drop i s = take (p - i) (drop i s) @ drop i s ! (p - i) # drop (Suc (p - i)) (drop i s)"
    using p by (intro id_take_nth_drop) auto
  then show "drop i s = take (p - i) (drop i s) @ c # drop (Suc p) s"
    using p by (simp add: add.commute [of i])
qed

lemma sd_find_char_None: "sd_find_char c i s = None \<Longrightarrow> c \<notin> set (drop i s)"
  by (auto simp: sd_find_char_def split: if_splits dest: find_from_None)

text \<open>A list of parts glued together with the delimiter.\<close>

definition glue :: "char \<Rightarrow> string list \<Rightarrow> string" where
  "glue d ps = (case ps of [] \<Rightarrow> [] | p # qs \<Rightarrow> p @ concat (map (\<lambda>q. d # q) qs))"

lemma joinStringDelim_glue: "joinStringDelim d ps = glue d ps"
proof -
  have "join_loop d False qs res = res @ concat (map (\<lambda>q. d # q) qs)" for qs res
    by (induction qs arbitrary: res) auto
  then show ?thesis by (cases ps) (auto simp: joinStringDelim_def glue_def)
qed

lemma glue_Cons: "ps \<noteq> [] \<Longrightarrow> glue d (p # ps) = p @ d # glue d ps"
  by (cases ps) (auto simp: glue_def)

lemma split_loop_glue:
  "pos = sd_find_char d beg str \<Longrightarrow> split_loop d str beg pos \<noteq> []
    \<and> glue d (split_loop d str beg pos) = drop beg str
    \<and> (\<forall>p \<in> set (split_loop d str beg pos). d \<notin> set p)"
proof (induction d str beg pos rule: split_loop.induct)
  case (1 delim str beg)
  then show ?case by (auto simp: glue_def dest: sd_find_char_None [OF sym])
next
  case (2 delim str beg pos)
  note f = sd_find_char_Some [OF 2(2) [symmetric]]
  let ?rest = "split_loop delim str (Suc pos) (sd_find_char delim (Suc pos) str)"
  have IH: "?rest \<noteq> []" "glue delim ?rest = drop (Suc pos) str" "\<forall>p \<in> set ?rest. delim \<notin> set p"
    using 2(1) f by auto
  then show ?case using f(1,2,4) by (simp add: glue_Cons f(3) [symmetric])
qed

lemma glue_inj:
  assumes "glue d ps = glue d qs" "ps \<noteq> []" "qs \<noteq> []" "\<forall>p \<in> set ps. d \<notin> set p" "\<forall>q \<in> set qs. d \<notin> set q"
  shows "ps = qs"
  using assms
proof (induction ps arbitrary: qs)
  case (Cons p ps)
  obtain q qs' where qs: "qs = q # qs'" using Cons.prems(3) by (cases qs) auto
  have tw: "takeWhile (\<lambda>c. c \<noteq> d) (glue d (r # rs)) = r" if "d \<notin> set r" for r rs
    using that by (cases rs) (auto simp: glue_def takeWhile_eq_all_conv takeWhile_tail)
  have pq: "p = q" using tw [of p ps] tw [of q qs'] Cons.prems qs by simp
  show ?case
  proof (cases "ps = []"; cases "qs' = []")
    assume "ps \<noteq> []" "qs' \<noteq> []"
    then have "glue d ps = glue d qs'" using Cons.prems(1) pq qs by (simp add: glue_Cons)
    then show ?thesis using Cons.IH [of qs'] Cons.prems \<open>ps \<noteq> []\<close> \<open>qs' \<noteq> []\<close> pq qs by simp
  qed (use Cons.prems(1) pq qs in \<open>auto simp: glue_Cons glue_def [of d "[_]"]\<close>)
qed simp

lemma splitStringDelim_glue:
  "t \<noteq> [] \<Longrightarrow> splitStringDelim d t \<noteq> [] \<and> glue d (splitStringDelim d t) = t
    \<and> (\<forall>p \<in> set (splitStringDelim d t). d \<notin> set p)"
  using split_loop_glue [OF refl, where d = d and beg = 0 and str = t] by (simp add: splitStringDelim_def)

lemma split_join_pieces:
  assumes ps: "ps \<noteq> []" "ps \<noteq> [[]]" "\<forall>p \<in> set ps. d \<notin> set p"
  shows "splitStringDelim d (joinStringDelim d ps) = ps"
proof -
  have "glue d ps \<noteq> []" using ps(1,2) by (cases ps rule: remdups_adj.cases) (auto simp: glue_def)
  with splitStringDelim_glue [of "glue d ps" d] ps glue_inj [of d "splitStringDelim d (glue d ps)" ps]
  show ?thesis unfolding joinStringDelim_glue by blast
qed

text \<open>
  Splitting a text at a delimiter and joining the parts again gives the text, and splitting a
  joined list of delimiter-free parts gives the parts, except that the list of one empty part comes
  back as no part at all.
\<close>

theorem split_join_inverse:
  "joinStringDelim d (splitStringDelim d s) = s
   \<and> (ps \<noteq> [] \<longrightarrow> ps \<noteq> [[]] \<longrightarrow> (\<forall>p \<in> set ps. d \<notin> set p) \<longrightarrow> splitStringDelim d (joinStringDelim d ps) = ps)"
  using splitStringDelim_glue [of s d] split_join_pieces [of ps d]
  by (cases "s = []") (auto simp: joinStringDelim_glue splitStringDelim_def glue_def)

lemma split_join_inverse_witness:
  "splitStringDelim CHR '','' (joinStringDelim CHR '','' [''a'', [], ''b'']) = [''a'', [], ''b'']"
  using split_join_inverse [of "CHR '',''" "[]" "[''a'', [], ''b'']"] by simp

section \<open>The lexical and numeric order is antisymmetric\<close>

lemma num_cmp_anti: "num_cmp b a = - num_cmp a b"
  by (simp add: num_cmp_def byte_cmp_anti [of a b])

lemma lexnum_char:
  assumes "x \<noteq> CHR ''.''" "y \<noteq> CHR ''.''" "(x = CHR 0xFF) = (y = CHR 0xFF)"
    "\<not> (\<not> lexOnly \<and> isdigit x)" "\<not> (\<not> lexOnly \<and> isdigit y)"
  shows "lexnum lexOnly startWord (x # xs) (y # ys) = (if schar x > schar y then 1 else if schar y > schar x then -1
    else lexnum lexOnly False xs ys)"
  using assms by (cases lexOnly) (simp_all cong: if_cong split del: if_split)

lemma lexnum_anti: "lexnum lexOnly w ys xs = - lexnum lexOnly w xs ys"
proof (induction lexOnly w xs ys rule: lexnum.induct)
  case (1 lexOnly startWord x xs y ys)
  note anti = num_cmp_anti [of "digits_of (strip_zeros startWord (y # ys))" "digits_of (strip_zeros startWord (x # xs))"]
  consider (dots) "x = CHR ''.''" "y = CHR ''.''" | (dot) "(x = CHR ''.'') \<noteq> (y = CHR ''.'')"
    | (last) "x \<noteq> CHR ''.''" "y \<noteq> CHR ''.''" "(x = CHR 0xFF) \<noteq> (y = CHR 0xFF)"
    | (num) "x \<noteq> CHR ''.''" "y \<noteq> CHR ''.''" "(x = CHR 0xFF) = (y = CHR 0xFF)" "\<not> lexOnly" "isdigit x" "isdigit y"
    | (char) "x \<noteq> CHR ''.''" "y \<noteq> CHR ''.''" "(x = CHR 0xFF) = (y = CHR 0xFF)" "lexOnly \<or> \<not> isdigit x \<or> \<not> isdigit y"
    by blast
  then show ?case
  proof cases
    case dots
    then show ?thesis using "1.IH"(1) by simp
  next
    case num
    let ?a = "digits_of (strip_zeros startWord (x # xs))" and ?b = "digits_of (strip_zeros startWord (y # ys))"
    let ?r = "lexnum lexOnly False (after_digits startWord (x # xs)) (after_digits startWord (y # ys))"
    let ?s = "lexnum lexOnly False (after_digits startWord (y # ys)) (after_digits startWord (x # xs))"
    have "lexnum lexOnly startWord (x # xs) (y # ys) = (if num_cmp ?a ?b \<noteq> 0 then num_cmp ?a ?b else ?r)"
      "lexnum lexOnly startWord (y # ys) (x # xs) = (if num_cmp ?b ?a \<noteq> 0 then num_cmp ?b ?a else ?s)"
      using num by simp_all
    moreover have "num_cmp ?a ?b = 0 \<Longrightarrow> ?s = - ?r" using "1.IH"(2) num by blast
    ultimately show ?thesis using anti by (cases "num_cmp ?a ?b = 0") simp_all
  next
    case char
    consider "\<not> lexOnly" "isdigit x" "\<not> isdigit y" | "\<not> lexOnly" "isdigit y" "\<not> isdigit x"
      | (cmp) "\<not> (\<not> lexOnly \<and> isdigit x)" "\<not> (\<not> lexOnly \<and> isdigit y)"
      using char(4) by blast
    then show ?thesis
    proof cases
      case cmp
      note lx = lexnum_char [OF char(1-3) cmp] lexnum_char [OF char(2,1) char(3) [symmetric] cmp(2,1)]
      have "\<not> schar x > schar y \<Longrightarrow> \<not> schar y > schar x \<Longrightarrow> lexnum lexOnly False ys xs = - lexnum lexOnly False xs ys"
        using "1.IH"(3) char(1-3) cmp by blast
      then show ?thesis unfolding lx by simp
    qed (use char in simp_all)
  qed auto
next
  case (2 lexOnly startWord ys)
  then show ?case by (cases ys) auto
qed simp

lemma strncmp_anti: "strncmp b a n = - strncmp a b n"
  by (simp add: strncmp_def byte_cmp_anti [of "c_str (take n a)"])

text \<open>
  The comparison of strings with embedded numbers and the comparison of version numbers are
  antisymmetric: swapping the arguments negates the result, so no two strings are each less than the
  other.
\<close>

theorem LexNumCmp_antisym:
  "LexNumCmp_cmp b a lexOnly = - LexNumCmp_cmp a b lexOnly \<and> versionCmp b a = - versionCmp a b"
proof -
  have "LexNumCmp_cmp b a lo = - LexNumCmp_cmp a b lo" for lo by (simp add: LexNumCmp_cmp_def lexnum_anti [of lo True b a])
  moreover have "strncmp b a n = 0 \<longleftrightarrow> strncmp a b n = 0" for n by (simp add: strncmp_anti [of a b])
  ultimately show ?thesis by (auto simp: versionCmp_def)
qed

end
