(* ===== verification/HostPort.thy ===== *)
theory HostPort
  imports StdLib Strings
begin

text \<open>
  Host and port pairs: \<open>src/src/mongo/util/net/hostandport.h\<close>.  Whether a pair names this process
  depends on the network interfaces and is a parameter where it is used.
\<close>

section \<open>Parsing and printing\<close>

record host_port =
  hp_host :: string
  hp_port :: int

definition DefaultDBPort :: int where
  "DefaultDBPort = 27017"

definition hp_init :: host_port where
  "hp_init = \<lparr>hp_host = [], hp_port = -1\<rparr>"

definition hasPort :: "host_port \<Rightarrow> bool" where
  "hasPort h \<longleftrightarrow> hp_port h \<ge> 0"

definition port :: "host_port \<Rightarrow> int" where
  "port h = (if hasPort h then hp_port h else DefaultDBPort)"

definition setPort :: "int \<Rightarrow> host_port \<Rightarrow> host_port" where
  "setPort p h = h\<lparr>hp_port := p\<rparr>"

definition hp_empty :: "host_port \<Rightarrow> bool" where
  "hp_empty h \<longleftrightarrow> hp_host h = [] \<and> hp_port h < 0"

definition HostAndPort2 :: "string \<Rightarrow> int \<Rightarrow> host_port result" where
  "HostAndPort2 h p =
     (if h \<noteq> [] \<and> hd h = CHR ''#'' then Inl (VerifyFailed ''!startsWith(h, #)'')
      else Inr \<lparr>hp_host = h, hp_port = p\<rparr>)"

text \<open>
  \<open>atoi\<close>: blanks, a sign and digits are read, the rest is ignored; the result is the 64-bit value,
  which saturates, cut down to 32 bits.
\<close>

definition isspace :: "char \<Rightarrow> bool" where
  "isspace c \<longleftrightarrow> (of_char c :: nat) = 32 \<or> (9 \<le> (of_char c :: nat) \<and> (of_char c :: nat) \<le> 13)"

definition atoi :: "string \<Rightarrow> int" where
  "atoi s =
     (let (neg, ds) = extractSign (dropWhile isspace s);
          v = digits_value 10 (takeWhile isdigit ds) 0;
          v' = (if neg then max (- (2 ^ 63)) (- v) else min (2 ^ 63 - 1) v)
      in sint (word_of_int v' :: 32 word))"

definition hp_parse :: "string \<Rightarrow> host_port result" where
  "hp_parse p =
     (if p = [] then Inl (MsgAssertion 13110 ''HostAndPort: host is empty'')
      else (case sd_rfind CHR '':'' (length p) p of
        Some colon \<Rightarrow>
          let pt = atoi (drop (Suc colon) p) in
          if pt > 0 then Inr \<lparr>hp_host = take colon p, hp_port = pt\<rparr>
          else Inl (MsgAssertion 13095 ''HostAndPort: bad port #'')
      | None \<Rightarrow> Inr \<lparr>hp_host = p, hp_port = -1\<rparr>))"

definition HostAndPort :: "string \<Rightarrow> host_port result" where
  "HostAndPort s = hp_parse (c_str s)"

definition hp_append :: "host_port \<Rightarrow> string" where
  "hp_append h = hp_host h @ (if port h \<noteq> -1 then '':'' @ int_str (port h) else [])"

definition hp_toString :: "bool \<Rightarrow> host_port \<Rightarrow> string" where
  "hp_toString includePort h = (if \<not> includePort then hp_host h else hp_append h)"

definition hp_lt :: "host_port \<Rightarrow> host_port \<Rightarrow> bool" where
  "hp_lt l r =
     (let cmp = byte_cmp (hp_host l) (hp_host r) in
      if cmp \<noteq> 0 then cmp < 0 else port l < port r)"

definition hp_eq :: "host_port \<Rightarrow> host_port \<Rightarrow> bool" where
  "hp_eq l r \<longleftrightarrow> hp_host l = hp_host r \<and> port l = port r"

definition isLocalHost :: "host_port \<Rightarrow> bool" where
  "isLocalHost h \<longleftrightarrow> hp_host h = ''localhost'' \<or> take 4 (hp_host h) = ''127.'' \<or> hp_host h = ''::1''
     \<or> hp_host h = ''anonymous unix socket'' \<or> (hp_host h \<noteq> [] \<and> hd (hp_host h) = CHR ''/'')"

text \<open>\<open>me()\<close>: the first of the bound addresses that is not local, or the name of the host.\<close>

fun me_loop :: "string list \<Rightarrow> int \<Rightarrow> host_port option result" where
  "me_loop [] pt = Inr None"
| "me_loop (ip # ips) pt =
     rbind (HostAndPort2 ip pt) (\<lambda>h. if \<not> isLocalHost h then Inr (Some h) else me_loop ips pt)"

text \<open>The pieces of the list; a trailing comma leaves nothing to read.\<close>

fun ip_pieces :: "string list \<Rightarrow> string list" where
  "ip_pieces [] = []"
| "ip_pieces [p] = (if p = [] then [] else [p])"
| "ip_pieces (p # ps) = p # ip_pieces ps"

definition me :: "string \<Rightarrow> int \<Rightarrow> string \<Rightarrow> host_port result" where
  "me bind_ip pt hostName =
     rbind (me_loop (ip_pieces (splitStringDelim CHR '','' (c_str bind_ip))) pt) (\<lambda>r.
       case r of Some h \<Rightarrow> Inr h
       | None \<Rightarrow>
           if hostName = [] then Inl (VerifyFailed ''!h.empty()'')
           else if hostName = ''localhost'' then Inl (VerifyFailed ''h != localhost'')
           else HostAndPort2 hostName pt)"

section \<open>Order\<close>

lemma hp_lt_iff:
  "hp_lt l r \<longleftrightarrow>
     bytes_of (hp_host l) < bytes_of (hp_host r) \<or> hp_host l = hp_host r \<and> port l < port r"
  using byte_cmp_less_iff [of "hp_host l" "hp_host r"] byte_cmp_zero_iff [of "hp_host l" "hp_host r"]
  by (auto simp: hp_lt_def Let_def)

lemma hp_not_lt_iff:
  "\<not> hp_lt l r \<longleftrightarrow>
     bytes_of (hp_host r) < bytes_of (hp_host l) \<or> hp_host l = hp_host r \<and> port r \<le> port l"
proof -
  have "byte_cmp (hp_host r) (hp_host l) = - byte_cmp (hp_host l) (hp_host r)"
    by (rule byte_cmp_anti)
  then show ?thesis
    unfolding byte_cmp_less_iff [symmetric] hp_lt_def Let_def
    using byte_cmp_range [of "hp_host l" "hp_host r"] by (cases "hp_host l = hp_host r") auto
qed

lemma hp_eq_iff: "hp_eq l r \<longleftrightarrow> \<not> hp_lt l r \<and> \<not> hp_lt r l"
  unfolding hp_eq_def by (metis hp_lt_iff hp_not_lt_iff less_irrefl linorder_neqE order_antisym order_refl)

interpretation hp_order: strict_weak_order hp_lt
proof
  fix x y z
  show "hp_lt x y \<Longrightarrow> \<not> hp_lt y x" by (auto simp: hp_lt_iff)
  assume "\<not> hp_lt x y" "\<not> hp_lt y z"
  then show "\<not> hp_lt x z" unfolding hp_not_lt_iff by (auto intro: less_trans)
qed

section \<open>Printing and parsing\<close>

lemma sd_rfind_loop_append:
  "c \<notin> set t \<Longrightarrow> sd_rfind_loop c (length s + Suc (length t)) (s @ c # t) = Some (length s)"
proof (induction t rule: rev_induct)
  case (snoc x t)
  have shift: "n \<le> length u \<Longrightarrow> sd_rfind_loop c n (u @ [x]) = sd_rfind_loop c n u" for n u
    by (induction n) (auto simp: nth_append)
  show ?case
    using snoc shift [of "length s + Suc (length t)" "s @ c # t"] by (auto simp: nth_append)
qed simp

lemma isdigit_not_space: "isdigit c \<Longrightarrow> \<not> isspace c"
  by (auto simp: isdigit_def isspace_def)

lemma atoi_int_str:
  assumes "0 \<le> p" "p < 2 ^ 31"
  shows "atoi (int_str p) = p"
proof -
  have d: "int_str p = nat_str (nat p)" using assms(1) by (simp add: int_str_def)
  obtain c cs where c: "nat_str (nat p) = c # cs" by (cases "nat_str (nat p)") auto
  have dw: "dropWhile isspace (nat_str (nat p)) = nat_str (nat p)"
    using nat_str_digits [of "nat p"] isdigit_not_space by (simp add: c)
  have tw: "takeWhile isdigit (nat_str (nat p)) = nat_str (nat p)"
    using nat_str_digits [of "nat p"] by (simp add: takeWhile_eq_all_conv)
  have "atoi (int_str p) = sint (word_of_int p :: 32 word)"
    using assms by (simp add: atoi_def d dw tw extractSign_nat_str digits_value_nat_str)
  then show ?thesis
    using assms by (simp add: signed_of_int signed_take_bit_int_eq_self)
qed

lemma int_str_digits: "0 \<le> p \<Longrightarrow> c \<in> set (int_str p) \<Longrightarrow> isdigit c"
  using nat_str_digits [of "nat p"] by (auto simp: int_str_def)

lemma not_isdigit [simp]: "\<not> isdigit CHR '':''" "\<not> isdigit NUL"
  by (simp_all add: isdigit_def NUL_def)

lemma HostAndPort_append:
  assumes "NUL \<notin> set h" "0 < p" "p < 2 ^ 31"
  shows "HostAndPort (h @ '':'' @ int_str p) = Inr \<lparr>hp_host = h, hp_port = p\<rparr>"
proof -
  have nul: "NUL \<notin> set (int_str p)" "CHR '':'' \<notin> set (int_str p)"
    using int_str_digits [of p] assms(2) not_isdigit by fastforce+
  have "c_str (h @ '':'' @ int_str p) = h @ CHR '':'' # int_str p"
    using assms(1) nul by (subst c_str_id) (auto simp: NUL_def)
  moreover have "sd_rfind CHR '':'' (length (h @ CHR '':'' # int_str p)) (h @ CHR '':'' # int_str p) = Some (length h)"
    using sd_rfind_loop_append [OF nul(2), of h] by (simp add: sd_rfind_def)
  ultimately show ?thesis
    using atoi_int_str [of p] assms by (simp add: HostAndPort_def hp_parse_def)
qed

text \<open>
  Parsing the printed form of a host and port gives an equal pair back, whatever colons the host
  contains; a pair that had no port comes back with the default one.
\<close>

theorem HostAndPort_toString:
  assumes "NUL \<notin> set (hp_host h)" "0 < port h" "port h < 2 ^ 31"
  shows "HostAndPort (hp_toString True h) = Inr \<lparr>hp_host = hp_host h, hp_port = port h\<rparr>
    \<and> hp_eq \<lparr>hp_host = hp_host h, hp_port = port h\<rparr> h"
  using HostAndPort_append [OF assms] assms(2)
  by (simp add: hp_toString_def hp_append_def hp_eq_def port_def hasPort_def)

lemma HostAndPort_toString_witness:
  "HostAndPort (hp_toString True \<lparr>hp_host = ''::1'', hp_port = -1\<rparr>) = Inr \<lparr>hp_host = ''::1'', hp_port = 27017\<rparr>"
proof -
  have "HostAndPort (hp_toString True \<lparr>hp_host = ''::1'', hp_port = -1\<rparr>)
    = Inr \<lparr>hp_host = hp_host \<lparr>hp_host = ''::1'', hp_port = -1\<rparr>, hp_port = port \<lparr>hp_host = ''::1'', hp_port = -1\<rparr>\<rparr>"
    by (rule HostAndPort_toString [THEN conjunct1]) (simp_all add: port_def hasPort_def DefaultDBPort_def NUL_def)
  then show ?thesis by (simp add: port_def hasPort_def DefaultDBPort_def)
qed

end
