(* ===== verification/SendSocket.thy ===== *)
theory SendSocket
  imports HostPort Bson
begin

text \<open>
  The sending side: \<open>src/src/mongo/db/pubsub_sendsock.{h,cpp}\<close>, and the loop of
  \<open>src/src/mongo/db/repl/rs.cpp\<close> that keeps the connections to the members of a replica set.
  A socket is what was done to it: the addresses it is bound and connected to and the frames handed to
  it.  Which calls of the messaging library throw (\<open>fails k\<close>: the \<open>k\<close>-th call an operation makes) and
  which host names this process (\<open>isSelf\<close>) are parameters.
\<close>

section \<open>Sockets\<close>

datatype sock_type = ZMQ_PUB | ZMQ_SUB | ZMQ_PUSH | ZMQ_PULL

datatype frame = ChannelFrame string | BodyFrame bobj | TimeFrame u64

datatype sock_opt = ZMQ_RCVHWM int | ZMQ_SUBSCRIBE string

text \<open>A frame travels with its \<open>ZMQ_SNDMORE\<close> flag.\<close>

record zsocket =
  zk_type :: sock_type
  zk_opts :: "sock_opt list"
  zk_binds :: "string list"
  zk_connects :: "string list"
  zk_sent :: "(frame \<times> bool) list"

definition new_socket :: "sock_type \<Rightarrow> zsocket" where
  "new_socket t = \<lparr>zk_type = t, zk_opts = [], zk_binds = [], zk_connects = [], zk_sent = []\<rparr>"

definition zk_setsockopt :: "sock_opt \<Rightarrow> zsocket \<Rightarrow> zsocket" where
  "zk_setsockopt x s = s\<lparr>zk_opts := zk_opts s @ [x]\<rparr>"

definition zk_bind :: "string \<Rightarrow> zsocket \<Rightarrow> zsocket" where
  "zk_bind ep s = s\<lparr>zk_binds := zk_binds s @ [ep]\<rparr>"

definition zk_connect :: "string \<Rightarrow> zsocket \<Rightarrow> zsocket" where
  "zk_connect ep s = s\<lparr>zk_connects := zk_connects s @ [ep]\<rparr>"

definition zk_disconnect :: "string \<Rightarrow> zsocket \<Rightarrow> zsocket" where
  "zk_disconnect ep s = s\<lparr>zk_connects := remove1 ep (zk_connects s)\<rparr>"

text \<open>The messages a receiver can see: a message is complete when its last frame was sent.\<close>

fun messages_of :: "frame list \<Rightarrow> (frame \<times> bool) list \<Rightarrow> frame list list" where
  "messages_of acc [] = []"
| "messages_of acc ((f, sndmore) # fs) =
     (if sndmore then messages_of (acc @ [f]) fs else (acc @ [f]) # messages_of [] fs)"

definition zk_messages :: "zsocket \<Rightarrow> frame list list" where
  "zk_messages s = messages_of [] (zk_sent s)"

definition between_messages :: "zsocket \<Rightarrow> bool" where
  "between_messages s \<longleftrightarrow> zk_sent s = [] \<or> \<not> snd (last (zk_sent s))"

section \<open>State and outcomes\<close>

text \<open>
  \<open>Undef\<close> is undefined behaviour: a null pointer or an invalid iterator is used.
\<close>

datatype 'a outcome = Done 'a | Throws merror | Undef string

record send_state =
  ss_pubsubEnabled :: bool
  ss_publishDataEvents :: bool
  ss_configsvr :: bool
  ss_extSend :: "zsocket option"
  ss_dbEvent :: "zsocket option"
  ss_rsMembers :: "(host_port, bool) std_map"

definition ss_init :: "bool \<Rightarrow> send_state" where
  "ss_init configsvr = \<lparr>ss_pubsubEnabled = True, ss_publishDataEvents = False, ss_configsvr = configsvr,
     ss_extSend = None, ss_dbEvent = None, ss_rsMembers = []\<rparr>"

section \<open>Publishing\<close>

text \<open>The three sends; a throw leaves the frames already handed over.\<close>

fun send_frames :: "(nat \<Rightarrow> bool) \<Rightarrow> nat \<Rightarrow> (frame \<times> bool) list \<Rightarrow> zsocket \<Rightarrow> zsocket \<times> bool" where
  "send_frames fails k [] s = (s, True)"
| "send_frames fails k (f # fs) s =
     (if fails k then (s, False)
      else send_frames fails (Suc k) fs (s\<lparr>zk_sent := zk_sent s @ [f]\<rparr>))"

definition frames_of :: "string \<Rightarrow> bobj \<Rightarrow> u64 \<Rightarrow> (frame \<times> bool) list" where
  "frames_of channel message timestamp =
     [(ChannelFrame (channel @ [NUL]), True), (BodyFrame message, True), (TimeFrame timestamp, False)]"

definition to_config :: "string \<Rightarrow> send_state \<Rightarrow> bool" where
  "to_config channel st \<longleftrightarrow> \<not> ss_configsvr st \<and> ss_dbEvent st \<noteq> None \<and> channel = ''$events''
     \<and> ss_publishDataEvents st"

definition publish_ext :: "(nat \<Rightarrow> bool) \<Rightarrow> nat \<Rightarrow> (frame \<times> bool) list \<Rightarrow> send_state \<Rightarrow> (bool \<times> send_state) outcome" where
  "publish_ext fails k fs st =
     (case ss_extSend st of
        None \<Rightarrow> Undef ''extSendSocket is NULL''
      | Some e \<Rightarrow> (case send_frames fails k fs e of (e', okay) \<Rightarrow> Done (okay, st\<lparr>ss_extSend := Some e'\<rparr>)))"

definition publish ::
  "(nat \<Rightarrow> bool) \<Rightarrow> u64 \<Rightarrow> string \<Rightarrow> bobj \<Rightarrow> send_state \<Rightarrow> (bool \<times> send_state) outcome" where
  "publish fails now channel message st =
     (if \<not> ss_pubsubEnabled st then
        Throws (UserException 18560 ''PubSub should be enabled on all calls to publish!'')
      else
        let fs = frames_of channel message now in
        if to_config channel st then
          (case send_frames fails 0 fs (the (ss_dbEvent st)) of (d', okay) \<Rightarrow>
             let st' = st\<lparr>ss_dbEvent := Some d'\<rparr> in
             if okay then publish_ext fails 3 fs st' else Done (False, st'))
        else publish_ext fails 0 fs st)"

section \<open>Joining a sharded cluster\<close>

definition maxConfig_start :: host_port where
  "maxConfig_start = setPort 0 hp_init"

fun max_config :: "string list \<Rightarrow> host_port \<Rightarrow> host_port result" where
  "max_config [] best = Inr best"
| "max_config (c # cs) best =
     rbind (HostAndPort c) (\<lambda>hp. max_config cs (if port hp > port best then hp else best))"

definition tcp_endpoint :: "string \<Rightarrow> int \<Rightarrow> string" where
  "tcp_endpoint h p = ''tcp://'' @ h @ '':'' @ int_str p"

definition initSharding :: "(nat \<Rightarrow> bool) \<Rightarrow> string \<Rightarrow> send_state \<Rightarrow> send_state outcome" where
  "initSharding fails configServers st =
     (if \<not> ss_pubsubEnabled st then Done st
      else
        (case rbind (max_config (splitStringDelim CHR '','' configServers) maxConfig_start)
               (\<lambda>best. HostAndPort2 (hp_host best) (port best + 1234)) of
           Inl e \<Rightarrow> Throws e
         | Inr pull \<Rightarrow>
             if fails 0 then Done (st\<lparr>ss_publishDataEvents := False\<rparr>)
             else
               let d = new_socket ZMQ_PUSH in
               if fails 1 then Done (st\<lparr>ss_dbEvent := Some d, ss_publishDataEvents := False\<rparr>)
               else Done (st\<lparr>ss_dbEvent := Some (zk_connect (''tcp://'' @ hp_toString True pull) d)\<rparr>)))"

section \<open>Members of the replica set\<close>

definition member_endpoint :: "host_port \<Rightarrow> string" where
  "member_endpoint hp = tcp_endpoint (hp_host hp) (port hp + 1234)"

definition upd_ext :: "bool \<Rightarrow> (zsocket \<Rightarrow> zsocket) \<Rightarrow> send_state \<Rightarrow> send_state outcome" where
  "upd_ext failed f st =
     (case ss_extSend st of
        None \<Rightarrow> Undef ''extSendSocket is NULL''
      | Some e \<Rightarrow> Done (if failed then st else st\<lparr>ss_extSend := Some (f e)\<rparr>))"

definition updateReplSetMember ::
  "(host_port \<Rightarrow> bool) \<Rightarrow> (host_port \<Rightarrow> bool) \<Rightarrow> host_port \<Rightarrow> send_state \<Rightarrow> send_state outcome" where
  "updateReplSetMember isSelf fails hp st =
     (if \<not> ss_pubsubEnabled st then Done st
      else
        let member = map_find hp_lt hp (ss_rsMembers st) in
        if \<not> isSelf hp \<and> member = None then
          (case upd_ext (fails hp) (zk_connect (member_endpoint hp)) st of
             Done st' \<Rightarrow> Done (st'\<lparr>ss_rsMembers := map_insert hp_lt hp True (ss_rsMembers st')\<rparr>)
           | r \<Rightarrow> r)
        else if member = None then Undef ''rsMembers.end() is dereferenced''
        else Done (st\<lparr>ss_rsMembers := map_assign hp_lt hp True (ss_rsMembers st)\<rparr>))"

text \<open>
  The loop over the table: the entries before the iterator, those from it on.  Erasing the entry the
  iterator stands on and then incrementing the iterator is undefined.
\<close>

fun prune_loop ::
  "(host_port \<Rightarrow> bool) \<Rightarrow> (host_port, bool) std_map \<Rightarrow> (host_port, bool) std_map \<Rightarrow> send_state
    \<Rightarrow> send_state outcome" where
  "prune_loop fails before [] st = Done (st\<lparr>ss_rsMembers := before\<rparr>)"
| "prune_loop fails before ((hp, live) # rest) st =
     (if \<not> live then
        (case upd_ext (fails hp) (zk_disconnect (member_endpoint hp)) st of
           Done st' \<Rightarrow> Undef ''erased iterator is incremented''
         | r \<Rightarrow> r)
      else prune_loop fails (before @ [(hp, False)]) rest st)"

definition pruneReplSetMembers :: "(host_port \<Rightarrow> bool) \<Rightarrow> send_state \<Rightarrow> send_state outcome" where
  "pruneReplSetMembers fails st =
     (if \<not> ss_pubsubEnabled st then Done st else prune_loop fails [] (ss_rsMembers st) st)"

definition obind :: "'a outcome \<Rightarrow> ('a \<Rightarrow> 'b outcome) \<Rightarrow> 'b outcome" where
  "obind r f = (case r of Done x \<Rightarrow> f x | Throws e \<Rightarrow> Throws e | Undef u \<Rightarrow> Undef u)"

fun update_members ::
  "(host_port \<Rightarrow> bool) \<Rightarrow> (host_port \<Rightarrow> bool) \<Rightarrow> host_port list \<Rightarrow> send_state \<Rightarrow> send_state outcome" where
  "update_members isSelf fails [] st = Done st"
| "update_members isSelf fails (h # hs) st =
     obind (updateReplSetMember isSelf fails h st) (update_members isSelf fails hs)"

definition initFromConfig_pubsub ::
  "(host_port \<Rightarrow> bool) \<Rightarrow> (host_port \<Rightarrow> bool) \<Rightarrow> host_port list \<Rightarrow> send_state \<Rightarrow> send_state outcome" where
  "initFromConfig_pubsub isSelf fails members st =
     obind (update_members isSelf fails members st) (pruneReplSetMembers fails)"

section \<open>What a publication sends\<close>

lemma messages_of_append:
  "fs = [] \<and> acc = [] \<or> fs \<noteq> [] \<and> \<not> snd (last fs) \<Longrightarrow>
   messages_of acc (fs @ gs) = messages_of acc fs @ messages_of [] gs"
proof (induction fs arbitrary: acc)
  case (Cons f fs)
  then show ?case by (cases f; cases "fs = []") auto
qed simp

lemma send_frames_all:
  "(\<And>i. i < length fs \<Longrightarrow> \<not> fails (k + i)) \<Longrightarrow>
   send_frames fails k fs s = (s\<lparr>zk_sent := zk_sent s @ fs\<rparr>, True)"
proof (induction fs arbitrary: k s)
  case (Cons f fs)
  have "\<not> fails k" "\<And>i. i < length fs \<Longrightarrow> \<not> fails (Suc k + i)"
    using Cons.prems [of 0] Cons.prems [of "Suc _"] by auto
  then show ?case using Cons.IH [of "Suc k"] by simp
qed simp

lemma send_frames_result: "snd (send_frames fails k fs s) \<longleftrightarrow> (\<forall>i < length fs. \<not> fails (k + i))"
proof (induction fs arbitrary: k s)
  case (Cons f fs)
  show ?case
    using Cons [of "Suc k"] by (auto simp: All_less_Suc2)
qed simp

lemma send_frames_fields [simp]:
  "zk_type (fst (send_frames fails k fs s)) = zk_type s"
  "zk_binds (fst (send_frames fails k fs s)) = zk_binds s"
  "zk_connects (fst (send_frames fails k fs s)) = zk_connects s"
  by (induction fs arbitrary: k s) auto

definition message_frames :: "string \<Rightarrow> bobj \<Rightarrow> u64 \<Rightarrow> frame list" where
  "message_frames channel message timestamp =
     [ChannelFrame (channel @ [NUL]), BodyFrame message, TimeFrame timestamp]"

lemma zk_messages_sent:
  "between_messages s \<Longrightarrow>
   zk_messages (s\<lparr>zk_sent := zk_sent s @ frames_of c m t\<rparr>) = zk_messages s @ [message_frames c m t]"
  by (auto simp: zk_messages_def between_messages_def messages_of_append frames_of_def message_frames_def)

lemma length_frames_of [simp]: "length (frames_of c m t) = 3"
  by (simp add: frames_of_def)

lemma publish_ext_ok:
  "(\<forall>k. \<not> fails k) \<Longrightarrow> ss_extSend st = Some e \<Longrightarrow>
   publish_ext fails k (frames_of c m t) st =
     Done (True, st\<lparr>ss_extSend := Some (e\<lparr>zk_sent := zk_sent e @ frames_of c m t\<rparr>)\<rparr>)"
  by (simp add: publish_ext_def send_frames_all)

lemma publish_sent:
  assumes "ss_pubsubEnabled st" "\<forall>k. \<not> fails k" "ss_extSend st = Some e" "between_messages e"
    and "to_config c st \<Longrightarrow> between_messages (the (ss_dbEvent st))"
  shows "\<exists>st' e'. publish fails t c m st = Done (True, st') \<and> ss_extSend st' = Some e'
    \<and> zk_messages e' = zk_messages e @ [message_frames c m t] \<and> between_messages e'
    \<and> (if to_config c st
       then zk_messages (the (ss_dbEvent st')) = zk_messages (the (ss_dbEvent st)) @ [message_frames c m t]
       else ss_dbEvent st' = ss_dbEvent st)"
proof (cases "to_config c st")
  case True
  obtain d where d: "ss_dbEvent st = Some d" using True by (auto simp: to_config_def)
  have "publish fails t c m st = Done (True, st\<lparr>ss_dbEvent := Some (d\<lparr>zk_sent := zk_sent d @ frames_of c m t\<rparr>),
      ss_extSend := Some (e\<lparr>zk_sent := zk_sent e @ frames_of c m t\<rparr>)\<rparr>)"
    using assms(1-3) True by (simp add: publish_def d send_frames_all publish_ext_ok [where e = e] Let_def)
  moreover have "between_messages (e\<lparr>zk_sent := zk_sent e @ frames_of c m t\<rparr>)"
    by (simp add: between_messages_def frames_of_def)
  ultimately show ?thesis using True assms(4,5) d by (simp add: zk_messages_sent)
next
  case False
  have "publish fails t c m st = Done (True, st\<lparr>ss_extSend := Some (e\<lparr>zk_sent := zk_sent e @ frames_of c m t\<rparr>)\<rparr>)"
    using assms(1-3) False by (simp add: publish_def publish_ext_ok [where e = e] Let_def)
  moreover have "between_messages (e\<lparr>zk_sent := zk_sent e @ frames_of c m t\<rparr>)"
    by (simp add: between_messages_def frames_of_def)
  ultimately show ?thesis using False assms(4) by (simp add: zk_messages_sent)
qed

text \<open>
  C31.  A publication for which the messaging library reports no error puts one complete message of
  three frames (the channel with its terminator, the document, the time) behind those already sent on
  the external socket; an event of a sharded server goes to the config server as well, and to both
  although only the config servers are meant to get it.
\<close>

theorem publish_sends:
  assumes "ss_pubsubEnabled st" "\<forall>k. \<not> fails k" "ss_extSend st = Some e" "between_messages e"
    and "to_config c st \<Longrightarrow> between_messages (the (ss_dbEvent st))"
  shows "\<exists>st' e'. publish fails t c m st = Done (True, st') \<and> ss_extSend st' = Some e'
    \<and> zk_messages e' = zk_messages e @ [message_frames c m t] \<and> between_messages e'
    \<and> (if to_config c st
       then zk_messages (the (ss_dbEvent st')) = zk_messages (the (ss_dbEvent st)) @ [message_frames c m t]
       else ss_dbEvent st' = ss_dbEvent st)"
  by (rule publish_sent [OF assms])

definition ss_shard :: send_state where
  "ss_shard = (ss_init False)\<lparr>ss_publishDataEvents := True, ss_extSend := Some (new_socket ZMQ_PUB),
     ss_dbEvent := Some (new_socket ZMQ_PUSH)\<rparr>"

lemma ss_shard_fields [simp]:
  "ss_pubsubEnabled ss_shard" "ss_extSend ss_shard = Some (new_socket ZMQ_PUB)"
  "ss_dbEvent ss_shard = Some (new_socket ZMQ_PUSH)" "to_config ''$events'' ss_shard"
  by (simp_all add: ss_shard_def ss_init_def to_config_def)

lemma new_socket_fresh [simp]: "between_messages (new_socket ty)" "zk_messages (new_socket ty) = []"
  by (simp_all add: between_messages_def zk_messages_def new_socket_def)

lemma publish_sends_witness:
  "\<exists>st' e'. publish (\<lambda>k. False) 5 ''$events'' [] ss_shard = Done (True, st') \<and> ss_extSend st' = Some e'
    \<and> zk_messages e' = [message_frames ''$events'' [] 5]
    \<and> zk_messages (the (ss_dbEvent st')) = [message_frames ''$events'' [] 5]"
  using publish_sends [of ss_shard "\<lambda>k. False" "new_socket ZMQ_PUB" "''$events''" 5 "[]"] by auto

lemma publish_result:
  assumes "ss_pubsubEnabled st" "ss_extSend st = Some e"
  shows "\<exists>okay st'. publish fails t c m st = Done (okay, st')
    \<and> (okay \<longleftrightarrow> (\<forall>k < (if to_config c st then 6 else 3). \<not> fails k))
    \<and> ss_pubsubEnabled st' \<and> ss_publishDataEvents st' = ss_publishDataEvents st \<and> ss_extSend st' \<noteq> None"
proof -
  have ext: "\<exists>e'. publish_ext fails k (frames_of c m t) s = Done (\<forall>i < 3. \<not> fails (k + i), s\<lparr>ss_extSend := Some e'\<rparr>)"
    if "ss_extSend s = Some e" for k s
    using that send_frames_result [of fails k "frames_of c m t" e]
    by (auto simp: publish_ext_def split: prod.splits)
  show ?thesis
  proof (cases "to_config c st")
    case True
    obtain d okay where d: "send_frames fails 0 (frames_of c m t) (the (ss_dbEvent st)) = (d, okay)" by fastforce
    have ok: "okay \<longleftrightarrow> (\<forall>i < 3. \<not> fails i)"
      using send_frames_result [of fails 0 "frames_of c m t" "the (ss_dbEvent st)"] d by simp
    have six: "(\<forall>k < 6. \<not> fails k) \<longleftrightarrow> (\<forall>i < 3. \<not> fails i) \<and> (\<forall>i < 3. \<not> fails (3 + i))"
      by (simp add: numeral_eq_Suc All_less_Suc) blast
    have pub: "publish fails t c m st = (if okay
        then publish_ext fails 3 (frames_of c m t) (st\<lparr>ss_dbEvent := Some d\<rparr>)
        else Done (False, st\<lparr>ss_dbEvent := Some d\<rparr>))"
      using True assms(1) d by (simp add: publish_def Let_def)
    show ?thesis
    proof (cases okay)
      case okay: True
      obtain e' where "publish fails t c m st =
          Done (\<forall>i < 3. \<not> fails (3 + i), st\<lparr>ss_dbEvent := Some d, ss_extSend := Some e'\<rparr>)"
        using ext [of "st\<lparr>ss_dbEvent := Some d\<rparr>" 3] assms(2) pub okay by auto
      then show ?thesis using True assms(1) okay ok six by simp
    next
      case False
      then show ?thesis using True assms pub ok six by auto
    qed
  next
    case False
    then show ?thesis using assms ext [of st 0] by (auto simp: publish_def)
  qed
qed

text \<open>
  Once the server runs, a publication never throws, whatever the messaging library does: an error
  makes it return false, so that a write that only reports an event cannot fail because of it.
\<close>

theorem publish_never_throws:
  assumes "ss_pubsubEnabled st" "ss_extSend st = Some e"
  shows "\<exists>okay st'. publish fails t c m st = Done (okay, st')
    \<and> (okay \<longleftrightarrow> (\<forall>k < (if to_config c st then 6 else 3). \<not> fails k))
    \<and> ss_pubsubEnabled st' \<and> ss_publishDataEvents st' = ss_publishDataEvents st \<and> ss_extSend st' \<noteq> None"
  by (rule publish_result [OF assms])

lemma publish_never_throws_witness:
  "\<exists>st'. publish (\<lambda>k. k = 4) 5 ''$events'' [] ss_shard = Done (False, st') \<and> ss_extSend st' \<noteq> None"
proof -
  have "\<not> (\<forall>k < 6. k \<noteq> (4 :: nat))" by (intro notI) (drule spec [of _ 4], simp)
  then show ?thesis
    using publish_never_throws [of ss_shard "new_socket ZMQ_PUB" "\<lambda>k. k = 4" 5 "''$events''" "[]"] by auto
qed

section \<open>Members of the replica set\<close>

text \<open>
  The table after a member was marked, and the members that were not in the table.
\<close>

definition mark_member :: "host_port \<Rightarrow> (host_port, bool) std_map \<Rightarrow> (host_port, bool) std_map" where
  "mark_member h m =
     (if map_find hp_lt h m = None then map_insert hp_lt h True m else map_assign hp_lt h True m)"

fun new_members :: "host_port list \<Rightarrow> (host_port, bool) std_map \<Rightarrow> host_port list" where
  "new_members [] m = []"
| "new_members (h # hs) m =
     (if map_find hp_lt h m = None then [h] else []) @ new_members hs (mark_member h m)"

lemma mark_member_wf: "map_wf hp_lt m \<Longrightarrow> map_wf hp_lt (mark_member h m)"
  by (simp add: mark_member_def hp_order.map_wf_insert hp_order.map_wf_assign)

lemma mark_member_find:
  assumes "map_wf hp_lt m"
  shows "map_find hp_lt k (mark_member h m) = (if hp_eq h k then Some True else map_find hp_lt k m)"
  using assms
  by (auto simp: mark_member_def hp_eq_iff hp_order.find_insert_same hp_order.find_insert_other
      hp_order.find_assign_same hp_order.find_assign_other)

lemma mark_members_wf: "map_wf hp_lt m \<Longrightarrow> map_wf hp_lt (fold mark_member hs m)"
  by (induction hs arbitrary: m) (simp_all add: mark_member_wf)

lemma mark_members_find:
  "map_wf hp_lt m \<Longrightarrow>
   map_find hp_lt k (fold mark_member hs m) = (if \<exists>h \<in> set hs. hp_eq h k then Some True else map_find hp_lt k m)"
  by (induction hs arbitrary: m) (simp_all add: mark_member_wf mark_member_find)

lemma updateReplSetMember_other:
  assumes "ss_pubsubEnabled st" "ss_extSend st = Some e" "\<not> isSelf h"
  shows "updateReplSetMember isSelf fails h st =
    Done (st\<lparr>ss_extSend := Some (e\<lparr>zk_connects := zk_connects e @ map member_endpoint
                (filter (\<lambda>h. \<not> fails h) (new_members [h] (ss_rsMembers st)))\<rparr>),
             ss_rsMembers := mark_member h (ss_rsMembers st)\<rparr>)"
  using assms
  by (cases "map_find hp_lt h (ss_rsMembers st)")
    (simp_all add: updateReplSetMember_def mark_member_def upd_ext_def zk_connect_def)

lemma update_members_others:
  "ss_pubsubEnabled st \<Longrightarrow> ss_extSend st = Some e \<Longrightarrow> \<forall>h \<in> set hs. \<not> isSelf h \<Longrightarrow>
   update_members isSelf fails hs st =
    Done (st\<lparr>ss_extSend := Some (e\<lparr>zk_connects := zk_connects e @ map member_endpoint
                (filter (\<lambda>h. \<not> fails h) (new_members hs (ss_rsMembers st)))\<rparr>),
             ss_rsMembers := fold mark_member hs (ss_rsMembers st)\<rparr>)"
proof (induction hs arbitrary: st e)
  case (Cons h hs)
  then show ?case
    using updateReplSetMember_other [of st e isSelf h fails] by (simp add: obind_def)
qed simp

lemma update_members_self:
  assumes "ss_pubsubEnabled st" "ss_extSend st \<noteq> None" "h \<in> set hs" "isSelf h"
    and "\<And>g k. isSelf g \<Longrightarrow> hp_eq g k \<Longrightarrow> isSelf k"
    and "map_wf hp_lt (ss_rsMembers st)" "\<And>g. isSelf g \<Longrightarrow> map_find hp_lt g (ss_rsMembers st) = None"
  shows "update_members isSelf fails hs st = Undef ''rsMembers.end() is dereferenced''"
  using assms
proof (induction hs arbitrary: st)
  case (Cons g hs)
  show ?case
  proof (cases "isSelf g")
    case True
    then show ?thesis using Cons.prems(1,7) by (simp add: updateReplSetMember_def obind_def)
  next
    case False
    obtain e where e: "ss_extSend st = Some e" using Cons.prems(2) by auto
    have "map_find hp_lt k (mark_member g (ss_rsMembers st)) = None" if "isSelf k" for k
      using Cons.prems(5) [of k g] Cons.prems(7) [OF that] that False Cons.prems(6)
      by (auto simp: mark_member_find hp_eq_def)
    moreover have "h \<in> set hs" using Cons.prems(3,4) False by auto
    ultimately show ?thesis
      using Cons.IH Cons.prems(1,4,5,6) updateReplSetMember_other [of st e isSelf g fails] e False
      by (simp add: obind_def mark_member_wf)
  qed
qed simp

lemma prune_loop_live:
  "\<forall>hl \<in> set m. snd hl \<Longrightarrow>
   prune_loop fails before m st = Done (st\<lparr>ss_rsMembers := before @ map (\<lambda>hl. (fst hl, False)) m\<rparr>)"
  by (induction m arbitrary: before) auto

lemma prune_loop_stale:
  "hl \<in> set m \<Longrightarrow> \<not> snd hl \<Longrightarrow> ss_extSend st \<noteq> None \<Longrightarrow>
   prune_loop fails before m st = Undef ''erased iterator is incremented''"
  by (induction m arbitrary: before) (auto simp: upd_ext_def)

definition others_live :: "host_port list \<Rightarrow> (host_port, bool) std_map \<Rightarrow> bool" where
  "others_live hs m \<longleftrightarrow> (\<forall>(k, live) \<in> set m. live \<or> (\<exists>h \<in> set hs. hp_eq h k))"

lemma marked_live_iff:
  assumes wf: "map_wf hp_lt m"
  shows "(\<forall>hl \<in> set (fold mark_member hs m). snd hl) \<longleftrightarrow> others_live hs m"
proof
  assume all: "\<forall>hl \<in> set (fold mark_member hs m). snd hl"
  have "live \<or> (\<exists>h \<in> set hs. hp_eq h k)" if "(k, live) \<in> set m" for k live
  proof (rule ccontr)
    assume c: "\<not> (live \<or> (\<exists>h \<in> set hs. hp_eq h k))"
    then have "map_find hp_lt k (fold mark_member hs m) = Some False"
      using hp_order.find_in_wf [OF wf that] by (simp add: mark_members_find wf)
    then show False using all map_find_in_set by fastforce
  qed
  then show "others_live hs m" by (auto simp: others_live_def)
next
  assume a: "others_live hs m"
  show "\<forall>hl \<in> set (fold mark_member hs m). snd hl"
  proof
    fix hl assume hl: "hl \<in> set (fold mark_member hs m)"
    obtain k live where k: "hl = (k, live)" by fastforce
    have f: "map_find hp_lt k (fold mark_member hs m) = Some live"
      using hp_order.find_in_wf [OF mark_members_wf [OF wf]] hl k by blast
    show "snd hl"
    proof (cases "\<exists>h \<in> set hs. hp_eq h k")
      case False
      then have "map_find hp_lt k m = Some live" using f by (simp add: mark_members_find wf)
      then obtain k' where k': "(k', live) \<in> set m" "hp_eq k k'"
        using map_find_in_set [of hp_lt k m live] by (auto simp: hp_eq_iff)
      then have "\<not> (\<exists>h \<in> set hs. hp_eq h k')" using False by (auto simp: hp_eq_def)
      then show ?thesis using a k' k by (auto simp: others_live_def)
    qed (use f in \<open>simp add: k mark_members_find wf\<close>)
  qed
qed

text \<open>
  C32.  Applying a replica set configuration is defined exactly when the configuration does not name
  this process and every known member that was not marked since the last time is still in it.  The
  loop of the server passes every member of the configuration, the process itself included: for it the
  end of the table is dereferenced; and for a member that left, an erased iterator is advanced.
\<close>

theorem initFromConfig_defined_iff:
  assumes "ss_pubsubEnabled st" "ss_extSend st = Some e" "map_wf hp_lt (ss_rsMembers st)"
    and "\<And>g k. isSelf g \<Longrightarrow> hp_eq g k \<Longrightarrow> isSelf k"
    and "\<And>g. isSelf g \<Longrightarrow> map_find hp_lt g (ss_rsMembers st) = None"
  shows "(\<exists>st'. initFromConfig_pubsub isSelf fails hs st = Done st') \<longleftrightarrow>
    (\<forall>h \<in> set hs. \<not> isSelf h) \<and> others_live hs (ss_rsMembers st)"
proof (cases "\<forall>h \<in> set hs. \<not> isSelf h")
  case True
  show ?thesis
  proof (cases "others_live hs (ss_rsMembers st)")
    case live: True
    then have "\<forall>hl \<in> set (fold mark_member hs (ss_rsMembers st)). snd hl" by (simp add: marked_live_iff assms(3))
    then show ?thesis
      using live True assms(1)
      by (simp add: initFromConfig_pubsub_def update_members_others [OF assms(1,2) True] obind_def
          pruneReplSetMembers_def prune_loop_live)
  next
    case dead: False
    then obtain hl where "hl \<in> set (fold mark_member hs (ss_rsMembers st))" "\<not> snd hl"
      using marked_live_iff [OF assms(3), of hs] by blast
    then show ?thesis
      using dead True assms(1)
      by (simp add: initFromConfig_pubsub_def update_members_others [OF assms(1,2) True] obind_def
          pruneReplSetMembers_def prune_loop_stale)
  qed
next
  case False
  then obtain h where "h \<in> set hs" "isSelf h" by blast
  then show ?thesis
    using update_members_self [of st h hs isSelf fails] assms
    by (auto simp: initFromConfig_pubsub_def obind_def)
qed

definition hp_a :: host_port where
  "hp_a = \<lparr>hp_host = ''a'', hp_port = 27017\<rparr>"

definition hp_b :: host_port where
  "hp_b = \<lparr>hp_host = ''b'', hp_port = 27018\<rparr>"

lemma hp_ab [simp]: "hp_eq hp_a hp_a" "\<not> hp_eq hp_a hp_b" "\<not> hp_eq hp_b hp_a"
  by (simp_all add: hp_eq_def hp_a_def hp_b_def)

lemma initFromConfig_defined_iff_witness:
  "\<not> (\<exists>st'. initFromConfig_pubsub (\<lambda>h. hp_eq h hp_a) (\<lambda>h. False) [hp_b, hp_a] ss_shard = Done st')
   \<and> (\<exists>st'. initFromConfig_pubsub (\<lambda>h. hp_eq h hp_a) (\<lambda>h. False) [hp_b] ss_shard = Done st')"
proof -
  have t: "ss_rsMembers ss_shard = []" by (simp add: ss_shard_def ss_init_def)
  have eq: "hp_eq g hp_a \<Longrightarrow> hp_eq g k \<Longrightarrow> hp_eq k hp_a" for g k by (simp add: hp_eq_def)
  show ?thesis
    by (subst (1 2) initFromConfig_defined_iff [where e = "new_socket ZMQ_PUB"]) (auto simp: t others_live_def dest: eq)
qed

text \<open>
  C33.  Where it is defined, the table holds afterwards exactly the known and the configured members,
  each to be confirmed anew, and the external socket was connected once to every configured member
  that was not known, at the address that member listens on; nothing was disconnected.
\<close>

theorem initFromConfig_connects:
  assumes "ss_pubsubEnabled st" "ss_extSend st = Some e" "map_wf hp_lt (ss_rsMembers st)"
    and "\<forall>h \<in> set hs. \<not> isSelf h" "others_live hs (ss_rsMembers st)"
  shows "\<exists>st' e'. initFromConfig_pubsub isSelf fails hs st = Done st' \<and> ss_extSend st' = Some e'
    \<and> zk_connects e' = zk_connects e @ map member_endpoint (filter (\<lambda>h. \<not> fails h) (new_members hs (ss_rsMembers st)))
    \<and> map_wf hp_lt (ss_rsMembers st') \<and> (\<forall>hl \<in> set (ss_rsMembers st'). \<not> snd hl)
    \<and> (\<forall>k. map_find hp_lt k (ss_rsMembers st') \<noteq> None \<longleftrightarrow>
         (\<exists>h \<in> set hs. hp_eq h k) \<or> map_find hp_lt k (ss_rsMembers st) \<noteq> None)"
proof -
  let ?m = "fold mark_member hs (ss_rsMembers st)"
  have live: "\<forall>hl \<in> set ?m. snd hl" using assms(3,5) by (simp add: marked_live_iff)
  have run: "initFromConfig_pubsub isSelf fails hs st =
      Done (st\<lparr>ss_extSend := Some (e\<lparr>zk_connects := zk_connects e @ map member_endpoint
                (filter (\<lambda>h. \<not> fails h) (new_members hs (ss_rsMembers st)))\<rparr>),
        ss_rsMembers := map (\<lambda>hl. (fst hl, False)) ?m\<rparr>)"
    using assms(1) live
    by (simp add: initFromConfig_pubsub_def update_members_others [OF assms(1,2,4)] obind_def
        pruneReplSetMembers_def prune_loop_live)
  have keys: "map_find hp_lt k (map (\<lambda>hl. (fst hl, False)) m) = None \<longleftrightarrow> map_find hp_lt k m = None" for k m
    by (induction m) auto
  have wf: "map_wf hp_lt (map (\<lambda>hl. (fst hl, False)) ?m)"
    using mark_members_wf [OF assms(3), of hs] by (simp add: map_wf_def comp_def)
  show ?thesis
    unfolding run using wf
    by (simp add: keys mark_members_find assms(3) del: not_None_eq)
qed

lemma initFromConfig_connects_witness:
  "\<exists>st' e'. initFromConfig_pubsub (\<lambda>h. False) (\<lambda>h. False) [hp_a, hp_b, hp_a] ss_shard = Done st'
    \<and> ss_extSend st' = Some e' \<and> zk_connects e' = [member_endpoint hp_a, member_endpoint hp_b]"
proof -
  have t: "ss_rsMembers ss_shard = []" by (simp add: ss_shard_def ss_init_def)
  have c: "zk_connects (new_socket ZMQ_PUB) = []" by (simp add: new_socket_def)
  show ?thesis
    using initFromConfig_connects [of ss_shard "new_socket ZMQ_PUB" "[hp_a, hp_b, hp_a]" "\<lambda>h. False" "\<lambda>h. False"]
    by (auto simp: t c others_live_def mark_member_find mark_member_wf)
qed

end
