(* ===== verification/Namespaces.thy ===== *)
theory Namespaces
  imports Strings
begin

text \<open>
  Names of databases and collections: \<open>src/src/mongo/db/namespace_string.h\<close> and
  \<open>namespace_string-inl.h\<close>, and the resource patterns of \<open>src/src/mongo/db/auth/resource_pattern.h\<close>
  that privileges are about.  An object is the text with the position of its first dot; the object the
  default constructor makes (an empty text whose dot is claimed at position 0) is not modelled, since
  its collection reads outside the text.
\<close>

section \<open>NamespaceString\<close>

record nsstring =
  ns_text :: string
  ns_dot :: "nat option"

definition NamespaceString :: "string \<Rightarrow> nsstring" where
  "NamespaceString s = \<lparr>ns_text = s, ns_dot = sd_find_char CHR ''.'' 0 s\<rparr>"

definition NamespaceString2 :: "string \<Rightarrow> string \<Rightarrow> nsstring result" where
  "NamespaceString2 dbName collectionName =
     rbind (uassert 17235 (CHR 39 # CHR ''.'' # CHR 39 # '' is an invalid character in a database name'')
              (sd_find_char CHR ''.'' 0 dbName = None)) (\<lambda>_.
     rbind (uassert 17246 (''Collection names cannot start with '' @ [CHR 39, CHR ''.'', CHR 39])
              (collectionName = [] \<or> hd collectionName \<noteq> CHR ''.'')) (\<lambda>_.
     let s = dbName @ CHR ''.'' # collectionName in
     rbind (uassert 17295 ''namespaces cannot have embedded null characters'' (NUL \<notin> set s)) (\<lambda>_.
       Inr \<lparr>ns_text = s, ns_dot = Some (length dbName)\<rparr>)))"

definition ns_db :: "nsstring \<Rightarrow> string" where
  "ns_db n = (case ns_dot n of None \<Rightarrow> [] | Some i \<Rightarrow> take i (ns_text n))"

definition ns_coll :: "nsstring \<Rightarrow> string" where
  "ns_coll n = (case ns_dot n of None \<Rightarrow> [] | Some i \<Rightarrow> drop (Suc i) (ns_text n))"

definition oplog :: "string \<Rightarrow> bool" where
  "oplog s \<longleftrightarrow> s = ''local.oplog.rs'' \<or> s = ''local.oplog.$main''"

definition normal :: "string \<Rightarrow> bool" where
  "normal s \<longleftrightarrow> (if sd_find_char CHR ''$'' 0 s = None then True else oplog s)"

text \<open>\<open>None\<close>: \<open>substr\<close> is given a position outside of the text and throws.\<close>

definition special :: "string \<Rightarrow> bool option" where
  "special s =
     (if \<not> normal s then Some True
      else (case sd_find_char CHR ''.'' 0 s of
              None \<Rightarrow> None
            | Some i \<Rightarrow> Some (sd_startsWith ''.system.'' (drop i s))))"

definition isSystem :: "nsstring \<Rightarrow> bool" where
  "isSystem n \<longleftrightarrow> sd_startsWith ''system.'' (ns_coll n)"

definition isSystemDotIndexes :: "nsstring \<Rightarrow> bool" where
  "isSystemDotIndexes n \<longleftrightarrow> ns_coll n = ''system.indexes''"

definition isConfigDB :: "nsstring \<Rightarrow> bool" where
  "isConfigDB n \<longleftrightarrow> ns_db n = ''config''"

definition isCommand :: "nsstring \<Rightarrow> bool" where
  "isCommand n \<longleftrightarrow> ns_coll n = ''$cmd''"

definition isSpecialCommand :: "nsstring \<Rightarrow> bool" where
  "isSpecialCommand n \<longleftrightarrow> sd_startsWith ''$cmd.sys'' (ns_coll n)"

definition validDBName :: "string \<Rightarrow> bool" where
  "validDBName d =
     (if length d = 0 \<or> length d > 64 then False
      else list_all (\<lambda>c. c \<notin> {NUL, CHR ''/'', CHR 92, CHR ''.'', CHR '' '', CHR 34}) d)"

definition validCollectionName :: "string \<Rightarrow> bool" where
  "validCollectionName coll =
     (if coll = [] then False else list_all (\<lambda>c. c \<notin> {NUL, CHR ''$''}) coll)"

definition validCollectionComponent :: "string \<Rightarrow> bool" where
  "validCollectionComponent s =
     (case sd_find_char CHR ''.'' 0 s of
        None \<Rightarrow> False
      | Some idx \<Rightarrow> validCollectionName (drop (idx + 1) s) \<or> oplog s)"

definition ns_isValid :: "nsstring \<Rightarrow> bool" where
  "ns_isValid n \<longleftrightarrow> validDBName (ns_db n) \<and> ns_coll n \<noteq> []"

definition getSisterNS :: "string \<Rightarrow> nsstring \<Rightarrow> string result" where
  "getSisterNS local n =
     (if local \<noteq> [] \<and> hd local \<noteq> CHR ''.'' then Inr (ns_db n @ ''.'' @ local)
      else Inl (VerifyFailed ''local.size() && local[0] != .''))"

definition getSystemIndexesCollection :: "nsstring \<Rightarrow> string" where
  "getSystemIndexesCollection n = ns_db n @ ''.system.indexes''"

definition getCommandNS :: "nsstring \<Rightarrow> string" where
  "getCommandNS n = ns_db n @ ''.$cmd''"

section \<open>Substrings and comparison of full names\<close>

definition MaxDatabaseNameLen :: nat where
  "MaxDatabaseNameLen = 128"

definition nsToDatabaseSubstring :: "string \<Rightarrow> string result" where
  "nsToDatabaseSubstring s =
     (case sd_find_char CHR ''.'' 0 s of
        None \<Rightarrow> if length s < MaxDatabaseNameLen then Inr s
                else Inl (MsgAssertion 10078 ''nsToDatabase: db too long'')
      | Some i \<Rightarrow> if i < MaxDatabaseNameLen then Inr (take i s)
                  else Inl (MsgAssertion 10088 ''nsToDatabase: db too long''))"

definition nsToCollectionSubstring :: "string \<Rightarrow> string result" where
  "nsToCollectionSubstring s =
     (case sd_find_char CHR ''.'' 0 s of
        None \<Rightarrow> Inl (MsgAssertion 16886 ''nsToCollectionSubstring: no .'')
      | Some i \<Rightarrow> Inr (drop (i + 1) s))"

text \<open>The hash wraps around in 32 bits and reads bytes as signed characters.\<close>

fun nsDBHash_loop :: "i32 \<Rightarrow> string \<Rightarrow> i32" where
  "nsDBHash_loop h [] = h"
| "nsDBHash_loop h (c # cs) =
     (if c = CHR ''.'' then h else nsDBHash_loop ((h + 11 * word_of_int (schar c)) * 3) cs)"

definition nsDBHash :: "string \<Rightarrow> i32" where
  "nsDBHash s = nsDBHash_loop 7 s"

text \<open>The two texts from position \<open>i\<close> on.\<close>

fun nsDBEquals :: "string \<Rightarrow> string \<Rightarrow> bool" where
  "nsDBEquals (a # as) b =
     (if a = CHR ''.'' then (case b of [] \<Rightarrow> True | c # _ \<Rightarrow> c = CHR ''.'')
      else (case b of [] \<Rightarrow> False | c # cs \<Rightarrow> if c \<noteq> a then False else nsDBEquals as cs))"
| "nsDBEquals [] b = (b = [] \<or> hd b = CHR ''.'')"

section \<open>Resources\<close>

datatype resource_pattern =
    matchNever
  | matchClusterResource
  | matchDatabaseName nsstring
  | matchCollectionName nsstring
  | matchExactNamespace nsstring
  | matchAnyNormalResource
  | matchAnyResource

definition forDatabaseName :: "string \<Rightarrow> resource_pattern result" where
  "forDatabaseName dbName = rbind (NamespaceString2 dbName []) (\<lambda>n. Inr (matchDatabaseName n))"

definition forCollectionName :: "string \<Rightarrow> resource_pattern result" where
  "forCollectionName coll = rbind (NamespaceString2 [] coll) (\<lambda>n. Inr (matchCollectionName n))"

definition forExactNamespace :: "nsstring \<Rightarrow> resource_pattern" where
  "forExactNamespace n = matchExactNamespace n"

section \<open>Properties\<close>

abbreviation db_part :: "string \<Rightarrow> string" where
  "db_part s \<equiv> takeWhile (\<lambda>c. c \<noteq> CHR ''.'') s"

lemma find_char_first: "c \<notin> set a \<Longrightarrow> sd_find_char c 0 (a @ c # b) = Some (length a)"
proof -
  assume a: "c \<notin> set a"
  have "find_from c k (a @ c # b) = Some (k + length a)" for k
    using a by (induction a arbitrary: k) auto
  then show ?thesis by (simp add: sd_find_char_def)
qed

lemma find_char_none_iff: "sd_find_char c 0 s = None \<longleftrightarrow> c \<notin> set s"
proof
  show "sd_find_char c 0 s = None \<Longrightarrow> c \<notin> set s" using sd_find_char_None [of c 0 s] by simp
  show "c \<notin> set s \<Longrightarrow> sd_find_char c 0 s = None"
    using sd_find_char_Some(3) [of c 0 s] by (cases "sd_find_char c 0 s") (auto dest: arg_cong [where f = set])
qed

lemma NamespaceString2_parts:
  assumes "NamespaceString2 d c = Inr n"
  shows "n = NamespaceString (d @ CHR ''.'' # c)" "ns_db n = d" "ns_coll n = c"
  using assms find_char_first [of "CHR ''.''" d c] find_char_none_iff [of "CHR ''.''" d]
  by (auto simp: NamespaceString2_def rbind_Inr_iff Let_def NamespaceString_def ns_db_def ns_coll_def)

lemma NamespaceString_split:
  "ns_db (NamespaceString s) = (if CHR ''.'' \<in> set s then db_part s else [])"
  "ns_dot (NamespaceString s) \<noteq> None \<Longrightarrow> ns_db (NamespaceString s) @ CHR ''.'' # ns_coll (NamespaceString s) = s"
proof -
  have "ns_db (NamespaceString s) = db_part s \<and> ns_db (NamespaceString s) @ CHR ''.'' # ns_coll (NamespaceString s) = s"
    if dot: "CHR ''.'' \<in> set s"
  proof -
    obtain a b where s: "s = a @ CHR ''.'' # b" "CHR ''.'' \<notin> set a" using split_list_first [OF dot] by blast
    then have "db_part a = a" by (auto simp: takeWhile_eq_all_conv)
    then show ?thesis
      using s by (simp add: NamespaceString_def ns_db_def ns_coll_def find_char_first takeWhile_tail)
  qed
  then show "ns_db (NamespaceString s) = (if CHR ''.'' \<in> set s then db_part s else [])"
    "ns_dot (NamespaceString s) \<noteq> None \<Longrightarrow> ns_db (NamespaceString s) @ CHR ''.'' # ns_coll (NamespaceString s) = s"
    using find_char_none_iff [of "CHR ''.''" s] by (auto simp: NamespaceString_def ns_db_def)
qed

lemma nsDBHash_loop_db_part: "nsDBHash_loop h s = nsDBHash_loop h (db_part s)"
  by (induction s arbitrary: h) auto

lemma nsDBEquals_iff: "nsDBEquals a b \<longleftrightarrow> db_part a = db_part b"
proof (induction a arbitrary: b)
  case (Cons x xs)
  then show ?case by (cases b) auto
next
  case Nil
  then show ?case by (cases b) auto
qed

text \<open>
  The comparison used as the key equality of hash tables over namespaces holds exactly when the
  two namespaces are of the same database, and then their hashes agree.
\<close>

theorem nsDBEquals_hash:
  "(nsDBEquals a b \<longleftrightarrow> db_part a = db_part b) \<and> (nsDBEquals a b \<longrightarrow> nsDBHash a = nsDBHash b)"
  unfolding nsDBEquals_iff nsDBHash_def using nsDBHash_loop_db_part by metis

lemma nsDBEquals_hash_witness: "nsDBHash ''db.a'' = nsDBHash ''db.b.c''"
  by (rule nsDBEquals_hash [THEN conjunct2, rule_format]) (simp)

end
