(* ===== verification/BsonObj.thy ===== *)
theory BsonObj
  imports Bson
begin

text \<open>
  The size of a \<open>BSONObj\<close>: its constructor (\<open>init\<close> and \<open>isValid\<close> of \<open>src/src/mongo/bson/bsonobj.h\<close> and
  \<open>bson-inl.h\<close>) asserts that the document is not larger than 16 MB and 16 KB.  \<open>owned_build\<close> is what a
  \<open>BSONObjBuilder\<close> with its own buffer does with a list of fields as far as sizes go; the bytes are the
  subject of \<open>BsonBuilder\<close>.
\<close>

section \<open>The size assertion\<close>

definition BSONObjMaxUserSize :: nat where
  "BSONObjMaxUserSize = 16 * 1024 * 1024"

definition BSONObjMaxInternalSize :: nat where
  "BSONObjMaxInternalSize = BSONObjMaxUserSize + 16 * 1024"

definition isValid :: "nat \<Rightarrow> bool" where
  "isValid x \<longleftrightarrow> 0 < x \<and> x \<le> BSONObjMaxInternalSize"

definition hex_upper :: "nat \<Rightarrow> char" where
  "hex_upper d = ''0123456789ABCDEF'' ! d"

text \<open>The eight digits of the value from the first one that is not zero.\<close>

definition integerToHex :: "nat \<Rightarrow> string" where
  "integerToHex n = (if n = 0 then ''0''
     else dropWhile (\<lambda>c. c = CHR ''0'') (map (\<lambda>j. hex_upper (n div 16 ^ j mod 16)) [7, 6, 5, 4, 3, 2, 1, 0]))"

text \<open>The message goes on with the first element, which is left out here.\<close>

definition assertInvalid :: "nat \<Rightarrow> merror" where
  "assertInvalid os = MsgAssertion 10334
     (''BSONObj size: '' @ nat_str os @ '' (0x'' @ integerToHex os @ '') is invalid. Size must be between 0 and ''
      @ nat_str BSONObjMaxInternalSize @ ''('' @ nat_str (BSONObjMaxInternalSize div (1024 * 1024)) @ ''MB)'')"

definition BSONObj_init :: "bobj \<Rightarrow> bobj result" where
  "BSONObj_init ob = (if isValid (osize ob) then Inr ob else Inl (assertInvalid (osize ob)))"

section \<open>Building a document\<close>

text \<open>
  The buffer of a builder doubles up to 64 MB (a larger one, 128 MB for parts of less than 64 MB, is
  refused).  It holds four bytes of the holder and the document, which gets its last byte at the end.
\<close>

definition buffer_fits :: "nat \<Rightarrow> unit result" where
  "buffer_fits n = (if n \<le> 64 * 1024 * 1024 then Inr ()
     else Inl (MsgAssertion 13548 ''BufBuilder attempted to grow() to 134217728 bytes, past the 64MB limit.''))"

text \<open>Append the fields in turn, each after \<open>part\<close> has built it, then \<open>obj()\<close>.\<close>

fun owned_build :: "(belem \<Rightarrow> unit result) \<Rightarrow> bobj \<Rightarrow> bobj \<Rightarrow> bobj result" where
  "owned_build part acc [] = rbind (buffer_fits (4 + osize acc)) (\<lambda>_. BSONObj_init acc)"
| "owned_build part acc (e # es) =
     rbind (part e) (\<lambda>_.
     rbind (buffer_fits (4 + osize (acc @ [e]) - 1)) (\<lambda>_.
     owned_build part (acc @ [e]) es))"

abbreviation build_flat :: "bobj \<Rightarrow> bobj result" where
  "build_flat ob \<equiv> owned_build (\<lambda>_. Inr ()) [] ob"

lemma osize_append: "osize (xs @ ys) + 5 = osize xs + osize ys"
  by (induction xs) simp_all

lemma osize_append_le: "osize xs \<le> osize (xs @ ys)"
  using osize_append [of xs ys] osize_ge [of ys] by simp

lemma BSONObj_init_iff: "BSONObj_init ob = Inr ob' \<longleftrightarrow> ob' = ob \<and> osize ob \<le> BSONObjMaxInternalSize"
  by (auto simp: BSONObj_init_def isValid_def)

lemma owned_build_ok:
  assumes "\<forall>e \<in> set es. part e = Inr ()" "osize (acc @ es) \<le> BSONObjMaxInternalSize"
  shows "owned_build part acc es = Inr (acc @ es)"
  using assms
proof (induction es arbitrary: acc)
  case (Cons e es)
  have "osize (acc @ [e]) \<le> BSONObjMaxInternalSize"
    using Cons.prems(2) osize_append_le [of "acc @ [e]" es] by simp
  then show ?case using Cons.IH [of "acc @ [e]"] Cons.prems
    by (simp add: buffer_fits_def BSONObjMaxInternalSize_def BSONObjMaxUserSize_def)
qed (simp add: buffer_fits_def BSONObj_init_iff BSONObjMaxInternalSize_def BSONObjMaxUserSize_def)

lemma owned_build_Inr:
  "owned_build part acc es = Inr ob \<Longrightarrow> ob = acc @ es \<and> osize ob \<le> BSONObjMaxInternalSize \<and> (\<forall>e \<in> set es. part e = Inr ())"
proof (induction es arbitrary: acc)
  case (Cons e es)
  then have "part e = Inr ()" "owned_build part (acc @ [e]) es = Inr ob"
    by (auto simp: rbind_def split: sum.splits)
  then show ?case using Cons.IH [of "acc @ [e]"] by auto
qed (auto simp: rbind_def BSONObj_init_iff split: sum.splits)

lemma build_flat_fits: "osize ob \<le> BSONObjMaxInternalSize \<Longrightarrow> build_flat ob = Inr ob"
  using owned_build_ok [of ob "\<lambda>_. Inr ()" "[]"] by simp

lemma build_flat_Inl:
  assumes "\<not> osize ob \<le> BSONObjMaxInternalSize"
  shows "\<exists>c m. c \<in> {10334, 13548} \<and> build_flat ob = Inl (MsgAssertion c m)"
proof -
  have "\<exists>c m. c \<in> {10334, 13548} \<and> owned_build (\<lambda>_. Inr ()) acc es = Inl (MsgAssertion c m)"
    if "\<not> osize (acc @ es) \<le> BSONObjMaxInternalSize" for acc es
    using that
  proof (induction es arbitrary: acc)
    case (Cons e es)
    then show ?case using Cons.IH [of "acc @ [e]"] by (auto simp: buffer_fits_def)
  qed (auto simp: buffer_fits_def BSONObj_init_def isValid_def assertInvalid_def)
  from this [of "[]" ob] assms show ?thesis by simp
qed

end
