(* ===== verification/PubSubCommands.thy ===== *)
theory PubSubCommands
  imports PubSubSystem SendSocket Namespaces BsonObj
begin

text \<open>
  The four commands through which clients reach the subscription table and the sending socket:
  \<open>src/src/mongo/db/commands/pubsub_commands.cpp\<close>, with the helpers of
  \<open>src/src/mongo/db/commands.cpp\<close> that name the resource a command needs access to and
  \<open>BSONElement::Array\<close> of \<open>src/src/mongo/db/jsobj.cpp\<close>.  A command reads a document and
  answers with a document or an error; \<open>Undef\<close> is undefined behaviour.
\<close>

section \<open>Arguments\<close>

definition uint_limits :: num_limits where
  "uint_limits = \<lparr>nl_signed = False, nl_min = 0, nl_max = 2 ^ 32 - 1\<rparr>"

definition vec_put :: "nat \<Rightarrow> belem \<Rightarrow> belem list \<Rightarrow> belem list" where
  "vec_put u e v = (if u \<ge> length v then v @ replicate (u + 1 - length v) EOO_elem else v)[u := e]"

text \<open>\<open>BSONElement::Array\<close>: the elements by the number their name spells; gaps stay empty.\<close>

fun array_loop :: "bobj \<Rightarrow> belem list \<Rightarrow> belem list result" where
  "array_loop [] v = Inr v"
| "array_loop (e # es) v =
     (case parseNumberFromStringWithBase uint_limits (fieldName e) 0 of
        Inr u \<Rightarrow> if u < 1000000 then array_loop es (vec_put (nat u) e v)
                 else Inl (VerifyFailed ''u < 1000000'')
      | Inl _ \<Rightarrow> array_loop es v)"

definition eArray :: "belem \<Rightarrow> belem list result" where
  "eArray e = (case snd e of BArray es \<Rightarrow> array_loop es [] | _ \<Rightarrow> Inl (chk_error e Array))"

fun validate_elems :: "belem list \<Rightarrow> oid std_set \<Rightarrow> oid std_set result" where
  "validate_elems [] oids = Inr oids"
| "validate_elems (e # es) oids =
     rbind (uassert 18544 (''Each subscriptionId in the subscriptionId array must be an ObjectID but found a ''
              @ typeName (etype e)) (etype e = jstOID)) (\<lambda>_.
     rbind (eOID e) (\<lambda>i. validate_elems es (set_insert oid_lt i oids)))"

definition validate :: "belem \<Rightarrow> oid std_set result" where
  "validate e =
     rbind (uassert 18543 (''The subscriptionId argument must be an ObjectID or Array but was a ''
              @ typeName (etype e)) (etype e = jstOID \<or> etype e = Array)) (\<lambda>_.
     if etype e = jstOID then rbind (eOID e) (\<lambda>i. Inr (set_insert oid_lt i []))
     else rbind (eArray e) (\<lambda>es. validate_elems es []))"

definition dbl_floor :: "dbl \<Rightarrow> dbl" where
  "dbl_floor d = (case d of DFin r \<Rightarrow> DFin (of_int \<lfloor>r\<rfloor>) | _ \<Rightarrow> d)"

definition poll_timeout :: "bobj \<Rightarrow> int result" where
  "poll_timeout cmdObj =
     (let e = getField ''timeout'' cmdObj in
      if eoo e then Inr 0
      else rbind (uassert 18535 (''The timeout argument must be an integer but was a '' @ typeName (etype e))
                    (etype e = NumberDouble \<or> etype e = NumberLong \<or> etype e = NumberInt)) (\<lambda>_.
        Inr (case snd e of
               BNumberDouble d \<Rightarrow> sint (dbl_to_i64 (dbl_floor d))
             | BNumberLong i \<Rightarrow> sint (numberLong e)
             | _ \<Rightarrow> sint (numberInt e))))"

section \<open>Access\<close>

definition parseNs :: "string \<Rightarrow> bobj \<Rightarrow> string" where
  "parseNs dbname cmdObj =
     (case snd (firstElement cmdObj) of
        BString s \<Rightarrow> dbname @ CHR ''.'' # c_str s
      | _ \<Rightarrow> dbname)"

definition parseResourcePattern :: "string \<Rightarrow> bobj \<Rightarrow> resource_pattern result" where
  "parseResourcePattern dbname cmdObj =
     (let s = parseNs dbname cmdObj in
      if sd_find_char CHR ''.'' 0 s = None then forDatabaseName s
      else Inr (forExactNamespace (NamespaceString s)))"

datatype action_type = ActFind

definition addRequiredPrivileges ::
  "string \<Rightarrow> bobj \<Rightarrow> (resource_pattern \<times> action_type list) list \<Rightarrow> (resource_pattern \<times> action_type list) list result" where
  "addRequiredPrivileges dbname cmdObj out =
     rbind (parseResourcePattern dbname cmdObj) (\<lambda>p. Inr (out @ [(p, [ActFind])]))"

section \<open>Publishing and subscribing\<close>

record server =
  sv_ps :: ps_state
  sv_send :: send_state

abbreviation enabled :: "server \<Rightarrow> bool" where
  "enabled sv \<equiv> ss_pubsubEnabled (sv_send sv)"

definition publish_args :: "bobj \<Rightarrow> (string \<times> bobj) result" where
  "publish_args cmdObj =
     (let channelElem = getField ''publish'' cmdObj in
      rbind (uassert 18527 (''The channel passed to the publish command must be a string but was a ''
               @ typeName (etype channelElem)) (etype channelElem = String)) (\<lambda>_.
      rbind (eString channelElem) (\<lambda>channel.
      rbind (uassert 18555 (''The '' @ CHR 34 # ''$events'' @ CHR 34 # '' channel is reserved fordatabase event notifications.'')
               (\<not> sd_startsWith ''$events'' channel)) (\<lambda>_.
      rbind (uassert 18552 ''The publish command requires a message argument.'' (hasField ''message'' cmdObj)) (\<lambda>_.
      let messageElem = getField ''message'' cmdObj in
      rbind (uassert 18528 (''The message for the publish command must be a document but was a ''
               @ typeName (etype messageElem)) (etype messageElem = Object)) (\<lambda>_.
      Inr (channel, subelems (snd messageElem))))))))"

definition publish_run :: "(nat \<Rightarrow> bool) \<Rightarrow> u64 \<Rightarrow> bobj \<Rightarrow> server \<Rightarrow> server \<times> bobj outcome" where
  "publish_run fails now cmdObj sv =
     (if \<not> enabled sv then (sv, outcome.Throws (UserException 18556 ''PubSub is not enabled.''))
      else
        (case publish_args cmdObj of
           Inl e \<Rightarrow> (sv, outcome.Throws e)
         | Inr (channel, message) \<Rightarrow>
             (case publish fails now channel message (sv_send sv) of
                Done (success, ss) \<Rightarrow>
                  (sv\<lparr>sv_send := ss\<rparr>,
                   if success then Done [] else outcome.Throws (UserException 18538 ''Failed to publish message.''))
              | outcome.Throws e \<Rightarrow> (sv, outcome.Throws e)
              | Undef u \<Rightarrow> (sv, Undef u))))"

definition object_arg :: "nat \<Rightarrow> string \<Rightarrow> string \<Rightarrow> bobj \<Rightarrow> bobj result" where
  "object_arg code msg name cmdObj =
     (if hasField name cmdObj then
        let e = getField name cmdObj in
        rbind (uassert code (msg @ typeName (etype e)) (etype e = Object)) (\<lambda>_. Inr (subelems (snd e)))
      else Inr [])"

definition subscribe_args :: "bobj \<Rightarrow> (string \<times> bobj \<times> bobj) result" where
  "subscribe_args cmdObj =
     (let channelElem = getField ''subscribe'' cmdObj in
      rbind (uassert 18531 (''The channel passed to the subscribe command must be a string but was a ''
               @ typeName (etype channelElem)) (etype channelElem = String)) (\<lambda>_.
      rbind (eString channelElem) (\<lambda>channel.
      rbind (object_arg 18553 ''The filter passed to the subscribe command must be an object but was a ''
               ''filter'' cmdObj) (\<lambda>f.
      rbind (object_arg 18554 ''The projection passed to the subscribe command must be an object but was a ''
               ''projection'' cmdObj) (\<lambda>p.
      Inr (channel, f, p))))))"

definition subscribe_run ::
  "parse_env \<Rightarrow> string option \<Rightarrow> 32 word \<Rightarrow> machine_and_pid \<Rightarrow> bobj \<Rightarrow> server \<Rightarrow> server \<times> bobj result" where
  "subscribe_run env zerr now mp cmdObj sv =
     (if \<not> enabled sv then (sv, Inl (UserException 18557 ''PubSub is not enabled.''))
      else
        (case subscribe_args cmdObj of
           Inl e \<Rightarrow> (sv, Inl e)
         | Inr (channel, f, p) \<Rightarrow>
             (case subscribe env zerr now mp channel f p (sv_ps sv) of
                (ps, Inl e) \<Rightarrow> (sv\<lparr>sv_ps := ps\<rparr>, Inl e)
              | (ps, Inr i) \<Rightarrow> (sv\<lparr>sv_ps := ps\<rparr>, Inr [(''subscriptionId'', BOid i)]))))"

section \<open>Polling\<close>

definition array_of :: "bobj list \<Rightarrow> bval" where
  "array_of ms = BArray (map (\<lambda>(i, m). (nat_str i, BObject m)) (zip [0..<length ms] ms))"

text \<open>
  The three nested loops over the queue.  \<open>sm\<close> is the message last looked at, which is the top of the
  queue unless the queue is empty.
\<close>

lemma length_tl_less: "tl q = x # xs \<Longrightarrow> length q - Suc 0 < length q"
  by (cases q) auto

function take_channel ::
  "oid \<Rightarrow> string \<Rightarrow> sub_msg \<Rightarrow> sub_msg pqueue \<Rightarrow> bobj list \<Rightarrow> bobj list \<times> sub_msg \<times> sub_msg pqueue" where
  "take_channel currId currChannel sm q acc =
     (if oid_eq (sm_subscriptionId sm) currId \<and> sm_channel sm = currChannel then
        let acc' = acc @ [sm_message sm]; q' = pq_pop q in
        case pq_top q' of
          None \<Rightarrow> (acc', sm, q')
        | Some sm' \<Rightarrow> take_channel currId currChannel sm' q' acc'
      else (acc, sm, q))"
  by pat_completeness auto
termination
  by (relation "measure (\<lambda>(i, c, sm, q, acc). length q)")
    (auto simp: pq_top_def pq_pop_def length_tl_less split: list.splits)

declare take_channel.simps [simp del]

lemma take_channel_length:
  "take_channel i c sm q acc = (acc', sm', q') \<Longrightarrow> length q' \<le> length q"
proof (induction i c sm q acc arbitrary: acc' sm' q' rule: take_channel.induct)
  case (1 i c sm q acc)
  show ?case
    using 1(2) 1(1) [of "acc @ [sm_message sm]" "pq_pop q"]
    by (subst (asm) take_channel.simps)
      (fastforce simp: Let_def pq_pop_def split: if_splits option.splits)
qed

lemma take_channel_shorter:
  assumes "take_channel i (sm_channel sm) sm q acc = (acc', sm', q')" "oid_eq (sm_subscriptionId sm) i" "q \<noteq> []"
  shows "length q' < length q"
proof -
  have "length (pq_pop q) < length q" using assms(3) by (simp add: pq_pop_def)
  then show ?thesis
    using assms(1,2) take_channel_length
    by (subst (asm) take_channel.simps) (fastforce simp: Let_def split: option.splits)
qed

function take_id ::
  "oid \<Rightarrow> sub_msg \<Rightarrow> sub_msg pqueue \<Rightarrow> bobj \<Rightarrow> bobj \<times> sub_msg pqueue" where
  "take_id currId sm q channels =
     (if q \<noteq> [] \<and> oid_eq (sm_subscriptionId sm) currId then
        (case take_channel currId (sm_channel sm) sm q [] of
           (ms, sm', q') \<Rightarrow> take_id currId sm' q' (channels @ [(sm_channel sm, array_of ms)]))
      else (channels, q))"
  by pat_completeness auto
termination
  by (relation "measure (\<lambda>(i, sm, q, cs). length q)") (auto dest: take_channel_shorter [OF sym])

declare take_id.simps [simp del]

lemma take_id_length: "take_id i sm q cs = (cs', q') \<Longrightarrow> length q' \<le> length q"
proof (induction i sm q cs arbitrary: cs' q' rule: take_id.induct)
  case (1 i sm q cs)
  show ?case
  proof (cases "q \<noteq> [] \<and> oid_eq (sm_subscriptionId sm) i")
    case True
    obtain ms sm' q1 where t: "take_channel i (sm_channel sm) sm q [] = (ms, sm', q1)" by (cases "take_channel i (sm_channel sm) sm q []")
    have "take_id i sm' q1 (cs @ [(sm_channel sm, array_of ms)]) = (cs', q')"
      using "1.prems" True t by (simp add: take_id.simps [of i sm q])
    then have "length q' \<le> length q1" using "1.IH" [OF True t [symmetric] refl] by simp
    then show ?thesis using take_channel_length [OF t] by simp
  qed (use "1.prems" in \<open>auto simp: take_id.simps [of i sm q]\<close>)
qed

lemma take_id_shorter:
  assumes "take_id (sm_subscriptionId sm) sm q cs = (cs', q')" "q \<noteq> []"
  shows "length q' < length q"
proof -
  have e: "oid_eq (sm_subscriptionId sm) (sm_subscriptionId sm)" by (simp add: oid_eq_def)
  obtain ms sm' q1 where t: "take_channel (sm_subscriptionId sm) (sm_channel sm) sm q [] = (ms, sm', q1)"
    by (cases "take_channel (sm_subscriptionId sm) (sm_channel sm) sm q []")
  have "take_id (sm_subscriptionId sm) sm' q1 (cs @ [(sm_channel sm, array_of ms)]) = (cs', q')"
    using assms e t by (simp add: take_id.simps [of _ sm q])
  then have "length q' \<le> length q1" by (rule take_id_length)
  also have "length q1 < length q" using take_channel_shorter [OF t e assms(2)] .
  finally show ?thesis .
qed

function group_messages :: "sub_msg pqueue \<Rightarrow> bobj \<Rightarrow> bobj" where
  "group_messages q out =
     (case pq_top q of
        None \<Rightarrow> out
      | Some sm \<Rightarrow>
          (case take_id (sm_subscriptionId sm) sm q [] of
             (channels, q') \<Rightarrow> group_messages q' (out @ [(oid_str (sm_subscriptionId sm), BObject channels)])))"
  by pat_completeness auto
termination
proof (relation "measure (\<lambda>(q, out). length q)", goal_cases)
  case (2 q out sm channels q')
  then have "q \<noteq> []" by (auto simp: pq_top_def)
  then show ?case using take_id_shorter [OF 2(2) [symmetric]] by simp
qed simp

declare group_messages.simps [simp del]

definition error_object :: "errs \<Rightarrow> bobj" where
  "error_object errors = map (\<lambda>(i, e). (oid_str i, BString e)) errors"

definition poll_reply :: "poll_result \<Rightarrow> bobj" where
  "poll_reply r =
     [(''messages'', BObject (group_messages (pr_messages r) [])),
      (''millisPolled'', BNumberLong (word_of_int (pr_millisPolled r)))]
     @ (if pr_pollAgain r then [(''pollAgain'', BBool True)] else [])
     @ (if length (pr_errors r) > 0 then [(''errors'', BObject (error_object (pr_errors r)))] else [])"

text \<open>
  The builders of the reply check sizes as they go: each array of a channel, then the object of the
  channels of an id, the object of all ids, and the object of the errors.
\<close>

definition messages_build :: "bobj \<Rightarrow> bobj result" where
  "messages_build m =
     owned_build (\<lambda>byId. rbind (owned_build (\<lambda>byChannel. rbind (build_flat (subelems (snd byChannel))) (\<lambda>_. Inr ()))
       [] (subelems (snd byId))) (\<lambda>_. Inr ())) [] m"

definition reply_build :: "poll_result \<Rightarrow> bobj result" where
  "reply_build r =
     rbind (messages_build (group_messages (pr_messages r) [])) (\<lambda>_.
     rbind (if length (pr_errors r) > 0 then build_flat (error_object (pr_errors r)) else Inr []) (\<lambda>_.
     Inr (poll_reply r)))"

definition poll_args :: "bobj \<Rightarrow> (oid std_set \<times> int) result" where
  "poll_args cmdObj =
     rbind (validate (getField ''poll'' cmdObj)) (\<lambda>oids.
     rbind (poll_timeout cmdObj) (\<lambda>timeout. Inr (oids, timeout)))"

definition poll_run :: "zmq_env \<Rightarrow> bobj \<Rightarrow> server \<Rightarrow> server \<times> bobj result" where
  "poll_run z cmdObj sv =
     (if \<not> enabled sv then (sv, Inl (UserException 18558 ''PubSub is not enabled.''))
      else
        (case poll_args cmdObj of
           Inl e \<Rightarrow> (sv, Inl e)
         | Inr (oids, timeout) \<Rightarrow>
             (case poll z oids timeout (sv_ps sv) of
                (ps, Inl e) \<Rightarrow> (sv\<lparr>sv_ps := ps\<rparr>, Inl e)
              | (ps, Inr r) \<Rightarrow> (sv\<lparr>sv_ps := ps\<rparr>, reply_build r))))"

section \<open>Unsubscribing\<close>

fun unsubscribe_loop :: "zmq_env \<Rightarrow> oid std_set \<Rightarrow> errs \<Rightarrow> ps_state \<Rightarrow> errs \<times> ps_state" where
  "unsubscribe_loop z [] errors st = (errors, st)"
| "unsubscribe_loop z (i # is) errors st =
     (case unsubscribe z i False errors st of (errors', st') \<Rightarrow> unsubscribe_loop z is errors' st')"

definition unsubscribe_run :: "zmq_env \<Rightarrow> bobj \<Rightarrow> server \<Rightarrow> server \<times> bobj result" where
  "unsubscribe_run z cmdObj sv =
     (if \<not> enabled sv then (sv, Inl (UserException 18559 ''PubSub is not enabled.''))
      else
        (case validate (getField ''unsubscribe'' cmdObj) of
           Inl e \<Rightarrow> (sv, Inl e)
         | Inr oids \<Rightarrow>
             (case unsubscribe_loop z oids [] (sv_ps sv) of
                (errors, ps) \<Rightarrow>
                  (sv\<lparr>sv_ps := ps\<rparr>,
                   if length errors > 0
                   then rbind (build_flat (error_object errors)) (\<lambda>e. Inr [(''errors'', BObject e)])
                   else Inr []))))"

section \<open>What a poll answers\<close>

abbreviation same_channel :: "oid \<Rightarrow> string \<Rightarrow> sub_msg \<Rightarrow> bool" where
  "same_channel i c m \<equiv> oid_eq (sm_subscriptionId m) i \<and> sm_channel m = c"

abbreviation same_id :: "oid \<Rightarrow> sub_msg \<Rightarrow> bool" where
  "same_id i m \<equiv> oid_eq (sm_subscriptionId m) i"

lemma take_channel_spec:
  "\<exists>sm'. take_channel i c sm (sm # q) acc =
     (acc @ map sm_message (takeWhile (same_channel i c) (sm # q)), sm', dropWhile (same_channel i c) (sm # q))
   \<and> (dropWhile (same_channel i c) (sm # q) \<noteq> [] \<longrightarrow> sm' = hd (dropWhile (same_channel i c) (sm # q)))"
proof (induction q arbitrary: sm acc)
  case Nil
  show ?case by (subst take_channel.simps) (simp add: pq_top_def pq_pop_def)
next
  case (Cons a q)
  show ?case
    using Cons [of a "acc @ [sm_message sm]"]
    by (subst take_channel.simps) (auto simp: pq_top_def pq_pop_def)
qed

text \<open>The runs of a list: maximal stretches of elements equivalent to their first one.\<close>

function runs :: "('a \<Rightarrow> 'a \<Rightarrow> bool) \<Rightarrow> 'a list \<Rightarrow> 'a list list" where
  "runs r [] = []"
| "runs r (x # xs) = (x # takeWhile (r x) xs) # runs r (dropWhile (r x) xs)"
  by pat_completeness auto
termination
  by (relation "measure (\<lambda>(r, xs). length xs)") (auto simp: le_imp_less_Suc length_dropWhile_le)

lemma concat_runs [simp]: "concat (runs r xs) = xs"
  by (induction r xs rule: runs.induct) auto

lemma runs_nonempty: "g \<in> set (runs r xs) \<Longrightarrow> g \<noteq> []"
  by (induction r xs rule: runs.induct) auto

lemma runs_subset: "g \<in> set (runs r xs) \<Longrightarrow> set g \<subseteq> set xs"
  using concat_runs [of r xs] by (metis Union_upper image_eqI set_concat)

lemma runs_hd: "g \<in> set (runs r xs) \<Longrightarrow> hd g \<in> set xs"
  using runs_subset runs_nonempty by (metis hd_in_set subsetD)

lemma runs_same: "g \<in> set (runs r xs) \<Longrightarrow> y \<in> set g \<Longrightarrow> y = hd g \<or> r (hd g) y"
  by (induction r xs rule: runs.induct) (auto dest: set_takeWhileD)

definition by_id :: "sub_msg \<Rightarrow> sub_msg \<Rightarrow> bool" where
  "by_id m m' \<longleftrightarrow> oid_eq (sm_subscriptionId m') (sm_subscriptionId m)"

definition by_channel :: "sub_msg \<Rightarrow> sub_msg \<Rightarrow> bool" where
  "by_channel m m' \<longleftrightarrow> sm_channel m' = sm_channel m"

definition channel_field :: "sub_msg list \<Rightarrow> belem" where
  "channel_field g = (sm_channel (hd g), array_of (map sm_message g))"

definition id_field :: "sub_msg list \<Rightarrow> belem" where
  "id_field g = (oid_str (sm_subscriptionId (hd g)), BObject (map channel_field (runs by_channel g)))"

lemma takeWhile_takeWhile_conj: "takeWhile (\<lambda>x. P x \<and> Q x) xs = takeWhile Q (takeWhile P xs)"
  by (induction xs) auto

lemma dropWhile_conj: "dropWhile (\<lambda>x. P x \<and> Q x) xs = dropWhile Q (takeWhile P xs) @ dropWhile P xs"
  by (induction xs) auto

lemma takeWhile_idem_append:
  "\<forall>x \<in> set xs. P x \<Longrightarrow> takeWhile P (xs @ dropWhile P ys) = xs"
  "\<forall>x \<in> set xs. P x \<Longrightarrow> dropWhile P (xs @ dropWhile P ys) = dropWhile P ys"
proof -
  have "takeWhile P (dropWhile P ys) = []" "dropWhile P (dropWhile P ys) = dropWhile P ys" by (induction ys) auto
  then show "\<forall>x \<in> set xs. P x \<Longrightarrow> takeWhile P (xs @ dropWhile P ys) = xs"
    "\<forall>x \<in> set xs. P x \<Longrightarrow> dropWhile P (xs @ dropWhile P ys) = dropWhile P ys"
    by (induction xs) auto
qed

lemma take_id_spec:
  "(q \<noteq> [] \<Longrightarrow> sm = hd q) \<Longrightarrow>
   take_id i sm q cs =
     (cs @ map channel_field (runs by_channel (takeWhile (same_id i) q)), dropWhile (same_id i) q)"
proof (induction "length q" arbitrary: q sm cs rule: less_induct)
  case less
  show ?case
  proof (cases "q \<noteq> [] \<and> same_id i sm")
    case False
    then show ?thesis using less.prems by (cases q) (auto simp: take_id.simps [of i sm])
  next
    case True
    then obtain q1 where q: "q = sm # q1" using less.prems by (cases q) auto
    let ?c = "sm_channel sm" and ?P = "same_id i" and ?Q = "\<lambda>m. sm_channel m = sm_channel sm"
    let ?q' = "dropWhile (same_channel i ?c) q" and ?t = "takeWhile ?P q1"
    obtain sm' where t: "take_channel i ?c sm q [] = (map sm_message (takeWhile (same_channel i ?c) q), sm', ?q')"
      "?q' \<noteq> [] \<longrightarrow> sm' = hd ?q'"
      using take_channel_spec [of i ?c sm q1 "[]"] q by auto
    have q': "?q' = dropWhile ?Q ?t @ dropWhile ?P q1"
      using True q dropWhile_conj [of ?P ?Q q1] by simp
    have len: "length ?q' < length q" using take_channel_shorter [OF t(1)] True by blast
    have all: "\<forall>x \<in> set (dropWhile ?Q ?t). ?P x" by (auto dest: set_dropWhileD set_takeWhileD)
    have step: "take_id i sm q cs = take_id i sm' ?q' (cs @ [(?c, array_of (map sm_message (takeWhile (same_channel i ?c) q)))])"
      using True t(1) by (simp add: take_id.simps [of i sm q])
    have field: "(?c, array_of (map sm_message (takeWhile (same_channel i ?c) q))) = channel_field (sm # takeWhile ?Q ?t)"
      using True q by (simp add: channel_field_def takeWhile_takeWhile_conj)
    have byq: "by_channel sm = ?Q" by (auto simp: by_channel_def)
    have parts: "takeWhile ?P ?q' = dropWhile ?Q ?t" "dropWhile ?P ?q' = dropWhile ?P q1"
      unfolding q' by (rule takeWhile_idem_append [OF all])+
    have "take_id i sm' ?q' (cs @ [channel_field (sm # takeWhile ?Q ?t)]) =
        ((cs @ [channel_field (sm # takeWhile ?Q ?t)]) @ map channel_field (runs by_channel (dropWhile ?Q ?t)), dropWhile ?P q1)"
      using less.hyps [OF len, of sm'] t(2) unfolding parts by blast
    then show ?thesis unfolding step field using True q by (simp add: byq)
  qed
qed

lemma group_messages_spec: "group_messages q out = out @ map id_field (runs by_id q)"
proof (induction "length q" arbitrary: q out rule: less_induct)
  case less
  show ?case
  proof (cases q)
    case Nil
    then show ?thesis by (simp add: group_messages.simps [of "[]"] pq_top_def)
  next
    case (Cons sm q1)
    let ?P = "same_id (sm_subscriptionId sm)"
    have self: "oid_eq (sm_subscriptionId sm) (sm_subscriptionId sm)" by (simp add: oid_eq_def)
    have byq: "by_id sm = ?P" by (auto simp: by_id_def)
    have t: "take_id (sm_subscriptionId sm) sm q [] =
        (map channel_field (runs by_channel (sm # takeWhile ?P q1)), dropWhile ?P q1)"
      using take_id_spec [of q sm "sm_subscriptionId sm" "[]"] Cons self by simp
    have len: "length (dropWhile ?P q1) < length q"
      using length_dropWhile_le [of ?P q1] Cons by simp
    have step: "group_messages q out = group_messages (dropWhile ?P q1) (out @ [id_field (sm # takeWhile ?P q1)])"
      using t Cons by (simp add: group_messages.simps [of "sm # q1"] pq_top_def id_field_def)
    show ?thesis unfolding step less [OF len] using Cons by (simp add: byq)
  qed
qed

text \<open>The messages of a reply, each with the names it stands under.\<close>

fun array_messages :: "bval \<Rightarrow> bobj list" where
  "array_messages (BArray es) = map (\<lambda>e. case snd e of BObject m \<Rightarrow> m | _ \<Rightarrow> []) es"
| "array_messages _ = []"

fun object_fields :: "bval \<Rightarrow> bobj" where
  "object_fields (BObject fs) = fs"
| "object_fields _ = []"

definition flatten_reply :: "bobj \<Rightarrow> (string \<times> string \<times> bobj) list" where
  "flatten_reply out =
     concat (map (\<lambda>(i, v). concat (map (\<lambda>(c, a). map (\<lambda>m. (i, c, m)) (array_messages a)) (object_fields v))) out)"

lemma array_messages_array_of [simp]: "array_messages (array_of ms) = ms"
  by (simp add: array_of_def comp_def case_prod_unfold map_snd_zip)

context strict_weak_order
begin

lemma dropWhile_equiv_less:
  "sorted_wrt (\<lambda>x y. \<not> lt (f x) (f y)) (x # ys) \<Longrightarrow>
   y \<in> set (dropWhile (\<lambda>y. \<not> lt (f x) (f y) \<and> \<not> lt (f y) (f x)) ys) \<Longrightarrow> lt (f y) (f x)"
proof (induction ys)
  case (Cons z ys)
  then show ?case by (cases "lt (f z) (f x)") (auto dest: equiv_less_less)
qed simp

lemma runs_sorted:
  assumes r: "r = (\<lambda>x y. \<not> lt (f x) (f y) \<and> \<not> lt (f y) (f x))"
    and "sorted_wrt (\<lambda>x y. \<not> lt (f x) (f y)) xs"
  shows "sorted_wrt (\<lambda>g h. lt (f (hd h)) (f (hd g))) (runs r xs)"
  using assms(2)
proof (induction "length xs" arbitrary: xs rule: less_induct)
  case less
  show ?case
  proof (cases xs)
    case (Cons x ys)
    let ?rest = "dropWhile (r x) ys"
    have srt: "sorted_wrt (\<lambda>x y. \<not> lt (f x) (f y)) ?rest"
      using less.prems Cons by (metis sorted_wrt_append sorted_wrt.simps(2) takeWhile_dropWhile_id)
    have "lt (f (hd g)) (f x)" if g: "g \<in> set (runs r ?rest)" for g
      using runs_hd [OF g] dropWhile_equiv_less [of f x ys "hd g"] less.prems Cons by (simp add: r)
    moreover have "length ?rest < length xs" using length_dropWhile_le [of "r x" ys] Cons by simp
    ultimately show ?thesis using less.hyps [OF _ srt] Cons by simp
  qed simp
qed

end

interpretation str_order: strict_weak_order str_lt
  by unfold_locales (use str_lt_simps(2) str_lt_neg_trans in blast)+

lemma sorted_wrt_distinct: "sorted_wrt (\<lambda>x y. f x \<noteq> f y) xs \<Longrightarrow> distinct (map f xs)"
  by (induction xs) auto

lemma oid_str_eq: "oid_str i = oid_str j \<longleftrightarrow> i = j"
proof
  assume "oid_str i = oid_str j"
  then have "fromHex_pairs (oid_str i) = fromHex_pairs (oid_str j)" by simp
  then show "i = j" by (cases i; cases j) (simp add: oid_str_def fromHex_pairs_toHexLower)
qed simp

lemma runs_by_id_distinct:
  assumes "pq_inv sm_lt q"
  shows "distinct (map fst (map id_field (runs by_id q)))"
proof -
  have "sorted_wrt (\<lambda>x y. \<not> oid_lt (sm_subscriptionId x) (sm_subscriptionId y)) q"
    using assms(1) unfolding pq_inv_def by (rule sorted_wrt_mono_rel [rotated]) (simp add: sm_lt_iff)
  then have "sorted_wrt (\<lambda>g h. oid_lt (sm_subscriptionId (hd h)) (sm_subscriptionId (hd g))) (runs by_id q)"
    by (intro oid_order.runs_sorted) (auto simp: by_id_def oid_eq_iff fun_eq_iff)
  then have "sorted_wrt (\<lambda>g h. fst (id_field g) \<noteq> fst (id_field h)) (runs by_id q)"
    by (elim sorted_wrt_mono_rel [rotated]) (auto simp: id_field_def oid_str_eq)
  then show ?thesis using sorted_wrt_distinct [of "\<lambda>g. fst (id_field g)"] by (simp add: comp_def)
qed

lemma runs_sorted_within: "sorted_wrt R xs \<Longrightarrow> g \<in> set (runs r xs) \<Longrightarrow> sorted_wrt R g"
proof (induction r xs rule: runs.induct)
  case (2 r x xs)
  have "sorted_wrt R (takeWhile (r x) xs)" "sorted_wrt R (dropWhile (r x) xs)"
    using 2(2) by (metis sorted_wrt_append sorted_wrt.simps(2) takeWhile_dropWhile_id)+
  moreover have "\<forall>y \<in> set (takeWhile (r x) xs). R x y" using 2(2) by (auto dest: set_takeWhileD)
  ultimately show ?case using 2(1,3) by auto
qed simp

lemma runs_by_channel_distinct:
  assumes "pq_inv sm_lt q" "g \<in> set (runs by_id q)"
  shows "distinct (map fst (map channel_field (runs by_channel g)))"
proof -
  have same: "oid_eq (sm_subscriptionId m) (sm_subscriptionId (hd g))" if "m \<in> set g" for m
    using runs_same [OF assms(2) that] by (auto simp: by_id_def oid_eq_def)
  have "sorted_wrt (\<lambda>x y. \<not> sm_lt x y) g" using assms runs_sorted_within by (auto simp: pq_inv_def)
  then have "sorted_wrt (\<lambda>x y. \<not> str_lt (sm_channel x) (sm_channel y)) g"
  proof (rule sorted_wrt_mono_rel [rotated])
    fix x y assume xy: "x \<in> set g" "y \<in> set g" "\<not> sm_lt x y"
    have "oid_eq (sm_subscriptionId x) (sm_subscriptionId y)" using same xy(1,2) by (simp add: oid_eq_def)
    then show "\<not> str_lt (sm_channel x) (sm_channel y)" using xy(3) by (metis sm_lt_def)
  qed
  then have "sorted_wrt (\<lambda>g h. str_lt (sm_channel (hd h)) (sm_channel (hd g))) (runs by_channel g)"
    by (intro str_order.runs_sorted) (use str_lt_simps in \<open>auto simp: by_channel_def fun_eq_iff\<close>)
  then have "sorted_wrt (\<lambda>g h. fst (channel_field g) \<noteq> fst (channel_field h)) (runs by_channel g)"
    by (rule sorted_wrt_mono_rel [rotated]) (use str_lt_simps(1) in \<open>auto simp: channel_field_def\<close>)
  then show ?thesis using sorted_wrt_distinct [of "\<lambda>g. fst (channel_field g)"] by (simp add: comp_def)
qed

definition reply_key :: "sub_msg \<Rightarrow> string \<times> string \<times> bobj" where
  "reply_key m = (oid_str (sm_subscriptionId m), sm_channel m, sm_message m)"

lemma flatten_groups:
  assumes "\<forall>m \<in> set q. oid_wf (sm_subscriptionId m)"
  shows "flatten_reply (map id_field (runs by_id q)) = map reply_key q"
proof -
  let ?s = "\<lambda>g. oid_str (sm_subscriptionId (hd g))"
  have chan: "concat (map (\<lambda>(c, a). map (\<lambda>m. (i, c, m)) (array_messages a)) (map channel_field (runs by_channel g)))
      = map (\<lambda>m. (i, sm_channel m, sm_message m)) g" for i g
  proof -
    have "map (\<lambda>m. (i, sm_channel (hd h), sm_message m)) h = map (\<lambda>m. (i, sm_channel m, sm_message m)) h"
      if h: "h \<in> set (runs by_channel g)" for h
    proof -
      have "sm_channel m = sm_channel (hd h)" if "m \<in> set h" for m
        using runs_same [OF h that] by (auto simp: by_channel_def)
      then show ?thesis by simp
    qed
    then have "concat (map (\<lambda>(c, a). map (\<lambda>m. (i, c, m)) (array_messages a)) (map channel_field (runs by_channel g)))
        = concat (map (map (\<lambda>m. (i, sm_channel m, sm_message m))) (runs by_channel g))"
      by (auto simp: channel_field_def comp_def intro!: arg_cong [where f = concat])
    then show ?thesis by (simp add: map_concat [symmetric])
  qed
  have "map (\<lambda>m. (?s g, sm_channel m, sm_message m)) g = map reply_key g" if g: "g \<in> set (runs by_id q)" for g
  proof -
    have "sm_subscriptionId m = sm_subscriptionId (hd g)" if m: "m \<in> set g" for m
      using runs_same [OF g m] runs_subset [OF g] m runs_hd [OF g] assms
      by (auto simp: by_id_def oid_eq_wf subset_iff)
    then show ?thesis by (auto simp: reply_key_def)
  qed
  then have "(case id_field g of (i, v) \<Rightarrow>
        concat (map (\<lambda>(c, a). map (\<lambda>m. (i, c, m)) (array_messages a)) (object_fields v))) = map reply_key g"
    if "g \<in> set (runs by_id q)" for g
    using that chan [of "?s g" g] by (simp add: id_field_def)
  then have "flatten_reply (map id_field (runs by_id q)) = concat (map (map reply_key) (runs by_id q))"
    unfolding flatten_reply_def map_map comp_def by (intro arg_cong [where f = concat] map_cong refl)
  then show ?thesis by (simp add: map_concat [symmetric])
qed

lemma oldest_first:
  assumes "pq_inv sm_lt q"
  shows "sorted (map sm_timestamp (filter (same_channel i c) q))"
proof -
  have "sorted_wrt (\<lambda>x y. \<not> sm_lt x y) (filter (same_channel i c) q)"
    using assms by (simp add: pq_inv_def sorted_wrt_filter)
  then have "sorted_wrt (\<lambda>x y. sm_timestamp x \<le> sm_timestamp y) (filter (same_channel i c) q)"
  proof (rule sorted_wrt_mono_rel [rotated])
    fix x y
    assume xy: "x \<in> set (filter (same_channel i c) q)" "y \<in> set (filter (same_channel i c) q)" "\<not> sm_lt x y"
    then have "oid_eq (sm_subscriptionId x) (sm_subscriptionId y)" "sm_channel x = sm_channel y"
      by (auto simp: oid_eq_def)
    then show "sm_timestamp x \<le> sm_timestamp y" using xy(3) by (metis sm_lt_def not_less)
  qed
  then show ?thesis by (simp add: sorted_map)
qed

section \<open>The queue a poll returns\<close>

definition ids_in :: "oid set \<Rightarrow> sub_msg list \<Rightarrow> bool" where
  "ids_in I q \<longleftrightarrow> (\<forall>m \<in> set q. sm_subscriptionId m \<in> I)"

lemma recv_loop_queue:
  "recv_loop sid s ms q = Inr q' \<Longrightarrow> pq_inv sm_lt q \<Longrightarrow> ids_in I q \<Longrightarrow> sid \<in> I \<Longrightarrow> pq_inv sm_lt q' \<and> ids_in I q'"
proof (induction sid s ms q rule: recv_loop.induct)
  case (2 sid s frame message timestamp ms q)
  obtain b where b: "filter_matches (si_filter s) message = Inr b" using 2(3) by (auto simp: rbind_Inr_iff)
  show ?case
  proof (cases b)
    case False
    then show ?thesis using 2 b by simp
  next
    case True
    obtain msg where msg: "apply_projection (si_projection s) message = Inr msg"
      using 2(3) b True by (auto simp: rbind_Inr_iff)
    show ?thesis
      using 2(2) [OF b _ msg] 2(3-) b True msg outbox.inv_push by (auto simp: ids_in_def)
  qed
qed simp

lemma recvMessages_queue:
  "recvMessages z subs q errors st = (st', Inr (q', errors')) \<Longrightarrow> pq_inv sm_lt q \<Longrightarrow> ids_in I q \<Longrightarrow>
   fst ` set subs \<subseteq> I \<Longrightarrow> pq_inv sm_lt q' \<and> ids_in I q'"
proof (induction subs arbitrary: q errors st)
  case (Cons x subs)
  obtain sid r where x: "x = (sid, r)" by (cases x)
  obtain ms failed where ms: "sock_recv z r st = (ms, failed)" by fastforce
  obtain q1 where q1: "recv_loop sid (info st r) ms q = Inr q1"
    using Cons.prems(1) x ms by (cases "recv_loop sid (info st r) ms q") auto
  have "pq_inv sm_lt q1 \<and> ids_in I q1" using recv_loop_queue [OF q1 Cons.prems(2,3)] Cons.prems(4) x by simp
  then show ?case using Cons.IH Cons.prems(1,4) x ms q1 by (auto simp: Let_def)
qed auto

lemma getSubscriptions_ids:
  "getSubscriptions ids items subs errors st = (items', subs', errors', st') \<Longrightarrow>
   fst ` set subs' \<subseteq> fst ` set subs \<union> set ids"
proof (induction ids arbitrary: items subs errors st)
  case (Cons sid ids)
  obtain x st1 where c: "checkoutSocket sid st = (x, st1)" by fastforce
  show ?case
  proof (cases x)
    case (Inl e)
    then have "getSubscriptions ids items subs (add_error sid e errors) st1 = (items', subs', errors', st')"
      using Cons.prems c by simp
    from Cons.IH [OF this] show ?thesis by auto
  next
    case (Inr r)
    then have "getSubscriptions ids (items @ [r]) (subs @ [(sid, r)]) errors st1 = (items', subs', errors', st')"
      using Cons.prems c by simp
    from Cons.IH [OF this] show ?thesis by auto
  qed
qed simp

lemma drop_cancelled_subset:
  "drop_cancelled z i items subs errors st = (items', subs', errors', st') \<Longrightarrow> set subs' \<subseteq> set subs"
proof (induction "length subs - i" arbitrary: i items subs errors st rule: less_induct)
  case less
  consider (fin) "\<not> i < length subs"
    | (keep) "i < length subs" "\<not> si_shouldUnsub (info st (snd (subs ! i)))"
    | (drp) "i < length subs" "si_shouldUnsub (info st (snd (subs ! i)))" by blast
  then show ?case
  proof cases
    case fin
    then show ?thesis using less.prems by (simp add: drop_cancelled.simps [of z i])
  next
    case keep
    then show ?thesis
      using less.prems less.hyps [of subs "Suc i" items errors st] by (simp add: drop_cancelled.simps [of z i])
  next
    case drp
    obtain e1 st1 where u: "unsubscribe z (fst (subs ! i)) True
        (add_error (fst (subs ! i)) ''Poll interrupted by unsubscribe.'' errors) st = (e1, st1)" by fastforce
    have "drop_cancelled z i (remove_at i items) (remove_at i subs) e1 st1 = (items', subs', errors', st')"
      using less.prems drp u by (simp add: drop_cancelled.simps [of z i items subs])
    then have "set subs' \<subseteq> set (remove_at i subs)" using drp by (intro less.hyps) auto
    then show ?thesis by (auto simp: remove_at_def dest: in_set_takeD in_set_dropD)
  qed
qed

text \<open>What the waiting loop hands on: subscriptions it was given, or no messages.\<close>

fun end_ids :: "oid set \<Rightarrow> loop_end \<Rightarrow> bool" where
  "end_ids I (Returns r) \<longleftrightarrow> pr_messages r = []"
| "end_ids I (loop_end.Throws e) \<longleftrightarrow> True"
| "end_ids I (Falls subs errors rt) \<longleftrightarrow> fst ` set subs \<subseteq> I"

lemma poll_loop_ids:
  "poll_loop z k timeout rt items subs errors st = (st', e) \<Longrightarrow> fst ` set subs \<subseteq> I \<Longrightarrow> end_ids I e"
proof (induction "nat timeout" arbitrary: k timeout rt items subs errors st rule: less_induct)
  case less
  show ?case
  proof (cases "timeout \<le> 0 \<or> z_wait z k \<noteq> NotReady")
    case True
    then show ?thesis
      using less.prems
      by (cases "z_wait z k") (auto simp: poll_loop.simps [of z k timeout] Let_def split: if_splits)
  next
    case False
    obtain items1 subs1 errors1 st1 where d:
      "drop_cancelled z 0 items subs errors (z_others z k st) = (items1, subs1, errors1, st1)"
      by (metis prod_cases4)
    have sub: "fst ` set subs1 \<subseteq> I" using drop_cancelled_subset [OF d] less.prems(2) by auto
    have pos: "0 < min maxPollInterval timeout" using False by (simp add: maxPollInterval_def)
    have lt: "nat (timeout - min maxPollInterval timeout) < nat timeout" using pos False by linarith
    show ?thesis
      using less.prems(1) False d less.hyps [OF lt _ sub]
      by (auto simp: poll_loop.simps [of z k timeout] Let_def split: if_splits)
  qed
qed

lemma poll_queue:
  assumes "poll z ids timeout st = (st', Inr r)"
  shows "pq_inv sm_lt (pr_messages r) \<and> ids_in (set ids) (pr_messages r)"
proof -
  obtain items subs errors st1 where g: "getSubscriptions ids [] [] [] st = (items, subs, errors, st1)"
    by (metis prod_cases4)
  have ids: "fst ` set subs \<subseteq> set ids" using getSubscriptions_ids [OF g] by simp
  have empty: "pq_inv sm_lt []" "ids_in (set ids) []" by (simp_all add: pq_inv_def ids_in_def)
  show ?thesis
  proof (cases "items = []")
    case True
    then show ?thesis using assms g empty by (auto simp: poll_def)
  next
    case False
    define t where "t = (if timeout > ps_maxTimeoutMillis st1 \<or> timeout < 0 then ps_maxTimeoutMillis st1 else timeout)"
    obtain st2 e where l: "poll_loop z 0 t 0 items subs errors st1 = (st2, e)" by fastforce
    have e: "end_ids (set ids) e" by (rule poll_loop_ids [OF l ids])
    show ?thesis
      using assms g False l e empty recvMessages_queue [where q = "[]" and I = "set ids"]
      by (cases e) (auto simp: poll_def t_def [symmetric] Let_def split: prod.splits sum.splits)
  qed
qed

section \<open>Properties\<close>

lemma messages_build_iff: "messages_build m = Inr m' \<longleftrightarrow> m' = m \<and> osize m \<le> BSONObjMaxInternalSize"
proof
  assume "messages_build m = Inr m'"
  then show "m' = m \<and> osize m \<le> BSONObjMaxInternalSize"
    unfolding messages_build_def by (auto dest: owned_build_Inr)
next
  assume m: "m' = m \<and> osize m \<le> BSONObjMaxInternalSize"
  have sub: "osize (subelems (snd e)) \<le> BSONObjMaxInternalSize" if "e \<in> set fs" "osize fs \<le> BSONObjMaxInternalSize" for e fs
    using vsize_mem [OF that(1)] osize_subelems_le [of "snd e"] osize_ge [of fs] that(2) by simp
  let ?part = "\<lambda>e. rbind (build_flat (subelems (snd e))) (\<lambda>_. Inr ())"
  have part: "owned_build ?part [] fs = Inr fs" if "osize fs \<le> BSONObjMaxInternalSize" for fs
  proof -
    have "owned_build ?part [] fs = Inr ([] @ fs)"
      by (rule owned_build_ok) (use that sub [OF _ that] in \<open>simp_all add: build_flat_fits\<close>)
    then show ?thesis by simp
  qed
  have "messages_build m = Inr ([] @ m)"
    unfolding messages_build_def by (rule owned_build_ok) (use m sub [of _ m] in \<open>simp_all add: part\<close>)
  then show "messages_build m = Inr m'" using m by simp
qed

lemma poll_run_Inr:
  assumes "poll_run z cmdObj sv = (sv', Inr reply)"
  shows "\<exists>ids timeout ps r. poll_args cmdObj = Inr (ids, timeout) \<and> poll z ids timeout (sv_ps sv) = (ps, Inr r)
    \<and> sv' = sv\<lparr>sv_ps := ps\<rparr> \<and> reply = poll_reply r"
  using assms by (auto simp: poll_run_def reply_build_def rbind_def split: if_splits sum.splits prod.splits)

lemma poll_reply_alt:
  "poll_reply r = [(''messages'', BObject (map id_field (runs by_id (pr_messages r)))),
      (''millisPolled'', BNumberLong (word_of_int (pr_millisPolled r)))]
     @ (if pr_pollAgain r then [(''pollAgain'', BBool True)] else [])
     @ (if length (pr_errors r) > 0 then [(''errors'', BObject (error_object (pr_errors r)))] else [])"
  by (simp only: poll_reply_def group_messages_spec append_Nil)

lemma poll_reply_fields:
  "getField ''messages'' (poll_reply r) = (''messages'', BObject (map id_field (runs by_id (pr_messages r))))"
  "hasField ''errors'' (poll_reply r) \<longleftrightarrow> pr_errors r \<noteq> []"
  "hasField ''pollAgain'' (poll_reply r) \<longleftrightarrow> pr_pollAgain r"
  unfolding poll_reply_alt hasField_def by (simp_all add: fieldName_def eoo_def etype_def EOO_elem_def)

text \<open>
  C6.  The reply to a poll holds every message the poll received, once, under the id of its
  subscription and its channel: read in order it is the queue of the poll.  No id and no channel of an id
  occurs twice, the messages of a channel stand oldest first, and the fields for errors and for polling
  again are there exactly when there is something to report.
\<close>

theorem poll_run_answers:
  assumes "poll_run z cmdObj sv = (sv', Inr reply)" "poll_args cmdObj = Inr (ids, timeout)" "\<forall>i \<in> set ids. oid_wf i"
  shows "\<exists>ps r out. poll z ids timeout (sv_ps sv) = (ps, Inr r)
    \<and> getField ''messages'' reply = (''messages'', BObject out)
    \<and> flatten_reply out = map reply_key (pr_messages r)
    \<and> distinct (map fst out) \<and> (\<forall>f \<in> set out. distinct (map fst (object_fields (snd f))))
    \<and> (\<forall>i c. sorted (map sm_timestamp (filter (same_channel i c) (pr_messages r))))
    \<and> (hasField ''errors'' reply \<longleftrightarrow> pr_errors r \<noteq> []) \<and> (hasField ''pollAgain'' reply \<longleftrightarrow> pr_pollAgain r)"
proof -
  obtain ps r where r: "poll z ids timeout (sv_ps sv) = (ps, Inr r)" "reply = poll_reply r"
    using poll_run_Inr [OF assms(1)] assms(2) by auto
  have q: "pq_inv sm_lt (pr_messages r)" "\<forall>m \<in> set (pr_messages r). oid_wf (sm_subscriptionId m)"
    using poll_queue [OF r(1)] assms(3) by (auto simp: ids_in_def)
  have "\<forall>f \<in> set (map id_field (runs by_id (pr_messages r))). distinct (map fst (object_fields (snd f)))"
    using runs_by_channel_distinct [OF q(1)] by (auto simp: id_field_def)
  then show ?thesis
    using r poll_reply_fields [of r] flatten_groups [OF q(2)] runs_by_id_distinct [OF q(1)] oldest_first [OF q(1)]
    by blast
qed

lemma reply_build_cases:
  "if osize (group_messages (pr_messages r) []) \<le> BSONObjMaxInternalSize
      \<and> osize (error_object (pr_errors r)) \<le> BSONObjMaxInternalSize
   then reply_build r = Inr (poll_reply r) else \<exists>e. reply_build r = Inl e"
proof (cases "osize (group_messages (pr_messages r) []) \<le> BSONObjMaxInternalSize")
  case True
  then have m: "messages_build (group_messages (pr_messages r) []) = Inr (group_messages (pr_messages r) [])"
    by (simp add: messages_build_iff)
  show ?thesis
  proof (cases "osize (error_object (pr_errors r)) \<le> BSONObjMaxInternalSize")
    case True
    then show ?thesis using m \<open>osize (group_messages (pr_messages r) []) \<le> BSONObjMaxInternalSize\<close>
      by (simp add: reply_build_def build_flat_fits)
  next
    case False
    then have "0 < length (pr_errors r)"
      by (cases "pr_errors r") (simp_all add: error_object_def BSONObjMaxInternalSize_def)
    then show ?thesis using m False build_flat_Inl [OF False] by (auto simp: reply_build_def)
  qed
next
  case False
  then obtain e where "messages_build (group_messages (pr_messages r) []) = Inl e"
    using messages_build_iff [of "group_messages (pr_messages r) []"] by (metis old.sum.exhaust)
  then show ?thesis using False by (simp add: reply_build_def)
qed


definition cmd_poll :: bobj where
  "cmd_poll = [(''poll'', BOid oid_null), (''timeout'', BNumberInt 100)]"

definition sv_one :: server where
  "sv_one = \<lparr>sv_ps = st_one, sv_send = ss_shard\<rparr>"

lemma cmd_poll_args: "poll_args cmd_poll = Inr ([oid_null], 100)"
  by (simp add: poll_args_def cmd_poll_def validate_def poll_timeout_def fieldName_def eoo_def etype_def eOID_def
      numberInt_def)

lemma cmd_poll_result:
  "\<exists>ps r. poll z_one [oid_null] 100 st_one = (ps, Inr r) \<and> pr_errors r = []
     \<and> pr_messages r = [\<lparr>sm_subscriptionId = oid_null, sm_channel = ''ab'', sm_message = [(''x'', BNumberInt 1)], sm_timestamp = 7\<rparr>]"
  by (simp add: poll_def st_one_simps checkoutSocket_def poll_loop.simps upd_info_def
      sock_recv_def filter_matches_def apply_projection_def NUL_def c_str_def)

lemma cmd_poll_run: "\<exists>sv' reply. poll_run z_one cmd_poll sv_one = (sv', Inr reply)"
proof -
  obtain ps r where r: "poll z_one [oid_null] 100 st_one = (ps, Inr r)" "pr_errors r = []"
    "pr_messages r = [\<lparr>sm_subscriptionId = oid_null, sm_channel = ''ab'', sm_message = [(''x'', BNumberInt 1)], sm_timestamp = 7\<rparr>]"
    using cmd_poll_result by blast
  have "osize (group_messages (pr_messages r) []) \<le> BSONObjMaxInternalSize"
    by (simp add: r(3) group_messages_spec id_field_def channel_field_def array_of_def
        oid_str_def oid_null_def kOIDSize_def nat_str.simps [of 0]
        BSONObjMaxInternalSize_def BSONObjMaxUserSize_def)
  then have "messages_build (group_messages (pr_messages r) []) = Inr (group_messages (pr_messages r) [])"
    by (simp add: messages_build_iff)
  then show ?thesis using r(1,2) by (auto simp: poll_run_def sv_one_def cmd_poll_args reply_build_def)
qed

lemma poll_run_answers_witness:
  "\<exists>sv' reply out. poll_run z_one cmd_poll sv_one = (sv', Inr reply)
    \<and> getField ''messages'' reply = (''messages'', BObject out) \<and> distinct (map fst out)"
proof -
  obtain sv' reply where r: "poll_run z_one cmd_poll sv_one = (sv', Inr reply)" using cmd_poll_run by blast
  have "\<forall>i \<in> set [oid_null]. oid_wf i" by (simp add: oid_wf_def oid_null_def kOIDSize_def)
  from poll_run_answers [OF r cmd_poll_args this] r show ?thesis by blast
qed


section \<open>Reserved channels\<close>

fun channel_of :: "frame \<times> bool \<Rightarrow> string option" where
  "channel_of (ChannelFrame c, _) = Some c"
| "channel_of _ = None"

lemma send_frames_prefix: "\<exists>n. zk_sent (fst (send_frames fails k fs s)) = zk_sent s @ take n fs"
proof (induction fs arbitrary: k s)
  case (Cons f fs)
  show ?case
  proof (cases "fails k")
    case True
    then show ?thesis by (auto intro: exI [of _ 0])
  next
    case False
    obtain n where "zk_sent (fst (send_frames fails (Suc k) fs (s\<lparr>zk_sent := zk_sent s @ [f]\<rparr>))) = (zk_sent s @ [f]) @ take n fs"
      using Cons [of "Suc k" "s\<lparr>zk_sent := zk_sent s @ [f]\<rparr>"] by auto
    then show ?thesis using False by (auto intro: exI [of _ "Suc n"])
  qed
qed simp

lemma publish_args_channel:
  "publish_args cmdObj = Inr (channel, message) \<Longrightarrow> \<not> sd_startsWith ''$events'' channel"
  by (auto simp: publish_args_def Let_def rbind_Inr_iff)

lemma startsWith_append: "sd_startsWith p s \<longleftrightarrow> take (length p) s = p"
  by (auto simp: sd_startsWith_def sd_substr_def dest: arg_cong [where f = length])

text \<open>
  C7.  No client can forge a data event: whatever command document it sends and whatever the messaging
  library does, a publish command leaves the socket to the config server alone, and every channel frame
  it puts on the external socket is of a channel that does not begin with the reserved name.
\<close>

theorem publish_run_cannot_forge:
  assumes "publish_run fails now cmdObj sv = (sv', r)" "ss_extSend (sv_send sv) = Some e"
  shows "ss_dbEvent (sv_send sv') = ss_dbEvent (sv_send sv)
    \<and> (\<exists>e' fs. ss_extSend (sv_send sv') = Some e' \<and> zk_sent e' = zk_sent e @ fs
        \<and> (\<forall>f \<in> set fs. \<forall>c. channel_of f = Some c \<longrightarrow> take 7 c \<noteq> ''$events''))"
proof (cases "enabled sv \<and> (\<exists>c m. publish_args cmdObj = Inr (c, m))")
  case False
  then have "sv' = sv" using assms(1) by (auto simp: publish_run_def split: if_splits sum.splits)
  then show ?thesis using assms(2) by auto
next
  case True
  then obtain c m where en: "enabled sv" and args: "publish_args cmdObj = Inr (c, m)" by blast
  have nc: "\<not> sd_startsWith ''$events'' c" by (rule publish_args_channel [OF args])
  then have "\<not> to_config c (sv_send sv)" by (auto simp: to_config_def startsWith_append)
  then have pub: "publish fails now c m (sv_send sv) =
      Done (snd (send_frames fails 0 (frames_of c m now) e),
            (sv_send sv)\<lparr>ss_extSend := Some (fst (send_frames fails 0 (frames_of c m now) e))\<rparr>)"
    using en assms(2) by (simp add: publish_def publish_ext_def Let_def case_prod_unfold)
  have sv': "sv' = sv\<lparr>sv_send := (sv_send sv)\<lparr>ss_extSend := Some (fst (send_frames fails 0 (frames_of c m now) e))\<rparr>\<rparr>"
    using assms(1) en args pub by (auto simp: publish_run_def)
  obtain n where n: "zk_sent (fst (send_frames fails 0 (frames_of c m now) e)) = zk_sent e @ take n (frames_of c m now)"
    using send_frames_prefix by blast
  have "take 7 (c @ [NUL]) \<noteq> ''$events''"
  proof (cases "7 \<le> length c")
    case True
    then show ?thesis using nc by (auto simp: startsWith_append numeral_eq_Suc)
  next
    case False
    then have "NUL \<in> set (take 7 (c @ [NUL]))" by simp
    moreover have "NUL \<notin> set ''$events''" by (simp add: NUL_def)
    ultimately show ?thesis by metis
  qed
  then have "\<forall>f \<in> set (frames_of c m now). \<forall>c'. channel_of f = Some c' \<longrightarrow> take 7 c' \<noteq> ''$events''"
    by (auto simp: frames_of_def)
  then show ?thesis using n by (auto simp: sv' dest: in_set_takeD)
qed

lemma publish_run_cannot_forge_witness:
  "ss_dbEvent (sv_send (fst (publish_run (\<lambda>k. False) 5 [(''publish'', BString ''a''), (''message'', BObject [])] sv_one)))
    = ss_dbEvent (sv_send sv_one)"
proof -
  let ?p = "publish_run (\<lambda>k. False) 5 [(''publish'', BString ''a''), (''message'', BObject [])] sv_one"
  have "?p = (fst ?p, snd ?p)" by simp
  moreover have "ss_extSend (sv_send sv_one) = Some (new_socket ZMQ_PUB)" by (simp add: sv_one_def)
  ultimately show ?thesis using publish_run_cannot_forge by blast
qed

end
