(* ===== verification/Topology.thy ===== *)
theory Topology
  imports SendSocket
begin

text \<open>
  How the processes of a cluster are wired: the sockets of \<open>src/src/mongo/db/pubsub.cpp\<close> and the
  background jobs of \<open>src/src/mongo/db/pubsub_d.cpp\<close> (mongod and config server) and
  \<open>src/src/mongo/db/pubsub_s.cpp\<close> (mongos).  A proxy thread is recorded as the pair of sockets it
  joins; which calls of the messaging library throw is a parameter.
\<close>

section \<open>Starting a process\<close>

datatype zcall =
    SendNew | SendOpt | RecvNew | RecvOpt
  | RecvBind | SendBind | RecvConnect string | SendConnect | IntBind

datatype sock_name = ExtSend | ExtRecv | IntPub

record node =
  nd_send :: send_state
  nd_recv :: "zsocket option"
  nd_int :: zsocket
  nd_proxy :: "(sock_name \<times> sock_name) option"
  nd_cleanup :: bool

definition node_init :: "bool \<Rightarrow> node" where
  "node_init configsvr = \<lparr>nd_send = ss_init configsvr, nd_recv = None, nd_int = new_socket ZMQ_PUB,
     nd_proxy = None, nd_cleanup = False\<rparr>"

definition kIntPubSubEndpoint :: string where
  "kIntPubSubEndpoint = ''inproc://pubsub''"

definition turn_off :: "node \<Rightarrow> node" where
  "turn_off n = n\<lparr>nd_send := (nd_send n)\<lparr>ss_pubsubEnabled := False, ss_publishDataEvents := False\<rparr>\<rparr>"

definition initSendSocket :: "(zcall \<Rightarrow> bool) \<Rightarrow> bool \<Rightarrow> node \<Rightarrow> zsocket option \<times> node" where
  "initSendSocket fails isMongos n =
     (if fails SendNew \<or> fails SendOpt then (None, turn_off n)
      else (Some (zk_setsockopt (ZMQ_RCVHWM 0) (new_socket (if isMongos then ZMQ_PUSH else ZMQ_PUB))), n))"

definition initRecvSocket :: "(zcall \<Rightarrow> bool) \<Rightarrow> node \<Rightarrow> zsocket option \<times> node" where
  "initRecvSocket fails n =
     (let configsvr = ss_configsvr (nd_send n) in
      if fails RecvNew \<or> (\<not> configsvr \<and> fails RecvOpt) then (None, turn_off n)
      else (Some (if configsvr then new_socket ZMQ_PULL
                  else zk_setsockopt (ZMQ_SUBSCRIBE []) (new_socket ZMQ_SUB)), n))"

definition proxy :: "bool \<Rightarrow> sock_name \<Rightarrow> sock_name \<Rightarrow> node \<Rightarrow> node" where
  "proxy fails sub pub n = (if fails then turn_off n else n\<lparr>nd_proxy := Some (sub, pub)\<rparr>)"

definition set_ext :: "zsocket option \<Rightarrow> node \<Rightarrow> node" where
  "set_ext s n = n\<lparr>nd_send := (nd_send n)\<lparr>ss_extSend := s\<rparr>\<rparr>"

definition init_sockets :: "(zcall \<Rightarrow> bool) \<Rightarrow> bool \<Rightarrow> node \<Rightarrow> node" where
  "init_sockets fails isMongos n =
     (let (s, n1) = initSendSocket fails isMongos n;
          n2 = set_ext s n1;
          (r, n3) = initRecvSocket fails n2
      in n3\<lparr>nd_recv := r\<rparr>)"

text \<open>The sockets are there when both were created, which the jobs check through \<open>pubsubEnabled\<close>.\<close>

definition on_ext :: "(zsocket \<Rightarrow> zsocket) \<Rightarrow> node \<Rightarrow> node" where
  "on_ext f n = set_ext (map_option f (ss_extSend (nd_send n))) n"

definition on_recv :: "(zsocket \<Rightarrow> zsocket) \<Rightarrow> node \<Rightarrow> node" where
  "on_recv f n = n\<lparr>nd_recv := map_option f (nd_recv n)\<rparr>"

definition on_int :: "(zsocket \<Rightarrow> zsocket) \<Rightarrow> node \<Rightarrow> node" where
  "on_int f n = n\<lparr>nd_int := f (nd_int n)\<rparr>"

text \<open>A block of calls on the library: the first that throws ends it.\<close>

fun try_calls :: "(zcall \<Rightarrow> bool) \<Rightarrow> (zcall \<times> (node \<Rightarrow> node)) list \<Rightarrow> node \<Rightarrow> node \<times> bool" where
  "try_calls fails [] n = (n, True)"
| "try_calls fails ((c, f) # cs) n = (if fails c then (n, False) else try_calls fails cs (f n))"

definition run_config_calls :: "int \<Rightarrow> (zcall \<times> (node \<Rightarrow> node)) list" where
  "run_config_calls p =
     [(RecvBind, on_recv (zk_bind (tcp_endpoint ''*'' (p + 1234)))),
      (SendBind, on_ext (zk_bind (tcp_endpoint ''*'' (p + 2345))))]"

definition run_mongod_calls :: "int \<Rightarrow> (zcall \<times> (node \<Rightarrow> node)) list" where
  "run_mongod_calls p =
     [(RecvBind, on_recv (zk_bind (tcp_endpoint ''*'' (p + 1234)))),
      (SendConnect, on_ext (zk_connect (tcp_endpoint ''localhost'' (p + 1234)))),
      (IntBind, on_int (zk_bind kIntPubSubEndpoint))]"

definition run_d :: "(zcall \<Rightarrow> bool) \<Rightarrow> bool \<Rightarrow> int \<Rightarrow> node \<Rightarrow> node" where
  "run_d fails proxy_fails p n0 =
     (let n = init_sockets fails False n0 in
      if \<not> ss_pubsubEnabled (nd_send n) then n
      else if ss_configsvr (nd_send n) then
        (case try_calls fails (run_config_calls p) n of (n', okay) \<Rightarrow>
           if \<not> okay then turn_off n' else proxy proxy_fails ExtRecv ExtSend n')
      else
        (case try_calls fails (run_mongod_calls p) n of (n', okay) \<Rightarrow>
           if \<not> okay then turn_off n'
           else (proxy proxy_fails ExtRecv IntPub n')\<lparr>nd_cleanup := True\<rparr>))"

text \<open>
  The loop of mongos over the config servers: an address that does not parse throws through the
  background job, a failing connect ends the block.
\<close>

fun connect_configs ::
  "(zcall \<Rightarrow> bool) \<Rightarrow> string list \<Rightarrow> host_port \<Rightarrow> node \<Rightarrow> (host_port \<times> node \<times> bool) result" where
  "connect_configs fails [] best n = Inr (best, n, True)"
| "connect_configs fails (c # cs) best n =
     rbind (HostAndPort c) (\<lambda>hp.
     rbind (HostAndPort2 (hp_host hp) (port hp + 2345)) (\<lambda>pub.
       let best' = (if port hp > port best then hp else best); ep = ''tcp://'' @ hp_toString True pub in
       if fails (RecvConnect ep) then Inr (best', n, False)
       else connect_configs fails cs best' (on_recv (zk_connect ep) n)))"

definition run_s :: "(zcall \<Rightarrow> bool) \<Rightarrow> bool \<Rightarrow> string list \<Rightarrow> node \<Rightarrow> node result" where
  "run_s fails proxy_fails configdbs n0 =
     (let n = init_sockets fails True n0 in
      if \<not> ss_pubsubEnabled (nd_send n) then Inr n
      else
        rbind (connect_configs fails configdbs maxConfig_start n) (\<lambda>(best, n1, okay).
          if \<not> okay then Inr (turn_off n1)
          else
            rbind (HostAndPort2 (hp_host best) (port best + 1234)) (\<lambda>pull.
              case try_calls fails
                     [(SendConnect, on_ext (zk_connect (''tcp://'' @ hp_toString True pull))),
                      (IntBind, on_int (zk_bind kIntPubSubEndpoint))] n1 of
                (n2, okay2) \<Rightarrow>
                  if \<not> okay2 then Inr (turn_off n2)
                  else Inr ((proxy proxy_fails ExtRecv IntPub n2)\<lparr>nd_cleanup := True\<rparr>))))"

definition startPubsubBackgroundJob :: "(node \<Rightarrow> node result) \<Rightarrow> node \<Rightarrow> node result" where
  "startPubsubBackgroundJob run n = (if \<not> ss_pubsubEnabled (nd_send n) then Inr n else run n)"

section \<open>Links\<close>

text \<open>
  A socket reaches another one on host \<open>h\<close> when it is connected to a port the other is bound to on all
  interfaces, and the two types talk to each other.
\<close>

fun talks :: "sock_type \<Rightarrow> sock_type \<Rightarrow> bool" where
  "talks ZMQ_PUB ZMQ_SUB = True"
| "talks ZMQ_PUSH ZMQ_PULL = True"
| "talks _ _ = False"

definition joined :: "zsocket \<Rightarrow> string \<Rightarrow> zsocket \<Rightarrow> bool" where
  "joined c h b \<longleftrightarrow> (\<exists>p. tcp_endpoint h p \<in> set (zk_connects c) \<and> tcp_endpoint ''*'' p \<in> set (zk_binds b))"

definition feeds_by_connect :: "zsocket option \<Rightarrow> string \<Rightarrow> zsocket option \<Rightarrow> bool" where
  "feeds_by_connect s h r \<longleftrightarrow> (\<exists>s' r'. s = Some s' \<and> r = Some r' \<and> talks (zk_type s') (zk_type r') \<and> joined s' h r')"

definition feeds_by_bind :: "string \<Rightarrow> zsocket option \<Rightarrow> zsocket option \<Rightarrow> bool" where
  "feeds_by_bind h s r \<longleftrightarrow> (\<exists>s' r'. s = Some s' \<and> r = Some r' \<and> talks (zk_type s') (zk_type r') \<and> joined r' h s')"

section \<open>A started process\<close>

lemmas start_defs = init_sockets_def initSendSocket_def initRecvSocket_def set_ext_def turn_off_def proxy_def
  on_ext_def on_recv_def on_int_def node_init_def ss_init_def

text \<open>
  A server that is still enabled after its start-up job has both its sockets and its proxy, so
  that a publication finds a socket to send on; the cleanup thread runs exactly on the processes that
  accept subscriptions, those that are no config server.
\<close>

theorem run_d_enabled:
  assumes "ss_pubsubEnabled (nd_send (run_d fails proxy_fails p (node_init configsvr)))"
  shows "ss_extSend (nd_send (run_d fails proxy_fails p (node_init configsvr))) \<noteq> None
    \<and> nd_recv (run_d fails proxy_fails p (node_init configsvr)) \<noteq> None
    \<and> nd_proxy (run_d fails proxy_fails p (node_init configsvr)) = Some (ExtRecv, if configsvr then ExtSend else IntPub)
    \<and> (nd_cleanup (run_d fails proxy_fails p (node_init configsvr)) \<longleftrightarrow> \<not> configsvr)"
  using assms
  by (cases configsvr)
    (auto simp: run_d_def start_defs run_config_calls_def run_mongod_calls_def Let_def split: if_splits)

lemma run_d_enabled_witness:
  "ss_extSend (nd_send (run_d (\<lambda>c. False) False 27017 (node_init True))) \<noteq> None"
  by (rule run_d_enabled [THEN conjunct1])
    (simp add: run_d_def start_defs run_config_calls_def)

abbreviation started :: "bool \<Rightarrow> int \<Rightarrow> node" where
  "started configsvr p \<equiv> run_d (\<lambda>c. False) False p (node_init configsvr)"

lemma started_config:
  "ss_extSend (nd_send (started True p)) = Some \<lparr>zk_type = ZMQ_PUB, zk_opts = [ZMQ_RCVHWM 0],
     zk_binds = [tcp_endpoint ''*'' (p + 2345)], zk_connects = [], zk_sent = []\<rparr>"
  "nd_recv (started True p) = Some \<lparr>zk_type = ZMQ_PULL, zk_opts = [],
     zk_binds = [tcp_endpoint ''*'' (p + 1234)], zk_connects = [], zk_sent = []\<rparr>"
  "nd_proxy (started True p) = Some (ExtRecv, ExtSend)"
  by (simp_all add: run_d_def start_defs run_config_calls_def zk_bind_def zk_setsockopt_def new_socket_def)

section \<open>Sharded clusters\<close>

lemma HostAndPort_port_pos: "HostAndPort s = Inr h \<Longrightarrow> 0 < port h"
  by (auto simp: HostAndPort_def hp_parse_def Let_def port_def hasPort_def DefaultDBPort_def
      split: if_splits option.splits)

lemma max_config_best:
  "max_config cs best0 = Inr best \<Longrightarrow>
   port best0 \<le> port best \<and> (best = best0 \<or> (\<exists>c \<in> set cs. HostAndPort c = Inr best))
   \<and> (\<forall>c \<in> set cs. \<exists>h. HostAndPort c = Inr h \<and> port h \<le> port best)"
proof (induction cs arbitrary: best0)
  case (Cons c cs)
  obtain h where h: "HostAndPort c = Inr h" "max_config cs (if port h > port best0 then h else best0) = Inr best"
    using Cons.prems by (auto simp: rbind_Inr_iff)
  show ?case using Cons.IH [OF h(2)] h(1) by (fastforce split: if_splits)
qed simp

lemma max_config_nonempty:
  assumes "max_config cs maxConfig_start = Inr best" "cs \<noteq> []"
  shows "\<exists>c \<in> set cs. HostAndPort c = Inr best"
proof (rule ccontr)
  assume "\<not> ?thesis"
  then have "best = maxConfig_start" using max_config_best [OF assms(1)] by blast
  moreover obtain c where "c \<in> set cs" using assms(2) by (cases cs) auto
  ultimately obtain h where "HostAndPort c = Inr h" "port h \<le> port maxConfig_start"
    using max_config_best [OF assms(1)] by blast
  then show False
    using HostAndPort_port_pos [of c h] by (simp add: maxConfig_start_def setPort_def port_def hasPort_def)
qed

definition plain_host :: "string \<Rightarrow> bool" where
  "plain_host s \<longleftrightarrow> s = [] \<or> hd s \<noteq> CHR ''#''"

lemma HostAndPort_plain: "plain_host c \<Longrightarrow> HostAndPort c = Inr h \<Longrightarrow> plain_host (hp_host h)"
proof -
  assume a: "plain_host c" "HostAndPort c = Inr h"
  have "take n s = [] \<or> hd (take n s) = hd s" for n and s :: string by (cases n; cases s) auto
  then have "hp_host h = [] \<or> hd (hp_host h) = hd (c_str c)"
    using a by (fastforce simp: HostAndPort_def hp_parse_def Let_def split: if_splits option.splits)
  moreover have "c_str c \<noteq> []" using a(2) by (auto simp: HostAndPort_def hp_parse_def)
  moreover from this have "c \<noteq> [] \<and> hd (c_str c) = hd c" by (cases c) (auto simp: c_str_def split: if_splits)
  ultimately show ?thesis using a by (auto simp: plain_host_def)
qed

lemma HostAndPort2_plain: "plain_host h \<Longrightarrow> HostAndPort2 h p = Inr \<lparr>hp_host = h, hp_port = p\<rparr>"
  by (auto simp: HostAndPort2_def plain_host_def)

lemma toString_endpoint:
  "0 \<le> p \<Longrightarrow> ''tcp://'' @ hp_toString True \<lparr>hp_host = h, hp_port = p\<rparr> = tcp_endpoint h p"
  by (simp add: hp_toString_def hp_append_def port_def hasPort_def tcp_endpoint_def)

definition config_pub :: "string \<Rightarrow> string" where
  "config_pub c = (case HostAndPort c of Inr h \<Rightarrow> tcp_endpoint (hp_host h) (port h + 2345) | Inl _ \<Rightarrow> [])"

lemma connect_configs_all:
  "max_config cs best0 = Inr best \<Longrightarrow> \<forall>c \<in> set cs. plain_host c \<Longrightarrow>
   connect_configs (\<lambda>c. False) cs best0 n = Inr (best, fold (\<lambda>c. on_recv (zk_connect (config_pub c))) cs n, True)"
proof (induction cs arbitrary: best0 n)
  case (Cons c cs)
  obtain h where h: "HostAndPort c = Inr h" "max_config cs (if port h > port best0 then h else best0) = Inr best"
    using Cons.prems(1) by (auto simp: rbind_Inr_iff)
  have pub: "''tcp://'' @ hp_toString True \<lparr>hp_host = hp_host h, hp_port = port h + 2345\<rparr> = config_pub c"
    using HostAndPort_port_pos [OF h(1)] by (simp add: toString_endpoint config_pub_def h(1) del: append.simps)
  have "plain_host (hp_host h)" using Cons.prems(2) HostAndPort_plain [OF _ h(1)] by simp
  then show ?case
    using Cons.IH [OF h(2), of "on_recv (zk_connect (config_pub c)) n"] Cons.prems(2)
    by (simp add: h(1) HostAndPort2_plain pub Let_def del: append.simps)
qed simp

lemma connects_fold:
  "nd_recv n = Some r \<Longrightarrow>
   nd_recv (fold (\<lambda>c. on_recv (zk_connect (f c))) cs n) = Some (r\<lparr>zk_connects := zk_connects r @ map f cs\<rparr>)
   \<and> nd_send (fold (\<lambda>c. on_recv (zk_connect (f c))) cs n) = nd_send n"
proof (induction cs arbitrary: n r)
  case (Cons c cs)
  then show ?case using Cons.IH [of "on_recv (zk_connect (f c)) n"] by (simp add: on_recv_def zk_connect_def)
qed simp

definition mongos_recv :: "string list \<Rightarrow> zsocket" where
  "mongos_recv cs = \<lparr>zk_type = ZMQ_SUB, zk_opts = [ZMQ_SUBSCRIBE []], zk_binds = [],
     zk_connects = map config_pub cs, zk_sent = []\<rparr>"

definition mongos_send :: "host_port \<Rightarrow> zsocket" where
  "mongos_send best = \<lparr>zk_type = ZMQ_PUSH, zk_opts = [ZMQ_RCVHWM 0], zk_binds = [],
     zk_connects = [tcp_endpoint (hp_host best) (port best + 1234)], zk_sent = []\<rparr>"

lemma best_config_plain:
  assumes "max_config cs maxConfig_start = Inr best" "cs \<noteq> []" "\<forall>c \<in> set cs. plain_host c"
  shows "HostAndPort2 (hp_host best) (port best + 1234) = Inr \<lparr>hp_host = hp_host best, hp_port = port best + 1234\<rparr>"
    and "''tcp://'' @ hp_toString True \<lparr>hp_host = hp_host best, hp_port = port best + 1234\<rparr>
      = tcp_endpoint (hp_host best) (port best + 1234)"
proof -
  obtain c where c: "c \<in> set cs" "HostAndPort c = Inr best" using max_config_nonempty [OF assms(1,2)] by blast
  show "HostAndPort2 (hp_host best) (port best + 1234) = Inr \<lparr>hp_host = hp_host best, hp_port = port best + 1234\<rparr>"
    using c assms(3) HostAndPort_plain HostAndPort2_plain by blast
  show "''tcp://'' @ hp_toString True \<lparr>hp_host = hp_host best, hp_port = port best + 1234\<rparr>
      = tcp_endpoint (hp_host best) (port best + 1234)"
    using HostAndPort_port_pos [OF c(2)] by (intro toString_endpoint) simp
qed

lemma run_s_started:
  assumes best: "max_config cs maxConfig_start = Inr best" "cs \<noteq> []" "\<forall>c \<in> set cs. plain_host c"
  shows "\<exists>m. run_s (\<lambda>c. False) False cs (node_init False) = Inr m \<and> nd_recv m = Some (mongos_recv cs)
    \<and> ss_extSend (nd_send m) = Some (mongos_send best) \<and> nd_proxy m = Some (ExtRecv, IntPub)"
proof -
  let ?n = "init_sockets (\<lambda>c. False) True (node_init False)"
  let ?r = "zk_setsockopt (ZMQ_SUBSCRIBE []) (new_socket ZMQ_SUB)"
  have n: "nd_recv ?n = Some ?r" "ss_pubsubEnabled (nd_send ?n)"
    "ss_extSend (nd_send ?n) = Some (zk_setsockopt (ZMQ_RCVHWM 0) (new_socket ZMQ_PUSH))"
    by (simp_all add: start_defs)
  show ?thesis
    using connects_fold [OF n(1), of config_pub cs] n(2,3)
    by (simp add: run_s_def connect_configs_all [OF best(1,3)] best_config_plain [OF best] Let_def
        on_ext_def on_int_def set_ext_def proxy_def mongos_recv_def mongos_send_def zk_setsockopt_def
        zk_connect_def new_socket_def del: append.simps)
qed


definition two_configs :: "string list" where
  "two_configs = [''a:27019'', ''b:27020'']"

lemma two_configs_parse:
  "max_config two_configs maxConfig_start = Inr \<lparr>hp_host = ''b'', hp_port = 27020\<rparr>"
  "\<forall>c \<in> set two_configs. plain_host c" "two_configs \<noteq> []"
proof -
  have i: "int_str 27019 = ''27019''" "int_str 27020 = ''27020''"
    by (simp_all add: int_str_def nat_str.simps digit_char.simps char_of_def bit_iff_odd)
  have a: "HostAndPort ''a:27019'' = Inr \<lparr>hp_host = ''a'', hp_port = 27019\<rparr>"
    using HostAndPort_append [of "''a''" 27019] i by (simp add: NUL_def)
  have b: "HostAndPort ''b:27020'' = Inr \<lparr>hp_host = ''b'', hp_port = 27020\<rparr>"
    using HostAndPort_append [of "''b''" 27020] i by (simp add: NUL_def)
  show "max_config two_configs maxConfig_start = Inr \<lparr>hp_host = ''b'', hp_port = 27020\<rparr>"
    by (simp add: two_configs_def a b port_def hasPort_def maxConfig_start_def setPort_def)
  show "\<forall>c \<in> set two_configs. plain_host c" "two_configs \<noteq> []" by (simp_all add: two_configs_def plain_host_def)
qed


text \<open>
  A shard that is told the same list of config servers, joined by commas, connects the socket for
  its data events to the very config server that the mongoses push to, so that its events take the same
  route; and events stay enabled.
\<close>

theorem shard_events_route:
  assumes "max_config cs maxConfig_start = Inr best" "cs \<noteq> []" "\<forall>c \<in> set cs. plain_host c \<and> CHR '','' \<notin> set c"
    and "ss_pubsubEnabled st"
  shows "\<exists>st'. initSharding (\<lambda>k. False) (joinStringDelim CHR '','' cs) st = Done st'
    \<and> feeds_by_connect (ss_dbEvent st') (hp_host best) (nd_recv (started True (port best)))
    \<and> ss_publishDataEvents st' = ss_publishDataEvents st \<and> ss_extSend st' = ss_extSend st"
proof -
  have split: "splitStringDelim CHR '','' (joinStringDelim CHR '','' cs) = cs"
    using assms(1-3) by (intro split_join_pieces) (auto simp: HostAndPort_def hp_parse_def c_str_def)
  have plain: "\<forall>c \<in> set cs. plain_host c" using assms(3) by blast
  have "initSharding (\<lambda>k. False) (joinStringDelim CHR '','' cs) st =
      Done (st\<lparr>ss_dbEvent := Some (zk_connect (tcp_endpoint (hp_host best) (port best + 1234)) (new_socket ZMQ_PUSH))\<rparr>)"
    using assms(1,4) by (simp add: initSharding_def split best_config_plain [OF assms(1,2) plain] Let_def del: append.simps)
  moreover have "feeds_by_connect (Some (zk_connect (tcp_endpoint (hp_host best) (port best + 1234)) (new_socket ZMQ_PUSH)))
      (hp_host best) (nd_recv (started True (port best)))"
    unfolding feeds_by_connect_def started_config(2) joined_def
    by (fastforce simp: zk_connect_def new_socket_def)
  ultimately show ?thesis by simp
qed

lemma shard_events_route_witness:
  "\<exists>st'. initSharding (\<lambda>k. False) ''a:27019,b:27020'' ss_shard = Done st'
    \<and> feeds_by_connect (ss_dbEvent st') ''b'' (nd_recv (started True 27020))"
proof -
  have "joinStringDelim CHR '','' two_configs = ''a:27019,b:27020''"
    by (simp add: joinStringDelim_def two_configs_def)
  moreover have "\<forall>c \<in> set two_configs. plain_host c \<and> CHR '','' \<notin> set c"
    by (simp add: two_configs_def plain_host_def)
  ultimately show ?thesis
    using shard_events_route [OF two_configs_parse(1,3), of ss_shard] by (auto simp: port_def hasPort_def)
qed

end
