(* ===== verification/DbEvents.thy ===== *)
theory DbEvents
  imports SendSocket Namespaces BsonObj
begin

text \<open>
  The writes that report themselves on the reserved channel: \<open>insertDocument\<close> and \<open>deleteDocument\<close> of
  \<open>src/src/mongo/db/catalog/collection.cpp\<close> and the end of a round of the update loop of
  \<open>src/src/mongo/db/ops/update.cpp\<close>.  The storage engine, the index catalog and the caches are
  parameters, collected in \<open>coll_env\<close>; they act on a storage state of any type.
\<close>

section \<open>Events\<close>

datatype 'a status = OK 'a | NotOK string

record 's coll_env =
  ce_ns :: nsstring
  ce_capped :: "'s \<Rightarrow> bool"
  ce_idIndex :: "'s \<Rightarrow> bool"
  ce_checkNoIndexConflicts :: "bobj \<Rightarrow> 's \<Rightarrow> unit status"
  ce_insertRecord :: "bobj \<Rightarrow> 's \<Rightarrow> nat status \<times> 's"
  ce_indexRecord :: "bobj \<Rightarrow> nat \<Rightarrow> 's \<Rightarrow> string option \<times> 's"
  ce_unindexRecord :: "bobj \<Rightarrow> nat \<Rightarrow> 's \<Rightarrow> 's"
  ce_deleteRecord :: "nat \<Rightarrow> 's \<Rightarrow> 's"
  ce_docFor :: "nat \<Rightarrow> 's \<Rightarrow> bobj"
  ce_paddingFits :: "'s \<Rightarrow> 's"
  ce_notifyOfWriteOp :: "'s \<Rightarrow> 's"
  ce_invalidateDocument :: "nat \<Rightarrow> 's \<Rightarrow> 's"

definition event_object :: "nsstring \<Rightarrow> string \<Rightarrow> bobj \<Rightarrow> bobj" where
  "event_object n typ doc =
     [(''db'', BString (ns_db n)), (''collection'', BString (ns_coll n)), (''type'', BString typ), (''doc'', BObject doc)]"

text \<open>
  The event object is built first, which asserts that it is not too large.  A failed publication is only
  logged.
\<close>

definition publish_event ::
  "(nat \<Rightarrow> bool) \<Rightarrow> u64 \<Rightarrow> nsstring \<Rightarrow> string \<Rightarrow> bobj \<Rightarrow> send_state \<Rightarrow> send_state outcome" where
  "publish_event fails now n typ doc ss =
     (if ss_pubsubEnabled ss \<and> ss_publishDataEvents ss then
        (case build_flat (event_object n typ doc) of
           Inl e \<Rightarrow> Throws e
         | Inr publishObject \<Rightarrow>
             (case publish fails now ''$events'' publishObject ss of
                Done (success, ss') \<Rightarrow> Done ss'
              | Throws e \<Rightarrow> Throws e
              | Undef u \<Rightarrow> Undef u))
      else Done ss)"

section \<open>Inserts\<close>

definition insert_record_and_index :: "'s coll_env \<Rightarrow> bobj \<Rightarrow> 's \<Rightarrow> nat status \<times> 's" where
  "insert_record_and_index ce doc st =
     (case ce_insertRecord ce doc st of
        (NotOK e, st1) \<Rightarrow> (NotOK e, st1)
      | (OK loc, st1) \<Rightarrow>
          (case ce_indexRecord ce doc loc (ce_notifyOfWriteOp ce st1) of
             (None, st2) \<Rightarrow> (OK loc, st2)
           | (Some e, st2) \<Rightarrow>
               if ce_capped ce st2 then
                 (NotOK (''unexpected index insertion failure on capped collection'' @ e
                     @ '' - collection and its index will not match''), st2)
               else (NotOK e, ce_deleteRecord ce loc st2)))"

definition insertDocument ::
  "(nat \<Rightarrow> bool) \<Rightarrow> u64 \<Rightarrow> 's coll_env \<Rightarrow> bobj \<Rightarrow> 's \<Rightarrow> send_state \<Rightarrow> (nat status \<times> 's \<times> send_state) outcome" where
  "insertDocument fails now ce doc st ss =
     (if ce_idIndex ce st \<and> eoo (getField ''_id'' doc) then
        Done (NotOK (''Collection::insertDocument got document without _id for ns:'' @ ns_text (ce_ns ce)), st, ss)
      else
        (case (if ce_capped ce st then ce_checkNoIndexConflicts ce doc st else OK ()) of
           NotOK e \<Rightarrow> Done (NotOK e, st, ss)
         | OK _ \<Rightarrow>
             (case insert_record_and_index ce doc st of
                (NotOK e, st1) \<Rightarrow> Done (NotOK e, st1, ss)
              | (OK loc, st1) \<Rightarrow>
                  obind (publish_event fails now (ce_ns ce) ''insert'' doc ss)
                    (\<lambda>ss'. Done (OK loc, ce_paddingFits ce st1, ss')))))"

text \<open>The variant for bulk index builds: \<open>blockInsert\<close> puts the document into the indexes being built.\<close>

definition insertDocument_block ::
  "(nat \<Rightarrow> bool) \<Rightarrow> u64 \<Rightarrow> 's coll_env \<Rightarrow> (bobj \<Rightarrow> nat \<Rightarrow> 's \<Rightarrow> unit status \<times> 's) \<Rightarrow> bobj \<Rightarrow> 's \<Rightarrow> send_state
    \<Rightarrow> (nat status \<times> 's \<times> send_state) outcome" where
  "insertDocument_block fails now ce blockInsert doc st ss =
     (case ce_insertRecord ce doc st of
        (NotOK e, st1) \<Rightarrow> Done (NotOK e, st1, ss)
      | (OK loc, st1) \<Rightarrow>
          (case blockInsert doc loc st1 of
             (NotOK e, st2) \<Rightarrow> Done (NotOK e, st2, ss)
           | (OK _, st2) \<Rightarrow>
               obind (publish_event fails now (ce_ns ce) ''insert'' doc ss) (\<lambda>ss'. Done (OK loc, st2, ss'))))"

section \<open>Removals and updates\<close>

definition deleted_id :: "bool \<Rightarrow> bobj \<Rightarrow> bobj option" where
  "deleted_id wanted doc =
     (let e = getField ''_id'' doc in if wanted \<and> \<not> eoo e then Some (wrap e) else None)"

definition deleteDocument ::
  "(nat \<Rightarrow> bool) \<Rightarrow> u64 \<Rightarrow> 's coll_env \<Rightarrow> nat \<Rightarrow> bool \<Rightarrow> bool \<Rightarrow> 's \<Rightarrow> send_state
    \<Rightarrow> (bobj option \<times> 's \<times> send_state) outcome" where
  "deleteDocument fails now ce loc cappedOK wantId st ss =
     (if ce_capped ce st \<and> \<not> cappedOK then Throws (UserException 10089 ''cannot remove from a capped collection'')
      else
        let doc = ce_docFor ce loc st in
        obind (publish_event fails now (ce_ns ce) ''remove'' doc ss) (\<lambda>ss'.
          Done (deleted_id wantId doc,
                ce_notifyOfWriteOp ce (ce_deleteRecord ce loc
                  (ce_unindexRecord ce doc loc (ce_invalidateDocument ce loc st))), ss')))"

text \<open>
  The old document is copied when it is read, if events are on by then; the event is sent after the
  write, whether or not the write changed anything.
\<close>

definition update_old :: "bobj \<Rightarrow> send_state \<Rightarrow> bobj" where
  "update_old oldObj ss = (if ss_pubsubEnabled ss \<and> ss_publishDataEvents ss then oldObj else [])"

definition update_object :: "bobj \<Rightarrow> bobj \<Rightarrow> bobj" where
  "update_object oldObj newObj = [(''old'', BObject oldObj), (''new'', BObject newObj)]"

definition update_event ::
  "(nat \<Rightarrow> bool) \<Rightarrow> u64 \<Rightarrow> nsstring \<Rightarrow> bobj \<Rightarrow> bobj \<Rightarrow> send_state \<Rightarrow> send_state outcome" where
  "update_event fails now n oldObjOwned newObj ss =
     (if ss_pubsubEnabled ss \<and> ss_publishDataEvents ss then
        (case build_flat (update_object oldObjOwned newObj) of
           Inl e \<Rightarrow> Throws e
         | Inr updateObject \<Rightarrow> publish_event fails now n ''update'' updateObject ss)
      else Done ss)"

section \<open>Writes and their events\<close>

abbreviation event_fits :: "nsstring \<Rightarrow> string \<Rightarrow> bobj \<Rightarrow> bool" where
  "event_fits n typ doc \<equiv> osize (event_object n typ doc) \<le> BSONObjMaxInternalSize"

lemma event_size:
  "osize (event_object n typ doc) = 47 + length (ns_db n) + length (ns_coll n) + length typ + osize doc"
  by (simp add: event_object_def)

lemma ns_parts_length: "length (ns_db n) + length (ns_coll n) \<le> length (ns_text n)"
  by (auto simp: ns_db_def ns_coll_def split: option.splits)

lemma publish_event_Done:
  assumes "ss_extSend ss \<noteq> None" "event_fits n typ doc"
  shows "\<exists>ss'. publish_event fails now n typ doc ss = Done ss'"
proof -
  obtain e where e: "ss_extSend ss = Some e" using assms by blast
  show ?thesis
  proof (cases "ss_pubsubEnabled ss")
    case True
    obtain b ss' where "publish fails now ''$events'' (event_object n typ doc) ss = Done (b, ss')"
      using publish_result [OF True e, of fails now "''$events''" "event_object n typ doc"] by blast
    then show ?thesis using build_flat_fits [OF assms(2)] by (simp add: publish_event_def)
  qed (simp add: publish_event_def)
qed

lemma publish_event_too_large:
  assumes "ss_pubsubEnabled ss" "ss_publishDataEvents ss" "\<not> event_fits n typ doc"
  shows "\<exists>c m. publish_event fails now n typ doc ss = Throws (MsgAssertion c m)"
  using build_flat_Inl [OF assms(3)] assms(1,2) by (auto simp: publish_event_def)

text \<open>An event about a document a client may store is never too large.\<close>

lemma user_event_fits:
  assumes "osize doc \<le> BSONObjMaxUserSize" "length (ns_db n) + length (ns_coll n) \<le> 16000" "length typ \<le> 6"
  shows "event_fits n typ doc"
  using assms by (simp add: event_size BSONObjMaxInternalSize_def)

lemma update_event_result:
  assumes "ss_extSend ss \<noteq> None" "ss_pubsubEnabled ss" "ss_publishDataEvents ss"
  shows "if event_fits n ''update'' (update_object old new) then \<exists>ss'. update_event fails now n old new ss = Done ss'
    else \<exists>c m. update_event fails now n old new ss = Throws (MsgAssertion c m)"
proof (cases "osize (update_object old new) \<le> BSONObjMaxInternalSize")
  case True
  then show ?thesis
    using assms publish_event_Done [of ss n "''update''" "update_object old new" fails now]
      publish_event_too_large [of ss n "''update''" "update_object old new" fails now]
    by (simp add: update_event_def build_flat_fits)
next
  case False
  then have "\<not> event_fits n ''update'' (update_object old new)" by (simp add: event_size)
  then show ?thesis using build_flat_Inl [OF False] assms(2,3) by (auto simp: update_event_def)
qed

lemma obind_Done [simp]: "obind (Done x) f = f x"
  by (simp add: obind_def)

abbreviation events_off :: "send_state \<Rightarrow> send_state" where
  "events_off ss \<equiv> ss\<lparr>ss_publishDataEvents := False\<rparr>"

lemma publish_event_off [simp]: "publish_event fails now n typ doc (events_off ss) = Done (events_off ss)"
  by (simp add: publish_event_def)

definition write_result :: "('a \<times> 's \<times> send_state) outcome \<Rightarrow> ('a \<times> 's) outcome" where
  "write_result r = map_outcome (\<lambda>(a, st, ss). (a, st)) r"

text \<open>
  C12.  What reporting events does to a write, on a server with its sending socket and whatever the
  messaging library does.  An insert or a removal of a document of at most 16 MB, in a collection with a
  name of ordinary length, returns the same status and leaves the same storage as with events switched
  off.  An update goes on after its event exactly if the event object with the old and the new document
  is at most 16 MB and 16 KB; otherwise the report of the finished write throws.
\<close>

theorem events_do_not_disturb:
  assumes "ss_extSend ss \<noteq> None" "length (ns_db (ce_ns ce)) + length (ns_coll (ce_ns ce)) \<le> 16000"
    and "osize doc \<le> BSONObjMaxUserSize" "osize (ce_docFor ce loc st) \<le> BSONObjMaxUserSize"
  shows "write_result (insertDocument fails now ce doc st ss) = write_result (insertDocument fails now ce doc st (events_off ss))
    \<and> write_result (insertDocument_block fails now ce bi doc st ss)
      = write_result (insertDocument_block fails now ce bi doc st (events_off ss))
    \<and> write_result (deleteDocument fails now ce loc cappedOK wantId st ss)
      = write_result (deleteDocument fails now ce loc cappedOK wantId st (events_off ss))
    \<and> (if ss_pubsubEnabled ss \<and> ss_publishDataEvents ss \<and> \<not> event_fits (ce_ns ce) ''update'' (update_object old new)
       then \<exists>c m. update_event fails now (ce_ns ce) old new ss = Throws (MsgAssertion c m)
       else \<exists>ss'. update_event fails now (ce_ns ce) old new ss = Done ss')"
proof -
  obtain s1 where s1: "publish_event fails now (ce_ns ce) ''insert'' doc ss = Done s1"
    using publish_event_Done [OF assms(1) user_event_fits [OF assms(3,2), of "''insert''"]] by auto
  obtain s2 where s2: "publish_event fails now (ce_ns ce) ''remove'' (ce_docFor ce loc st) ss = Done s2"
    using publish_event_Done [OF assms(1) user_event_fits [OF assms(4,2), of "''remove''"]] by auto
  have "write_result (insertDocument fails now ce doc st ss) = write_result (insertDocument fails now ce doc st (events_off ss))"
    by (auto simp: insertDocument_def s1 write_result_def split: status.splits prod.splits)
  moreover have "write_result (insertDocument_block fails now ce bi doc st ss)
      = write_result (insertDocument_block fails now ce bi doc st (events_off ss))"
    by (auto simp: insertDocument_block_def s1 write_result_def split: status.splits prod.splits)
  moreover have "write_result (deleteDocument fails now ce loc cappedOK wantId st ss)
      = write_result (deleteDocument fails now ce loc cappedOK wantId st (events_off ss))"
    by (simp add: deleteDocument_def s2 write_result_def Let_def)
  moreover have "if ss_pubsubEnabled ss \<and> ss_publishDataEvents ss \<and> \<not> event_fits (ce_ns ce) ''update'' (update_object old new)
       then \<exists>c m. update_event fails now (ce_ns ce) old new ss = Throws (MsgAssertion c m)
       else \<exists>ss'. update_event fails now (ce_ns ce) old new ss = Done ss'"
  proof (cases "ss_pubsubEnabled ss \<and> ss_publishDataEvents ss")
    case True
    then show ?thesis using update_event_result [OF assms(1), of "ce_ns ce" old new fails now] by simp
  next
    case False
    then have "update_event fails now (ce_ns ce) old new ss = Done ss" unfolding update_event_def by (rule if_not_P)
    then show ?thesis using False by auto
  qed
  ultimately show ?thesis by blast
qed

text \<open>A collection kept as the list of its documents, whose unique index allows each document once.\<close>

definition list_coll :: "bobj list coll_env" where
  "list_coll = \<lparr>ce_ns = NamespaceString ''db.c'', ce_capped = (\<lambda>st. False), ce_idIndex = (\<lambda>st. True),
     ce_checkNoIndexConflicts = (\<lambda>doc st. OK ()), ce_insertRecord = (\<lambda>doc st. (OK (length st), st @ [doc])),
     ce_indexRecord = (\<lambda>doc loc st. (if doc \<in> set (butlast st) then Some ''duplicate key'' else None, st)),
     ce_unindexRecord = (\<lambda>doc loc st. st), ce_deleteRecord = (\<lambda>loc st. take loc st @ drop (Suc loc) st),
     ce_docFor = (\<lambda>loc st. st ! loc), ce_paddingFits = (\<lambda>st. st), ce_notifyOfWriteOp = (\<lambda>st. st),
     ce_invalidateDocument = (\<lambda>loc st. st)\<rparr>"

lemma list_coll_ns: "length (ns_db (NamespaceString ''db.c'')) + length (ns_coll (NamespaceString ''db.c'')) \<le> 4"
  using ns_parts_length [of "NamespaceString ''db.c''"] by (simp add: NamespaceString_def)

lemma events_do_not_disturb_witness:
  "write_result (insertDocument (\<lambda>k. True) 5 list_coll [(''_id'', BNull)] [[]] ss_shard)
   = write_result (insertDocument (\<lambda>k. True) 5 list_coll [(''_id'', BNull)] [[]] (events_off ss_shard))"
  by (rule events_do_not_disturb [where loc = 0, THEN conjunct1])
     (use list_coll_ns in \<open>simp_all add: list_coll_def BSONObjMaxUserSize_def\<close>)

text \<open>
  C11.  With events on and a library that reports no error, an insert that succeeds sends exactly one
  event, with the database, the collection and the document inserted, and an insert that fails for any
  reason sends none; a removal sends one with the document that is removed.  If the event object would be
  larger than 16 MB and 16 KB, an insert fails as it would without events or throws, and a removal throws.
\<close>

theorem writes_report_once:
  assumes "ss_pubsubEnabled ss" "ss_publishDataEvents ss" "\<forall>k. \<not> fails k" "ss_extSend ss = Some e"
    and "between_messages e" "to_config ''$events'' ss \<Longrightarrow> between_messages (the (ss_dbEvent ss))"
  shows "(if event_fits (ce_ns ce) ''insert'' doc then
        \<exists>r st' ss' e'. insertDocument fails now ce doc st ss = Done (r, st', ss') \<and> ss_extSend ss' = Some e'
          \<and> zk_messages e' = zk_messages e @ (case r of
              OK loc \<Rightarrow> [message_frames ''$events'' (event_object (ce_ns ce) ''insert'' doc) now] | NotOK _ \<Rightarrow> [])
      else (\<exists>r st'. insertDocument fails now ce doc st ss = Done (NotOK r, st', ss))
        \<or> (\<exists>c m. insertDocument fails now ce doc st ss = Throws (MsgAssertion c m)))
    \<and> ((ce_capped ce st \<longrightarrow> cappedOK) \<longrightarrow>
        (if event_fits (ce_ns ce) ''remove'' (ce_docFor ce loc st) then
           \<exists>i st2 ss2 e2. deleteDocument fails now ce loc cappedOK wantId st ss = Done (i, st2, ss2)
             \<and> ss_extSend ss2 = Some e2 \<and> zk_messages e2 = zk_messages e
                 @ [message_frames ''$events'' (event_object (ce_ns ce) ''remove'' (ce_docFor ce loc st)) now]
         else \<exists>c m. deleteDocument fails now ce loc cappedOK wantId st ss = Throws (MsgAssertion c m)))"
proof -
  have ev: "\<exists>ss' e'. publish_event fails now (ce_ns ce) ty d ss = Done ss' \<and> ss_extSend ss' = Some e'
      \<and> zk_messages e' = zk_messages e @ [message_frames ''$events'' (event_object (ce_ns ce) ty d) now]"
    if "event_fits (ce_ns ce) ty d" for ty d
    using publish_sent [of ss fails e "''$events''" now "event_object (ce_ns ce) ty d"] assms build_flat_fits [OF that]
    by (auto simp: publish_event_def)
  have ins: "if event_fits (ce_ns ce) ''insert'' doc then
        \<exists>r st' ss' e'. insertDocument fails now ce doc st ss = Done (r, st', ss') \<and> ss_extSend ss' = Some e'
          \<and> zk_messages e' = zk_messages e @ (case r of
              OK loc \<Rightarrow> [message_frames ''$events'' (event_object (ce_ns ce) ''insert'' doc) now] | NotOK _ \<Rightarrow> [])
      else (\<exists>r st'. insertDocument fails now ce doc st ss = Done (NotOK r, st', ss))
        \<or> (\<exists>c m. insertDocument fails now ce doc st ss = Throws (MsgAssertion c m))"
  proof (cases "event_fits (ce_ns ce) ''insert'' doc")
    case True
    obtain s1 e1 where "publish_event fails now (ce_ns ce) ''insert'' doc ss = Done s1" "ss_extSend s1 = Some e1"
      "zk_messages e1 = zk_messages e @ [message_frames ''$events'' (event_object (ce_ns ce) ''insert'' doc) now]"
      using ev [OF True] by blast
    then show ?thesis unfolding if_P [OF True] using assms(4)
      by (auto simp: insertDocument_def split: status.splits prod.splits)
  next
    case False
    obtain c m where "publish_event fails now (ce_ns ce) ''insert'' doc ss = Throws (MsgAssertion c m)"
      using publish_event_too_large [OF assms(1,2) False] by blast
    then show ?thesis unfolding if_not_P [OF False]
      by (auto simp: insertDocument_def obind_def split: status.splits prod.splits)
  qed
  have del: "if event_fits (ce_ns ce) ''remove'' (ce_docFor ce loc st) then
           \<exists>i st2 ss2 e2. deleteDocument fails now ce loc cappedOK wantId st ss = Done (i, st2, ss2)
             \<and> ss_extSend ss2 = Some e2 \<and> zk_messages e2 = zk_messages e
                 @ [message_frames ''$events'' (event_object (ce_ns ce) ''remove'' (ce_docFor ce loc st)) now]
         else \<exists>c m. deleteDocument fails now ce loc cappedOK wantId st ss = Throws (MsgAssertion c m)"
    if c: "ce_capped ce st \<longrightarrow> cappedOK"
  proof (cases "event_fits (ce_ns ce) ''remove'' (ce_docFor ce loc st)")
    case True
    obtain s2 e2 where "publish_event fails now (ce_ns ce) ''remove'' (ce_docFor ce loc st) ss = Done s2"
      "ss_extSend s2 = Some e2"
      "zk_messages e2 = zk_messages e @ [message_frames ''$events'' (event_object (ce_ns ce) ''remove'' (ce_docFor ce loc st)) now]"
      using ev [OF True] by blast
    then show ?thesis unfolding if_P [OF True] using c by (auto simp: deleteDocument_def Let_def)
  next
    case False
    obtain c m where "publish_event fails now (ce_ns ce) ''remove'' (ce_docFor ce loc st) ss = Throws (MsgAssertion c m)"
      using publish_event_too_large [OF assms(1,2) False] by blast
    then show ?thesis unfolding if_not_P [OF False] using c by (auto simp: deleteDocument_def obind_def Let_def)
  qed
  from ins del show ?thesis by blast
qed

lemma writes_report_once_witness:
  "\<exists>r st' ss' e'. insertDocument (\<lambda>k. False) 5 list_coll [(''_id'', BNull)] [] ss_shard = Done (r, st', ss')
    \<and> ss_extSend ss' = Some e'
    \<and> zk_messages e' = [message_frames ''$events'' (event_object (NamespaceString ''db.c'') ''insert'' [(''_id'', BNull)]) 5]"
proof -
  have on: "ss_publishDataEvents ss_shard" by (simp add: ss_shard_def)
  have fits: "event_fits (NamespaceString ''db.c'') ''insert'' [(''_id'', BNull)]"
    using list_coll_ns by (simp add: event_size BSONObjMaxInternalSize_def BSONObjMaxUserSize_def)
  have r: "r = OK 0"
    if "insertDocument (\<lambda>k. False) 5 list_coll [(''_id'', BNull)] [] ss_shard = Done (r, st', ss')" for r st' ss'
  proof -
    obtain s1 where "publish_event (\<lambda>k. False) 5 (NamespaceString ''db.c'') ''insert'' [(''_id'', BNull)] ss_shard = Done s1"
      using publish_event_Done [OF _ fits, of ss_shard "\<lambda>k. False" 5] by auto
    then show ?thesis
      using that by (simp add: insertDocument_def insert_record_and_index_def list_coll_def fieldName_def eoo_def etype_def)
  qed
  have ns: "ce_ns list_coll = NamespaceString ''db.c''" by (simp add: list_coll_def)
  show ?thesis
    using writes_report_once [where ss = ss_shard and fails = "\<lambda>k. False" and e = "new_socket ZMQ_PUB" and now = 5
        and ce = list_coll and doc = "[(''_id'', BNull)]" and st = "[]", THEN conjunct1] r
    by (fastforce simp: on ns fits)
qed

end
