(* ===== verification/BsonBytes.thy ===== *)
theory BsonBytes
  imports Bson
begin

text \<open>
  The byte layout of BSON documents, which \<open>src/src/mongo/bson/bsonobjbuilder.h\<close> writes and
  \<open>src/src/mongo/bson/bsonelement.h\<close>, \<open>bson-inl.h\<close> and \<open>bson_validate.cpp\<close> read: little-endian integers,
  the codes of the types and \<open>enc_obj\<close>, the layout of a document.  The memory representation of a double is a
  parameter (\<open>dbits\<close>).  The builders, validation and reading are related to this layout in their own theories.
\<close>

section \<open>Little-endian integers\<close>

fun le_enc :: "nat \<Rightarrow> nat \<Rightarrow> string" where
  "le_enc 0 x = []"
| "le_enc (Suc n) x = char_of (x mod 256) # le_enc n (x div 256)"

fun le_dec :: "string \<Rightarrow> nat" where
  "le_dec [] = 0"
| "le_dec (c # cs) = of_char c + 256 * le_dec cs"

lemma length_le_enc [simp]: "length (le_enc n x) = n"
  by (induction n arbitrary: x) auto

lemma le_enc_Nil [simp]: "le_enc n x = [] \<longleftrightarrow> n = 0"
  by (metis length_0_conv length_le_enc)

lemma le_dec_enc: "le_dec (le_enc n x) = x mod 256 ^ n"
proof (induction n arbitrary: x)
  case (Suc n)
  have "x mod 256 + 256 * (x div 256 mod 256 ^ n) = x mod (256 * 256 ^ n)"
    by (simp add: mod_mult2_eq)
  then show ?case using Suc by (simp add: of_char_of)
qed simp

lemma le32_enc [simp]: "le32 n = le_enc 4 n"
proof -
  have four: "(4 :: nat) = Suc (Suc (Suc (Suc 0)))" by simp
  have "n div 256 div 256 = n div 65536" "n div 256 div 256 div 256 = n div 16777216"
    by (simp_all add: div_mult2_eq [symmetric])
  then show ?thesis unfolding le32_def four le_enc.simps by (simp only: list.map)
qed

definition rd32 :: "string \<Rightarrow> i32" where
  "rd32 s = word_of_nat (le_dec (take 4 s))"

definition rd64 :: "string \<Rightarrow> i64" where
  "rd64 s = word_of_nat (le_dec (take 8 s))"

lemma rd32_le32 [simp]: "rd32 (le_enc 4 (unat (w :: i32)) @ s) = w"
  using unsigned_less [of w, where 'a = nat] by (simp add: rd32_def le_dec_enc)

lemma rd64_le64 [simp]: "rd64 (le_enc 8 (unat (w :: i64)) @ s) = w"
  using unsigned_less [of w, where 'a = nat] by (simp add: rd64_def le_dec_enc)

lemma rd32_of_nat [simp]: "rd32 (le_enc 4 n @ s) = word_of_nat n"
  by (simp add: rd32_def le_dec_enc word_of_nat_eq_iff take_bit_eq_mod)

section \<open>Layout\<close>

definition type_byte :: "btype \<Rightarrow> char" where
  "type_byte t = char_of (nat (btype_code t mod 256))"

definition all_btypes :: "btype list" where
  "all_btypes = [MinKey, EOO, NumberDouble, String, Object, Array, BinData, Undefined, jstOID, Bool, Date,
     jstNULL, RegEx, DBRef, Code, Symbol, CodeWScope, NumberInt, Timestamp, NumberLong, MaxKey]"

definition type_of_byte :: "char \<Rightarrow> btype option" where
  "type_of_byte c = find (\<lambda>t. type_byte t = c) all_btypes"

definition enc_str :: "string \<Rightarrow> string" where
  "enc_str s = le32 (length s + 1) @ s @ [NUL]"

fun enc_val :: "(dbl \<Rightarrow> u64) \<Rightarrow> bval \<Rightarrow> string" and enc_fields :: "(dbl \<Rightarrow> u64) \<Rightarrow> bobj \<Rightarrow> string" where
  "enc_val dbits (BNumberDouble d) = le_enc 8 (unat (dbits d))"
| "enc_val dbits (BString s) = enc_str s"
| "enc_val dbits (BObject fs) = le32 (osize fs) @ enc_fields dbits fs @ [NUL]"
| "enc_val dbits (BArray fs) = le32 (osize fs) @ enc_fields dbits fs @ [NUL]"
| "enc_val dbits (BBinData t d) = le32 (length d) @ t # d"
| "enc_val dbits (BOid x) = oid_data x"
| "enc_val dbits (BBool b) = [if b then CHR 0x01 else NUL]"
| "enc_val dbits (BDate w) = le_enc 8 (unat w)"
| "enc_val dbits (BRegEx s t) = s @ NUL # t @ [NUL]"
| "enc_val dbits (BDBRef s x) = enc_str s @ oid_data x"
| "enc_val dbits (BCode s) = enc_str s"
| "enc_val dbits (BSymbol s) = enc_str s"
| "enc_val dbits (BCodeWScope s fs) =
     le32 (4 + (4 + length s + 1) + osize fs) @ enc_str s @ le32 (osize fs) @ enc_fields dbits fs @ [NUL]"
| "enc_val dbits (BNumberInt w) = le32 (unat w)"
| "enc_val dbits (BTimestamp w) = le_enc 8 (unat w)"
| "enc_val dbits (BNumberLong w) = le_enc 8 (unat w)"
| "enc_val dbits _ = []"
| "enc_fields dbits [] = []"
| "enc_fields dbits (e # es) = type_byte (vtype (snd e)) # fst e @ NUL # enc_val dbits (snd e) @ enc_fields dbits es"

definition enc_obj :: "(dbl \<Rightarrow> u64) \<Rightarrow> bobj \<Rightarrow> string" where
  "enc_obj dbits fs = le32 (osize fs) @ enc_fields dbits fs @ [NUL]"

text \<open>
  Documents that have a layout: no end marker among the fields, names and regular expressions without
  NUL, 12 bytes in every object id.
\<close>

fun lay_val :: "bval \<Rightarrow> bool" and lay_obj :: "bobj \<Rightarrow> bool" where
  "lay_val BEOO = False"
| "lay_val (BObject fs) = lay_obj fs"
| "lay_val (BArray fs) = lay_obj fs"
| "lay_val (BCodeWScope s fs) = lay_obj fs"
| "lay_val (BRegEx s t) = (NUL \<notin> set s \<and> NUL \<notin> set t)"
| "lay_val (BOid x) = oid_wf x"
| "lay_val (BDBRef s x) = oid_wf x"
| "lay_val _ = True"
| "lay_obj [] = True"
| "lay_obj (e # es) = (NUL \<notin> set (fst e) \<and> lay_val (snd e) \<and> lay_obj es)"

lemma length_enc_str [simp]: "length (enc_str s) = length s + 1 + 4"
  by (simp add: enc_str_def)

lemma length_enc:
  "lay_val v \<Longrightarrow> length (enc_val dbits v) = vsize v"
  "lay_obj fs \<Longrightarrow> length (enc_fields dbits fs) + 5 = osize fs"
  by (induction v and fs rule: enc_val_enc_fields.induct) (auto simp: oid_wf_def kOIDSize_def)

lemma length_enc_val [simp]: "lay_val v \<Longrightarrow> length (enc_val dbits v) = vsize v"
  by (rule length_enc)

lemma length_enc_fields: "lay_obj fs \<Longrightarrow> length (enc_fields dbits fs) = osize fs - 5"
  using length_enc(2) [of fs dbits] by simp

lemma of_char_type_byte: "of_char (type_byte t) = nat (btype_code t mod 256)"
  by (cases t) (simp_all add: type_byte_def)

lemma type_byte_eq: "type_byte s = type_byte t \<longleftrightarrow> nat (btype_code s mod 256) = nat (btype_code t mod 256)"
  by (metis of_char_type_byte of_char_eq_iff)

lemma type_of_byte [simp]: "type_of_byte (type_byte t) = Some t"
  by (cases t) (simp_all add: type_of_byte_def all_btypes_def type_byte_eq)

lemma type_byte_NUL [simp]: "type_byte t = NUL \<longleftrightarrow> t = EOO"
proof -
  have "NUL = type_byte EOO" by (simp add: type_byte_def char_of_def NUL_def)
  show ?thesis unfolding \<open>NUL = type_byte EOO\<close> by (cases t) (simp_all add: type_byte_eq)
qed

definition enc_elem :: "(dbl \<Rightarrow> u64) \<Rightarrow> belem \<Rightarrow> string" where
  "enc_elem dbits e = type_byte (vtype (snd e)) # fst e @ NUL # enc_val dbits (snd e)"

lemma enc_fields_concat: "enc_fields dbits fs = concat (map (enc_elem dbits) fs)"
  by (induction fs) (simp_all add: enc_elem_def)

end
