(* ===== verification/BsonBuilder.thy ===== *)
theory BsonBuilder
  imports BsonBytes Strings BsonObj
begin

text \<open>
  Writing documents: \<open>_BufBuilder\<close> of \<open>src/src/mongo/bson/util/builder.h\<close>, \<open>BSONObjBuilder\<close> and
  \<open>BSONArrayBuilder\<close> of \<open>src/src/mongo/bson/bsonobjbuilder.h\<close>.  A write is \<open>Ok\<close>, fails an assertion,
  never returns (\<open>Stuck\<close>), or leaves the range of \<open>int\<close> (\<open>Overrun\<close>), after which the code writes past its
  allocation.  Allocation succeeds; the value stream of the \<open><<\<close> operators and the size tracker are not
  modelled.
\<close>

section \<open>The growing buffer\<close>

datatype 'a bwrite = Ok 'a | Asserted merror | Stuck | Overrun

fun bthen :: "'a bwrite \<Rightarrow> ('a \<Rightarrow> 'b bwrite) \<Rightarrow> 'b bwrite" where
  "bthen (Ok x) f = f x"
| "bthen (Asserted e) f = Asserted e"
| "bthen Stuck f = Stuck"
| "bthen Overrun f = Overrun"

lemma bthen_assoc: "bthen (bthen r f) g = bthen r (\<lambda>x. bthen (f x) g)"
  by (cases r) auto

definition BufferMaxSize :: i32 where
  "BufferMaxSize = 64 * 1024 * 1024"

partial_function (option) grow_loop :: "i32 \<Rightarrow> i32 \<Rightarrow> i32 option" where
  "grow_loop newLen a = (if a <s newLen then grow_loop newLen (a * 2) else Some a)"

definition grow_reallocate :: "i32 \<Rightarrow> i32 bwrite" where
  "grow_reallocate newLen =
     (case grow_loop newLen 64 of
        None \<Rightarrow> Stuck
      | Some a \<Rightarrow>
          if BufferMaxSize <s a
          then Asserted (MsgAssertion 13548 (''BufBuilder attempted to grow() to '' @ int_str (sint a)
                 @ '' bytes, past the 64MB limit.''))
          else Ok a)"

text \<open>\<open>bb_data\<close> is the first \<open>l\<close> bytes of the allocation.\<close>

record buf_builder =
  bb_data :: string
  bb_size :: i32

definition bb_new :: "i32 \<Rightarrow> buf_builder" where
  "bb_new initsize = \<lparr>bb_data = [], bb_size = initsize\<rparr>"

definition bb_len :: "buf_builder \<Rightarrow> nat" where
  "bb_len b = length (bb_data b)"

definition bb_reset :: "buf_builder \<Rightarrow> buf_builder" where
  "bb_reset b = b\<lparr>bb_data := []\<rparr>"

definition bb_reset_to :: "i32 \<Rightarrow> buf_builder \<Rightarrow> buf_builder" where
  "bb_reset_to maxSize b =
     \<lparr>bb_data = [], bb_size = (if maxSize \<noteq> 0 \<and> maxSize <s bb_size b then maxSize else bb_size b)\<rparr>"

definition bb_setlen :: "nat \<Rightarrow> buf_builder \<Rightarrow> buf_builder" where
  "bb_setlen newLen b = b\<lparr>bb_data := take newLen (bb_data b)\<rparr>"

text \<open>\<open>grow(length s)\<close> and the copy of \<open>s\<close> into the room it made.\<close>

definition bb_append :: "string \<Rightarrow> buf_builder \<Rightarrow> buf_builder bwrite" where
  "bb_append s b =
     (let newLen = bb_len b + length s
      in if newLen \<ge> 2 ^ 31 then Overrun
         else if bb_size b <s word_of_nat newLen
         then bthen (grow_reallocate (word_of_nat newLen)) (\<lambda>a. Ok \<lparr>bb_data = bb_data b @ s, bb_size = a\<rparr>)
         else Ok (b\<lparr>bb_data := bb_data b @ s\<rparr>))"

definition appendChar :: "char \<Rightarrow> buf_builder \<Rightarrow> buf_builder bwrite" where
  "appendChar j = bb_append [j]"

definition appendInt :: "i32 \<Rightarrow> buf_builder \<Rightarrow> buf_builder bwrite" where
  "appendInt j = bb_append (le_enc 4 (unat j))"

definition appendLongLong :: "i64 \<Rightarrow> buf_builder \<Rightarrow> buf_builder bwrite" where
  "appendLongLong j = bb_append (le_enc 8 (unat j))"

definition appendDouble :: "(dbl \<Rightarrow> u64) \<Rightarrow> dbl \<Rightarrow> buf_builder \<Rightarrow> buf_builder bwrite" where
  "appendDouble dbits j = bb_append (le_enc 8 (unat (dbits j)))"

definition appendBuf :: "string \<Rightarrow> buf_builder \<Rightarrow> buf_builder bwrite" where
  "appendBuf s = bb_append s"

definition appendStr :: "string \<Rightarrow> bool \<Rightarrow> buf_builder \<Rightarrow> buf_builder bwrite" where
  "appendStr s includeEndingNull = bb_append (if includeEndingNull then s @ [NUL] else s)"

section \<open>Object builder\<close>

record obj_builder =
  ob_b :: buf_builder
  ob_offset :: nat
  ob_doneCalled :: bool

type_synonym ob_write = "obj_builder \<Rightarrow> obj_builder bwrite"

definition on_b :: "(buf_builder \<Rightarrow> buf_builder bwrite) \<Rightarrow> ob_write" where
  "on_b f ob = bthen (f (ob_b ob)) (\<lambda>b. Ok (ob\<lparr>ob_b := b\<rparr>))"

definition andThen :: "ob_write \<Rightarrow> ob_write \<Rightarrow> ob_write" where
  "andThen f g ob = bthen (f ob) g"

definition BSONObjBuilder_new :: "i32 \<Rightarrow> obj_builder bwrite" where
  "BSONObjBuilder_new initsize =
     bthen (appendInt 0 (bb_new (initsize + 4))) (\<lambda>b.
     bthen (bb_append (replicate 4 NUL) b) (\<lambda>b'. Ok \<lparr>ob_b = b', ob_offset = 4, ob_doneCalled = False\<rparr>))"

definition BSONObjBuilder_on :: "buf_builder \<Rightarrow> obj_builder bwrite" where
  "BSONObjBuilder_on baseBuilder =
     bthen (bb_append (replicate 4 NUL) baseBuilder)
       (\<lambda>b'. Ok \<lparr>ob_b = b', ob_offset = bb_len baseBuilder, ob_doneCalled = False\<rparr>)"

text \<open>Every append writes the type byte and the name first.\<close>

definition header :: "btype \<Rightarrow> string \<Rightarrow> ob_write" where
  "header t nm = andThen (on_b (appendChar (type_byte t))) (on_b (appendStr nm True))"

definition strWithSize :: "string \<Rightarrow> ob_write" where
  "strWithSize s = andThen (on_b (appendInt (word_of_nat (length s) + 1))) (on_b (appendStr s True))"

definition append_element :: "(dbl \<Rightarrow> u64) \<Rightarrow> belem \<Rightarrow> ob_write" where
  "append_element dbits e ob =
     (if eoo e then Asserted (VerifyFailed ''!e.eoo()'') else on_b (appendBuf (enc_fields dbits [e])) ob)"

definition appendAs :: "(dbl \<Rightarrow> u64) \<Rightarrow> belem \<Rightarrow> string \<Rightarrow> ob_write" where
  "appendAs dbits e nm ob =
     (if eoo e then Asserted (VerifyFailed ''!e.eoo()'')
      else andThen (header (etype e) nm) (on_b (appendBuf (enc_val dbits (snd e)))) ob)"

definition append_object :: "(dbl \<Rightarrow> u64) \<Rightarrow> string \<Rightarrow> bobj \<Rightarrow> ob_write" where
  "append_object dbits nm subObj = andThen (header Object nm) (on_b (appendBuf (enc_obj dbits subObj)))"

definition subobjStart :: "string \<Rightarrow> ob_write" where
  "subobjStart nm = header Object nm"

definition appendArray :: "(dbl \<Rightarrow> u64) \<Rightarrow> string \<Rightarrow> bobj \<Rightarrow> ob_write" where
  "appendArray dbits nm subObj = andThen (header Array nm) (on_b (appendBuf (enc_obj dbits subObj)))"

definition subarrayStart :: "string \<Rightarrow> ob_write" where
  "subarrayStart nm = header Array nm"

definition appendBool :: "string \<Rightarrow> bool \<Rightarrow> ob_write" where
  "appendBool nm val =
     andThen (header Bool nm) (on_b (appendChar (if val then CHR 0x01 else NUL)))"

definition append_int :: "string \<Rightarrow> i32 \<Rightarrow> ob_write" where
  "append_int nm n = andThen (header NumberInt nm) (on_b (appendInt n))"

definition append_long :: "string \<Rightarrow> i64 \<Rightarrow> ob_write" where
  "append_long nm n = andThen (header NumberLong nm) (on_b (appendLongLong n))"

definition append_double :: "(dbl \<Rightarrow> u64) \<Rightarrow> string \<Rightarrow> dbl \<Rightarrow> ob_write" where
  "append_double dbits nm n = andThen (header NumberDouble nm) (on_b (appendDouble dbits n))"

definition appendIntOrLL :: "string \<Rightarrow> i64 \<Rightarrow> ob_write" where
  "appendIntOrLL nm n =
     (let maxInt = 1073741823 :: int
      in if - maxInt < sint n \<and> sint n < maxInt then append_int nm (ucast n) else append_long nm n)"

definition appendNumber_size :: "string \<Rightarrow> u64 \<Rightarrow> ob_write" where
  "appendNumber_size nm n =
     (if uint n < 2 ^ 30 then append_int nm (ucast n) else append_long nm n)"

definition appendNumber_long :: "(dbl \<Rightarrow> u64) \<Rightarrow> string \<Rightarrow> i64 \<Rightarrow> ob_write" where
  "appendNumber_long dbits nm llNumber =
     (let n = sint llNumber
      in if - (2 ^ 30) < n \<and> n < 2 ^ 30 then append_int nm (ucast llNumber)
         else if - (2 ^ 40) < n \<and> n < 2 ^ 40 then append_double dbits nm (DFin (of_int n))
         else append_long nm llNumber)"

definition append_oid :: "string \<Rightarrow> oid \<Rightarrow> ob_write" where
  "append_oid nm x = andThen (header jstOID nm) (on_b (appendBuf (oid_data x)))"

definition appendTimeT :: "string \<Rightarrow> u64 \<Rightarrow> ob_write" where
  "appendTimeT nm dt = andThen (header Date nm) (on_b (appendLongLong (dt * 1000)))"

definition appendDate :: "string \<Rightarrow> i64 \<Rightarrow> ob_write" where
  "appendDate nm dt = andThen (header Date nm) (on_b (appendLongLong dt))"

definition appendRegex :: "string \<Rightarrow> string \<Rightarrow> string \<Rightarrow> ob_write" where
  "appendRegex nm regex options =
     andThen (header RegEx nm) (andThen (on_b (appendStr regex True)) (on_b (appendStr options True)))"

definition appendCode :: "string \<Rightarrow> string \<Rightarrow> ob_write" where
  "appendCode nm code = andThen (header Code nm) (strWithSize code)"

definition append_string :: "string \<Rightarrow> string \<Rightarrow> ob_write" where
  "append_string nm str = andThen (header String nm) (strWithSize str)"

definition appendSymbol :: "string \<Rightarrow> string \<Rightarrow> ob_write" where
  "appendSymbol nm symbol = andThen (header Symbol nm) (strWithSize symbol)"

definition appendNull :: "string \<Rightarrow> ob_write" where
  "appendNull nm = header jstNULL nm"

definition appendMinKey :: "string \<Rightarrow> ob_write" where
  "appendMinKey nm = header MinKey nm"

definition appendMaxKey :: "string \<Rightarrow> ob_write" where
  "appendMaxKey nm = header MaxKey nm"

definition appendTimestamp :: "string \<Rightarrow> u64 \<Rightarrow> ob_write" where
  "appendTimestamp nm val = andThen (header Timestamp nm) (on_b (appendLongLong val))"

definition appendDBRef :: "string \<Rightarrow> string \<Rightarrow> oid \<Rightarrow> ob_write" where
  "appendDBRef nm ns x =
     andThen (header DBRef nm) (andThen (strWithSize ns) (on_b (appendBuf (oid_data x))))"

definition appendBinData :: "string \<Rightarrow> char \<Rightarrow> string \<Rightarrow> ob_write" where
  "appendBinData nm t d =
     andThen (header BinData nm) (andThen (on_b (appendInt (word_of_nat (length d))))
       (andThen (on_b (appendChar t)) (on_b (appendBuf d))))"

definition appendCodeWScope :: "(dbl \<Rightarrow> u64) \<Rightarrow> string \<Rightarrow> string \<Rightarrow> bobj \<Rightarrow> ob_write" where
  "appendCodeWScope dbits nm code scope =
     andThen (header CodeWScope nm)
       (andThen (on_b (appendInt (word_of_nat (4 + 4 + length code + 1 + osize scope))))
       (andThen (strWithSize code) (on_b (appendBuf (enc_obj dbits scope)))))"

definition appendUndefined :: "string \<Rightarrow> ob_write" where
  "appendUndefined nm = header Undefined nm"

definition appendElements :: "(dbl \<Rightarrow> u64) \<Rightarrow> bobj \<Rightarrow> ob_write" where
  "appendElements dbits x ob =
     (if x = [] then Ok ob else on_b (appendBuf (take (osize x - 5) (drop 4 (enc_obj dbits x)))) ob)"

text \<open>
  \<open>_done\<close> appends the end marker and writes the size into the four bytes left free at the start.  The
  result is the bytes of the document, from \<open>_offset\<close> on.
\<close>

definition ob_done :: "obj_builder \<Rightarrow> (string \<times> obj_builder) bwrite" where
  "ob_done ob =
     (if ob_doneCalled ob then Ok (drop (ob_offset ob) (bb_data (ob_b ob)), ob)
      else bthen (on_b (appendChar NUL) (ob\<lparr>ob_doneCalled := True\<rparr>)) (\<lambda>ob1.
        let d = bb_data (ob_b ob1); off = ob_offset ob1; sz = length d - off;
            d' = take off d @ le32 sz @ drop (off + 4) d
        in Ok (drop off d', ob1\<lparr>ob_b := (ob_b ob1)\<lparr>bb_data := d'\<rparr>\<rparr>)))"

text \<open>
  \<open>doneFast\<close> ends there.  \<open>done\<close>, and \<open>obj\<close> for a builder with its own buffer, make a \<open>BSONObj\<close> of the bytes,
  which asserts that the size they declare is not too large.
\<close>

definition as_BSONObj :: "string \<times> obj_builder \<Rightarrow> (string \<times> obj_builder) bwrite" where
  "as_BSONObj r = (let os = nat (sint (rd32 (fst r))) in if isValid os then Ok r else Asserted (assertInvalid os))"

definition ob_obj :: "obj_builder \<Rightarrow> (string \<times> obj_builder) bwrite" where
  "ob_obj ob = bthen (ob_done ob) as_BSONObj"

definition asTempObj :: "obj_builder \<Rightarrow> (string \<times> obj_builder) bwrite" where
  "asTempObj ob =
     bthen (bthen (ob_done ob) as_BSONObj) (\<lambda>(temp, ob1).
       Ok (temp, ob1\<lparr>ob_b := bb_setlen (bb_len (ob_b ob1) - 1) (ob_b ob1), ob_doneCalled := False\<rparr>))"

section \<open>Array builder\<close>

record arr_builder =
  ab_i :: i32
  ab_b :: obj_builder

definition numStr :: "i32 \<Rightarrow> string" where
  "numStr i = int_str (sint i)"

text \<open>One append under the next number: \<open>num()\<close> is taken before the element is written.\<close>

definition ab_with_num :: "(string \<Rightarrow> ob_write) \<Rightarrow> arr_builder \<Rightarrow> arr_builder bwrite" where
  "ab_with_num f ab = bthen (f (numStr (ab_i ab)) (ab_b ab)) (\<lambda>ob. Ok \<lparr>ab_i = ab_i ab + 1, ab_b = ob\<rparr>)"

definition ab_append :: "(dbl \<Rightarrow> u64) \<Rightarrow> belem \<Rightarrow> arr_builder \<Rightarrow> arr_builder bwrite" where
  "ab_append dbits e = ab_with_num (appendAs dbits e)"

definition ab_appendNull :: "arr_builder \<Rightarrow> arr_builder bwrite" where
  "ab_appendNull = ab_with_num appendNull"

definition ab_appendUndefined :: "arr_builder \<Rightarrow> arr_builder bwrite" where
  "ab_appendUndefined = ab_with_num appendUndefined"

definition maxElems :: i32 where
  "maxElems = 1500000"

partial_function (option) fill_loop :: "i32 \<Rightarrow> arr_builder \<Rightarrow> arr_builder bwrite option" where
  "fill_loop upTo ab =
     (if ab_i ab <s upTo
      then (case ab_appendNull ab of Ok ab' \<Rightarrow> fill_loop upTo ab' | r \<Rightarrow> Some r)
      else Some (Ok ab))"

definition fill_to :: "i32 \<Rightarrow> arr_builder \<Rightarrow> arr_builder bwrite" where
  "fill_to upTo ab =
     (if maxElems <s upTo
      then Asserted (UserException 15891 ''can't backfill array to larger than 1,500,000 elements'')
      else (case fill_loop upTo ab of None \<Rightarrow> Stuck | Some r \<Rightarrow> r))"

definition long_limits :: num_limits where
  "long_limits = \<lparr>nl_signed = True, nl_min = - (2 ^ 63), nl_max = 2 ^ 63 - 1\<rparr>"

definition fill_name :: "string \<Rightarrow> arr_builder \<Rightarrow> arr_builder bwrite" where
  "fill_name name ab =
     (case parseNumberFromStringWithBase long_limits name 10 of
        Inl _ \<Rightarrow> Asserted (UserException 13048 (''can't append to array using string field name: '' @ name))
      | Inr n \<Rightarrow> fill_to (word_of_int n) ab)"

definition ab_appendAs :: "(dbl \<Rightarrow> u64) \<Rightarrow> belem \<Rightarrow> string \<Rightarrow> arr_builder \<Rightarrow> arr_builder bwrite" where
  "ab_appendAs dbits e name ab = bthen (fill_name name ab) (ab_append dbits e)"

section \<open>Growth\<close>

lemma sless_nat: "m < 2 ^ 31 \<Longrightarrow> n < 2 ^ 31 \<Longrightarrow> (word_of_nat m :: i32) <s word_of_nat n \<longleftrightarrow> m < n"
  by (simp add: word_sless_alt signed_of_nat signed_take_bit_int_eq_self)

lemma grow_loop_returns:
  assumes "k \<le> 30" "n \<le> 2 ^ 30"
  shows "\<exists>m. k \<le> m \<and> n \<le> 2 ^ m \<and> (m = k \<or> 2 ^ (m - 1) < n) \<and> m \<le> 30
    \<and> grow_loop (word_of_nat n) (word_of_nat (2 ^ k)) = Some (word_of_nat (2 ^ m))"
  using assms(1)
proof (induction "30 - k" arbitrary: k)
  case 0
  then have "k = 30" by simp
  then show ?case
    using assms(2) sless_nat [of "2 ^ 30" n] by (intro exI [of _ 30]) (subst grow_loop.simps, simp)
next
  case (Suc x)
  have k: "(2 :: nat) ^ k < 2 ^ 31" by (rule power_strict_increasing) (use Suc(3) in simp_all)
  have cond: "(word_of_nat (2 ^ k) :: i32) <s word_of_nat n \<longleftrightarrow> 2 ^ k < n" using sless_nat [OF k, of n] assms(2) by simp
  show ?case
  proof (cases "2 ^ k < n")
    case True
    obtain m where m: "Suc k \<le> m" "n \<le> 2 ^ m" "m = Suc k \<or> 2 ^ (m - 1) < n" "m \<le> 30"
      "grow_loop (word_of_nat n) (word_of_nat (2 ^ Suc k)) = Some (word_of_nat (2 ^ m))"
    proof -
      have "x = 30 - Suc k" "Suc k \<le> 30" using Suc(2,3) by simp_all
      from Suc(1) [OF this] show ?thesis using that by blast
    qed
    have "grow_loop (word_of_nat n) (word_of_nat (2 ^ k)) = grow_loop (word_of_nat n) (word_of_nat (2 ^ Suc k))"
      using True cond by (subst grow_loop.simps) (simp add: mult.commute)
    then show ?thesis using m True by (intro exI [of _ m]) auto
  next
    case False
    then show ?thesis using cond Suc(3) by (intro exI [of _ k]) (subst grow_loop.simps, simp)
  qed
qed

lemma grow_loop_zero: "0 <s newLen \<Longrightarrow> grow_loop newLen 0 = None"
proof (rule ccontr)
  assume pos: "0 <s newLen" and "grow_loop newLen 0 \<noteq> None"
  then obtain y where y: "grow_loop newLen 0 = Some y" by blast
  have "\<not> (n = newLen \<and> a = 0)" if "grow_loop n a = Some y" for n a y
  proof (rule grow_loop.raw_induct [of "\<lambda>n a y. \<not> (n = newLen \<and> a = 0)", OF _ that])
    fix f n a y
    assume IH: "\<And>n a y. f n a = Some y \<Longrightarrow> \<not> (n = newLen \<and> a = 0)"
      and eq: "(if a <s n then f n (a * 2) else Some a) = Some y"
    show "\<not> (n = newLen \<and> a = 0)" using IH [of n "a * 2" y] eq pos by auto
  qed
  then show False using y by blast
qed

lemma grow_loop_stuck:
  assumes "k \<le> 30" "2 ^ 30 < n" "n < 2 ^ 31"
  shows "grow_loop (word_of_nat n) (word_of_nat (2 ^ k)) = None"
  using assms(1)
proof (induction "30 - k" arbitrary: k)
  case 0
  then have "k = 30" by simp
  have pos: "0 <s (word_of_nat n :: i32)" using sless_nat [of 0 n] assms by simp
  have neg: "(2147483648 :: i32) <s word_of_nat n"
    using assms by (simp add: word_sless_alt signed_of_nat signed_take_bit_int_eq_self)
  have wrap: "(2147483648 :: i32) * 2 = 0" by code_simp
  have "grow_loop (word_of_nat n) 2147483648 = None"
    using neg grow_loop_zero [OF pos] wrap by (subst grow_loop.simps) (simp only: if_True)
  then show ?case
    using \<open>k = 30\<close> sless_nat [of "2 ^ 30" n] assms by (subst grow_loop.simps) simp
next
  case (Suc x)
  have "(2 :: nat) ^ k \<le> 2 ^ 30" by (rule power_increasing) (use Suc(3) in simp_all)
  then have "(word_of_nat (2 ^ k) :: i32) <s word_of_nat n" using sless_nat [of "2 ^ k" n] assms by simp
  then have step: "grow_loop (word_of_nat n) (word_of_nat (2 ^ k)) = grow_loop (word_of_nat n) (word_of_nat (2 ^ Suc k))"
    by (subst grow_loop.simps) (simp add: mult.commute)
  show ?case unfolding step by (rule Suc(1)) (use Suc(2,3) in simp_all)
qed

text \<open>What one write does to the buffer, by the length it needs.\<close>

definition bb_ok :: "buf_builder \<Rightarrow> bool" where
  "bb_ok b \<longleftrightarrow> int (bb_len b) \<le> sint (bb_size b) \<and> sint (bb_size b) \<le> 2 ^ 26"

lemma sint_nat: "n < 2 ^ 31 \<Longrightarrow> sint (word_of_nat n :: i32) = int n"
  by (simp add: signed_of_nat signed_take_bit_int_eq_self)

lemma BufferMaxSize_less: "N < 2 ^ 31 \<Longrightarrow> BufferMaxSize <s word_of_nat N \<longleftrightarrow> 2 ^ 26 < N"
  using sless_nat [of "2 ^ 26" N] by (simp add: BufferMaxSize_def)

lemma grow_loop_64:
  assumes "n \<le> 2 ^ 30"
  shows "\<exists>N. grow_loop (word_of_nat n) 64 = Some (word_of_nat N) \<and> n \<le> N \<and> N \<le> 2 ^ 30 \<and> (n \<le> 2 ^ 26 \<longleftrightarrow> N \<le> 2 ^ 26)"
proof -
  obtain m where m: "6 \<le> m" "n \<le> 2 ^ m" "m = 6 \<or> 2 ^ (m - 1) < n" "m \<le> 30"
    "grow_loop (word_of_nat n) (word_of_nat (2 ^ 6)) = Some (word_of_nat (2 ^ m))"
    using grow_loop_returns [of 6 n] assms by auto
  have "n \<le> 2 ^ 26 \<longleftrightarrow> (2 :: nat) ^ m \<le> 2 ^ 26"
  proof (cases "m \<le> 26")
    case True
    then have "(2 :: nat) ^ m \<le> 2 ^ 26" by (intro power_increasing) simp_all
    then show ?thesis using m(2) by simp
  next
    case False
    then have "(2 :: nat) ^ 26 \<le> 2 ^ (m - 1)" "(2 :: nat) ^ 26 < 2 ^ m"
      by (intro power_increasing power_strict_increasing; simp)+
    then show ?thesis using m(3) False by simp
  qed
  moreover have "(2 :: nat) ^ m \<le> 2 ^ 30" using m(4) by (intro power_increasing) simp_all
  ultimately show ?thesis using m(2,5) by (intro exI [of _ "2 ^ m"]) simp
qed

lemma grow_reallocate_cases:
  shows "n \<le> 2 ^ 26 \<Longrightarrow> \<exists>a. grow_reallocate (word_of_nat n) = Ok a \<and> int n \<le> sint a \<and> sint a \<le> 2 ^ 26"
    and "2 ^ 26 < n \<Longrightarrow> n \<le> 2 ^ 30 \<Longrightarrow> \<exists>m. grow_reallocate (word_of_nat n) = Asserted (MsgAssertion 13548 m)"
    and "2 ^ 30 < n \<Longrightarrow> n < 2 ^ 31 \<Longrightarrow> grow_reallocate (word_of_nat n) = Stuck"
proof -
  show "\<exists>a. grow_reallocate (word_of_nat n) = Ok a \<and> int n \<le> sint a \<and> sint a \<le> 2 ^ 26" if n: "n \<le> 2 ^ 26"
  proof -
    obtain N where "grow_loop (word_of_nat n) 64 = Some (word_of_nat N)" "n \<le> N" "N \<le> 2 ^ 26"
      using grow_loop_64 [of n] n by auto
    then show ?thesis using BufferMaxSize_less [of N] sint_nat [of N] by (simp add: grow_reallocate_def)
  qed
  show "\<exists>m. grow_reallocate (word_of_nat n) = Asserted (MsgAssertion 13548 m)" if n: "2 ^ 26 < n" "n \<le> 2 ^ 30"
  proof -
    obtain N where "grow_loop (word_of_nat n) 64 = Some (word_of_nat N)" "\<not> N \<le> 2 ^ 26" "N \<le> 2 ^ 30"
      using grow_loop_64 [of n] n by auto
    then show ?thesis using BufferMaxSize_less [of N] by (simp add: grow_reallocate_def)
  qed
  show "grow_reallocate (word_of_nat n) = Stuck" if "2 ^ 30 < n" "n < 2 ^ 31"
    using grow_loop_stuck [of 6 n] that by (simp add: grow_reallocate_def)
qed

lemma bb_append_ok:
  assumes "bb_ok b" "bb_len b + length s \<le> 2 ^ 26"
  shows "\<exists>z. bb_append s b = Ok \<lparr>bb_data = bb_data b @ s, bb_size = z\<rparr> \<and> bb_ok \<lparr>bb_data = bb_data b @ s, bb_size = z\<rparr>"
proof (cases "bb_size b <s word_of_nat (bb_len b + length s)")
  case True
  then show ?thesis
    using grow_reallocate_cases(1) [OF assms(2)] assms(2) by (auto simp: bb_append_def Let_def bb_ok_def bb_len_def)
next
  case False
  then have "int (bb_len b + length s) \<le> sint (bb_size b)"
    using assms(2) sint_nat [of "bb_len b + length s"] by (simp add: word_sless_alt)
  then show ?thesis
    using False assms by (intro exI [of _ "bb_size b"]) (auto simp: bb_append_def Let_def bb_ok_def bb_len_def)
qed

section \<open>What the appends write\<close>

definition appends :: "ob_write \<Rightarrow> string \<Rightarrow> bool" where
  "appends f s \<longleftrightarrow> (\<forall>ob. bb_ok (ob_b ob) \<longrightarrow> bb_len (ob_b ob) + length s \<le> 2 ^ 26 \<longrightarrow>
     (\<exists>z. f ob = Ok (ob\<lparr>ob_b := \<lparr>bb_data = bb_data (ob_b ob) @ s, bb_size = z\<rparr>\<rparr>)
        \<and> bb_ok \<lparr>bb_data = bb_data (ob_b ob) @ s, bb_size = z\<rparr>))"

lemma appendsD:
  assumes "appends f s" "bb_ok (ob_b ob)" "bb_len (ob_b ob) + length s \<le> 2 ^ 26"
  obtains z where "f ob = Ok (ob\<lparr>ob_b := \<lparr>bb_data = bb_data (ob_b ob) @ s, bb_size = z\<rparr>\<rparr>)"
    "bb_ok \<lparr>bb_data = bb_data (ob_b ob) @ s, bb_size = z\<rparr>"
  using assms unfolding appends_def by blast

lemma appends_on_b: "appends (on_b (bb_append s)) s"
  unfolding appends_def
proof (intro allI impI)
  fix ob :: obj_builder
  assume "bb_ok (ob_b ob)" "bb_len (ob_b ob) + length s \<le> 2 ^ 26"
  from bb_append_ok [OF this] show "\<exists>z. on_b (bb_append s) ob = Ok (ob\<lparr>ob_b := \<lparr>bb_data = bb_data (ob_b ob) @ s, bb_size = z\<rparr>\<rparr>)
      \<and> bb_ok \<lparr>bb_data = bb_data (ob_b ob) @ s, bb_size = z\<rparr>"
    by (auto simp: on_b_def)
qed

lemma appends_andThen:
  assumes "appends f s" "appends g t"
  shows "appends (andThen f g) (s @ t)"
  unfolding appends_def
proof (intro allI impI)
  fix ob :: obj_builder
  assume ok: "bb_ok (ob_b ob)" and len: "bb_len (ob_b ob) + length (s @ t) \<le> 2 ^ 26"
  obtain z where z: "f ob = Ok (ob\<lparr>ob_b := \<lparr>bb_data = bb_data (ob_b ob) @ s, bb_size = z\<rparr>\<rparr>)"
    "bb_ok \<lparr>bb_data = bb_data (ob_b ob) @ s, bb_size = z\<rparr>"
    using appendsD [OF assms(1) ok] len by auto
  let ?ob = "ob\<lparr>ob_b := \<lparr>bb_data = bb_data (ob_b ob) @ s, bb_size = z\<rparr>\<rparr>"
  have "bb_len (ob_b ?ob) + length t \<le> 2 ^ 26" using len by (simp add: bb_len_def)
  then obtain z' where "g ?ob = Ok (?ob\<lparr>ob_b := \<lparr>bb_data = bb_data (ob_b ?ob) @ t, bb_size = z'\<rparr>\<rparr>)"
    "bb_ok \<lparr>bb_data = bb_data (ob_b ?ob) @ t, bb_size = z'\<rparr>"
    using appendsD [OF assms(2), of ?ob] z(2) by auto
  then show "\<exists>z. andThen f g ob = Ok (ob\<lparr>ob_b := \<lparr>bb_data = bb_data (ob_b ob) @ s @ t, bb_size = z\<rparr>\<rparr>)
      \<and> bb_ok \<lparr>bb_data = bb_data (ob_b ob) @ s @ t, bb_size = z\<rparr>"
    using z(1) by (auto simp: andThen_def)
qed

lemma appends_writes [intro]:
  "appends (on_b (appendChar c)) [c]"
  "appends (on_b (appendInt w)) (le_enc 4 (unat w))"
  "appends (on_b (appendLongLong x)) (le_enc 8 (unat x))"
  "appends (on_b (appendDouble dbits d)) (le_enc 8 (unat (dbits d)))"
  "appends (on_b (appendBuf s)) s"
  "appends (on_b (appendStr s True)) (s @ [NUL])"
  unfolding appendChar_def appendInt_def appendLongLong_def appendDouble_def appendBuf_def appendStr_def
  using appends_on_b [of "s @ [NUL]"] by (simp_all add: appends_on_b)

lemma appends_header: "appends (header t nm) (type_byte t # nm @ [NUL])"
  using appends_andThen [OF appends_writes(1) appends_writes(6)] by (simp add: header_def)

lemma appends_header_then: "appends g v \<Longrightarrow> appends (andThen (header t nm) g) (type_byte t # nm @ NUL # v)"
  using appends_andThen [OF appends_header] by fastforce

lemma le_enc_mod: "le_enc n (x mod 256 ^ n) = le_enc n x"
proof (induction n arbitrary: x)
  case (Suc n)
  have "x mod (256 * 256 ^ n) div 256 = x div 256 mod 256 ^ n" "x mod (256 * 256 ^ n) mod 256 = x mod 256"
    by (simp_all add: mod_mult2_eq)
  then show ?case using Suc by simp
qed simp

lemma le_enc_unat: "le_enc 4 (unat (word_of_nat n :: i32)) = le_enc 4 n"
  using le_enc_mod [of 4 n] by (simp add: unsigned_of_nat take_bit_eq_mod)

lemma appends_strWithSize: "appends (strWithSize s) (enc_str s)"
proof -
  have "word_of_nat (length s) + 1 = (word_of_nat (length s + 1) :: i32)" by simp
  then show ?thesis
    using appends_andThen [OF appends_writes(2) [of "word_of_nat (length s) + 1"] appends_writes(6) [of s]]
    by (simp only: strWithSize_def enc_str_def le_enc_unat le32_enc)
qed

section \<open>Sequences of appends\<close>

text \<open>
  The contract of an append that writes its argument in a given layout, and what a sequence of such
  appends writes.
\<close>

definition append_all :: "('e \<Rightarrow> ob_write) \<Rightarrow> 'e list \<Rightarrow> ob_write" where
  "append_all put es ob = foldl (\<lambda>r e. bthen r (put e)) (Ok ob) es"

locale element_writer =
  fixes put :: "'e \<Rightarrow> ob_write" and enc :: "'e \<Rightarrow> string" and good :: "'e \<Rightarrow> bool"
  assumes put_appends: "good e \<Longrightarrow> appends (put e) (enc e)"
begin

lemma append_all_Nil: "append_all put [] = Ok"
  by (simp add: append_all_def fun_eq_iff)

lemma append_all_snoc: "append_all put (es @ [e]) = andThen (append_all put es) (put e)"
  by (simp add: append_all_def andThen_def fun_eq_iff)

lemma appends_Ok: "appends Ok []"
  by (auto simp: appends_def bb_ok_def bb_len_def intro!: exI [of _ "bb_size _"])

lemma put_all: "\<forall>e \<in> set es. good e \<Longrightarrow> appends (append_all put es) (concat (map enc es))"
proof (induction es rule: rev_induct)
  case Nil
  then show ?case using appends_Ok by (simp add: append_all_Nil)
next
  case (snoc e es)
  then show ?case using appends_andThen [OF snoc.IH put_appends [of e]] by (simp add: append_all_snoc)
qed

end

fun append_value :: "(dbl \<Rightarrow> u64) \<Rightarrow> string \<Rightarrow> bval \<Rightarrow> ob_write" where
  "append_value dbits nm (BNumberDouble d) = append_double dbits nm d"
| "append_value dbits nm (BString s) = append_string nm s"
| "append_value dbits nm (BObject fs) = append_object dbits nm fs"
| "append_value dbits nm (BArray fs) = appendArray dbits nm fs"
| "append_value dbits nm (BBinData t d) = appendBinData nm t d"
| "append_value dbits nm BUndefined = appendUndefined nm"
| "append_value dbits nm (BOid x) = append_oid nm x"
| "append_value dbits nm (BBool b) = appendBool nm b"
| "append_value dbits nm (BDate w) = appendDate nm w"
| "append_value dbits nm BNull = appendNull nm"
| "append_value dbits nm (BRegEx s t) = appendRegex nm s t"
| "append_value dbits nm (BDBRef s x) = appendDBRef nm s x"
| "append_value dbits nm (BCode s) = appendCode nm s"
| "append_value dbits nm (BSymbol s) = appendSymbol nm s"
| "append_value dbits nm (BCodeWScope s fs) = appendCodeWScope dbits nm s fs"
| "append_value dbits nm (BNumberInt w) = append_int nm w"
| "append_value dbits nm (BTimestamp w) = appendTimestamp nm w"
| "append_value dbits nm (BNumberLong w) = append_long nm w"
| "append_value dbits nm BMinKey = appendMinKey nm"
| "append_value dbits nm BMaxKey = appendMaxKey nm"
| "append_value dbits nm BEOO = Ok"

lemmas append_defs = append_double_def append_string_def append_object_def appendArray_def appendBinData_def
  appendUndefined_def append_oid_def appendBool_def appendDate_def appendNull_def appendRegex_def appendDBRef_def
  appendCode_def appendSymbol_def appendCodeWScope_def append_int_def appendTimestamp_def append_long_def
  appendMinKey_def appendMaxKey_def

lemma appends_value: "lay_val (snd e) \<Longrightarrow> appends (append_value dbits (fst e) (snd e)) (enc_elem dbits e)"
proof (cases "snd e")
  case (BBinData t d)
  then show ?thesis
    using appends_header_then [OF appends_andThen [OF appends_writes(2) appends_andThen [OF appends_writes(1) appends_writes(5)]],
      of BinData "fst e" "word_of_nat (length d)" t d]
    by (simp add: append_defs enc_elem_def le_enc_unat)
next
  case (BCodeWScope s fs)
  then show ?thesis
    using appends_header_then [OF appends_andThen [OF appends_writes(2) appends_andThen [OF appends_strWithSize appends_writes(5)]],
      of CodeWScope "fst e" "word_of_nat (4 + 4 + length s + 1 + osize fs)" s "enc_obj dbits fs"]
    by (simp add: append_defs enc_elem_def le_enc_unat enc_obj_def add_ac del: of_nat_add of_nat_Suc of_nat_numeral)
next
  case (BRegEx s t)
  then show ?thesis
    using appends_header_then [OF appends_andThen [OF appends_writes(6) appends_writes(6)], of RegEx "fst e" s t]
    by (simp add: append_defs enc_elem_def)
next
  case (BDBRef s x)
  then show ?thesis
    using appends_header_then [OF appends_andThen [OF appends_strWithSize appends_writes(5)], of DBRef "fst e" s "oid_data x"]
    by (simp add: append_defs enc_elem_def)
qed (auto simp: append_defs enc_elem_def enc_obj_def
       intro: appends_header appends_header_then appends_strWithSize appends_writes)

interpretation typed: element_writer "\<lambda>e. append_value dbits (fst e) (snd e)" "enc_elem dbits" "\<lambda>e. lay_val (snd e)"
  for dbits
  by unfold_locales (rule appends_value)

lemma lay_not_eoo: "lay_val (snd e) \<Longrightarrow> \<not> eoo e"
  by (cases "snd e") (auto simp: eoo_def etype_def)

interpretation copied: element_writer "append_element dbits" "enc_elem dbits" "\<lambda>e. lay_val (snd e)"
  for dbits
proof
  fix e :: belem
  assume "lay_val (snd e)"
  then have "append_element dbits e = on_b (appendBuf (enc_elem dbits e))"
    using lay_not_eoo [of e] by (simp add: append_element_def fun_eq_iff enc_elem_def)
  then show "appends (append_element dbits e) (enc_elem dbits e)" using appends_writes(5) by simp
qed

interpretation renamed: element_writer "\<lambda>p. appendAs dbits (fst p) (snd p)" "\<lambda>p. enc_elem dbits (snd p, snd (fst p))"
    "\<lambda>p. lay_val (snd (fst p))"
  for dbits
proof
  fix p :: "belem \<times> string"
  assume "lay_val (snd (fst p))"
  then have "appendAs dbits (fst p) (snd p) = andThen (header (etype (fst p)) (snd p)) (on_b (appendBuf (enc_val dbits (snd (fst p)))))"
    using lay_not_eoo [of "fst p"] by (simp add: appendAs_def fun_eq_iff)
  then show "appends (appendAs dbits (fst p) (snd p)) (enc_elem dbits (snd p, snd (fst p)))"
    using appends_header_then [OF appends_writes(5)] by (simp add: enc_elem_def etype_def)
qed

lemma ob_done_writes:
  assumes "\<not> ob_doneCalled ob" "bb_ok (ob_b ob)" "bb_data (ob_b ob) = pre @ room @ body" "length room = 4"
    "ob_offset ob = length pre" "length pre + 5 + length body \<le> 2 ^ 26"
  shows "\<exists>z. ob_done ob = Ok (le32 (length body + 5) @ body @ [NUL],
      ob\<lparr>ob_doneCalled := True, ob_b := \<lparr>bb_data = pre @ le32 (length body + 5) @ body @ [NUL], bb_size = z\<rparr>\<rparr>)
    \<and> bb_ok \<lparr>bb_data = pre @ le32 (length body + 5) @ body @ [NUL], bb_size = z\<rparr>"
proof -
  let ?ob = "ob\<lparr>ob_doneCalled := True\<rparr>"
  have "bb_len (ob_b ?ob) + length [NUL] \<le> 2 ^ 26" using assms by (simp add: bb_len_def)
  then obtain z where z: "on_b (appendChar NUL) ?ob = Ok (?ob\<lparr>ob_b := \<lparr>bb_data = bb_data (ob_b ob) @ [NUL], bb_size = z\<rparr>\<rparr>)"
    "bb_ok \<lparr>bb_data = bb_data (ob_b ob) @ [NUL], bb_size = z\<rparr>"
    using appendsD [OF appends_writes(1) [of NUL], of ?ob] assms(2) by auto
  then show ?thesis
    using assms(1,3-5)
    by (intro exI [of _ z]) (auto simp: ob_done_def Let_def bb_ok_def bb_len_def add.commute [of 5])
qed

text \<open>A builder, appends that write \<open>s\<close>, and \<open>doneFast\<close>, or \<open>obj\<close>.\<close>

definition build :: "i32 \<Rightarrow> ob_write \<Rightarrow> (string \<times> obj_builder) bwrite" where
  "build initsize f = bthen (bthen (BSONObjBuilder_new initsize) f) ob_done"

definition build_obj :: "i32 \<Rightarrow> ob_write \<Rightarrow> (string \<times> obj_builder) bwrite" where
  "build_obj initsize f = bthen (bthen (BSONObjBuilder_new initsize) f) ob_obj"

lemma build_obj_alt: "build_obj initsize f = bthen (build initsize f) as_BSONObj"
  by (simp add: build_obj_def build_def ob_obj_def [abs_def] bthen_assoc)

lemma build_writes:
  assumes "0 \<le> sint (initsize + 4)" "sint (initsize + 4) \<le> 2 ^ 26" "appends f s" "length s + 9 \<le> 2 ^ 26"
  shows "\<exists>ob. build initsize f = Ok (le32 (length s + 5) @ s @ [NUL], ob)"
proof -
  let ?n = "bb_new (initsize + 4)" and ?z = "replicate 4 NUL"
  have "bb_ok ?n" "bb_len ?n = 0" using assms(1,2) by (simp_all add: bb_ok_def bb_new_def bb_len_def)
  then obtain z where z: "appendInt 0 ?n = Ok \<lparr>bb_data = le_enc 4 0, bb_size = z\<rparr>" "bb_ok \<lparr>bb_data = le_enc 4 0, bb_size = z\<rparr>"
    using bb_append_ok [of ?n "le_enc 4 0"] by (auto simp: appendInt_def bb_new_def)
  let ?b = "\<lparr>bb_data = le_enc 4 0, bb_size = z\<rparr>"
  obtain z' where z': "bb_append ?z ?b = Ok \<lparr>bb_data = le_enc 4 0 @ ?z, bb_size = z'\<rparr>" "bb_ok \<lparr>bb_data = le_enc 4 0 @ ?z, bb_size = z'\<rparr>"
    using bb_append_ok [of ?b ?z] z(2) by (auto simp: bb_len_def)
  let ?ob = "\<lparr>ob_b = \<lparr>bb_data = le_enc 4 0 @ ?z, bb_size = z'\<rparr>, ob_offset = 4, ob_doneCalled = False\<rparr>"
  have new: "BSONObjBuilder_new initsize = Ok ?ob" using z(1) z'(1) by (simp add: BSONObjBuilder_new_def)
  obtain y where y: "f ?ob = Ok (?ob\<lparr>ob_b := \<lparr>bb_data = le_enc 4 0 @ ?z @ s, bb_size = y\<rparr>\<rparr>)"
    "bb_ok \<lparr>bb_data = le_enc 4 0 @ ?z @ s, bb_size = y\<rparr>"
    using appendsD [OF assms(3), of ?ob] z'(2) assms(4) by (auto simp: bb_len_def)
  show ?thesis
    using ob_done_writes [of "?ob\<lparr>ob_b := \<lparr>bb_data = le_enc 4 0 @ ?z @ s, bb_size = y\<rparr>\<rparr>" "le_enc 4 0" ?z s] y assms(4) new
    by (auto simp: build_def)
qed

lemma appends_fields: "lay_obj fs \<Longrightarrow> appends (append_all (\<lambda>e. append_value dbits (fst e) (snd e)) fs) (enc_fields dbits fs)"
proof -
  assume "lay_obj fs"
  then have "\<forall>e \<in> set fs. lay_val (snd e)" by (induction fs) auto
  then show ?thesis using typed.put_all [of fs dbits] by (simp add: enc_fields_concat)
qed

section \<open>Documents inside documents\<close>

text \<open>
  A subobject written in place: \<open>BSONObjBuilder sub(b.subobjStart(nm))\<close>, its appends, and \<open>sub.doneFast()\<close>, which
  share the buffer of \<open>b\<close>.
\<close>

definition sub_build :: "(string \<Rightarrow> ob_write) \<Rightarrow> string \<Rightarrow> ob_write \<Rightarrow> ob_write" where
  "sub_build start nm f ob =
     bthen (start nm ob) (\<lambda>ob1.
     bthen (BSONObjBuilder_on (ob_b ob1)) (\<lambda>sub.
     bthen (f sub) (\<lambda>sub1.
     bthen (ob_done sub1) (\<lambda>(_, sub2). Ok (ob1\<lparr>ob_b := ob_b sub2\<rparr>)))))"

lemma appends_sub_build:
  assumes "appends (start nm) h" "appends f s"
  shows "appends (sub_build start nm f) (h @ le32 (length s + 5) @ s @ [NUL])"
  unfolding appends_def
proof (intro allI impI)
  fix ob :: obj_builder
  let ?d = "bb_data (ob_b ob) @ h" and ?z = "replicate 4 NUL" and ?new = "le32 (length s + 5) @ s @ [NUL]"
  assume ok: "bb_ok (ob_b ob)" and len: "bb_len (ob_b ob) + length (h @ le32 (length s + 5) @ s @ [NUL]) \<le> 2 ^ 26"
  obtain z1 where z1: "start nm ob = Ok (ob\<lparr>ob_b := \<lparr>bb_data = ?d, bb_size = z1\<rparr>\<rparr>)" "bb_ok \<lparr>bb_data = ?d, bb_size = z1\<rparr>"
    using appendsD [OF assms(1) ok] len by auto
  obtain z2 where z2: "bb_append ?z \<lparr>bb_data = ?d, bb_size = z1\<rparr> = Ok \<lparr>bb_data = ?d @ ?z, bb_size = z2\<rparr>"
    "bb_ok \<lparr>bb_data = ?d @ ?z, bb_size = z2\<rparr>"
    using bb_append_ok [OF z1(2), of ?z] len by (auto simp: bb_len_def)
  let ?sub = "\<lparr>ob_b = \<lparr>bb_data = ?d @ ?z, bb_size = z2\<rparr>, ob_offset = length ?d, ob_doneCalled = False\<rparr>"
  have sub: "BSONObjBuilder_on \<lparr>bb_data = ?d, bb_size = z1\<rparr> = Ok ?sub"
    using z2(1) by (simp add: BSONObjBuilder_on_def bb_len_def)
  obtain z3 where z3: "f ?sub = Ok (?sub\<lparr>ob_b := \<lparr>bb_data = ?d @ ?z @ s, bb_size = z3\<rparr>\<rparr>)"
    "bb_ok \<lparr>bb_data = ?d @ ?z @ s, bb_size = z3\<rparr>"
    using appendsD [OF assms(2), of ?sub] z2(2) len by (auto simp: bb_len_def)
  have "length ?d + 5 + length s \<le> 2 ^ 26" using len by (simp add: bb_len_def)
  from ob_done_writes [of "?sub\<lparr>ob_b := \<lparr>bb_data = ?d @ ?z @ s, bb_size = z3\<rparr>\<rparr>" ?d ?z s, OF _ _ _ _ _ this] z3(2)
  obtain z4 where "ob_done (?sub\<lparr>ob_b := \<lparr>bb_data = ?d @ ?z @ s, bb_size = z3\<rparr>\<rparr>)
      = Ok (?new, ?sub\<lparr>ob_doneCalled := True, ob_b := \<lparr>bb_data = ?d @ ?new, bb_size = z4\<rparr>\<rparr>)"
    "bb_ok \<lparr>bb_data = ?d @ ?new, bb_size = z4\<rparr>" by auto
  then show "\<exists>z. sub_build start nm f ob
      = Ok (ob\<lparr>ob_b := \<lparr>bb_data = bb_data (ob_b ob) @ h @ le32 (length s + 5) @ s @ [NUL], bb_size = z\<rparr>\<rparr>)
      \<and> bb_ok \<lparr>bb_data = bb_data (ob_b ob) @ h @ le32 (length s + 5) @ s @ [NUL], bb_size = z\<rparr>"
    using z1(1) sub z3(1) by (intro exI [of _ z4]) (simp add: sub_build_def)
qed

text \<open>The bytes after the reserved word of the buffer, when the appends of \<open>f\<close> succeed.\<close>

definition written :: "obj_builder bwrite \<Rightarrow> string option" where
  "written r = (case r of Ok ob \<Rightarrow> Some (bb_data (ob_b ob)) | _ \<Rightarrow> None)"

lemma appends_written:
  assumes "appends f s" "bb_ok (ob_b ob)" "bb_len (ob_b ob) + length s \<le> 2 ^ 26"
  shows "written (f ob) = Some (bb_data (ob_b ob) @ s)"
proof -
  obtain z where "f ob = Ok (ob\<lparr>ob_b := \<lparr>bb_data = bb_data (ob_b ob) @ s, bb_size = z\<rparr>\<rparr>)"
    using appendsD [OF assms] by blast
  then show ?thesis by (simp add: written_def)
qed

section \<open>Properties\<close>

text \<open>
  The builder writes the layout: a new builder, one typed append for each field of a document, in order,
  and \<open>done\<close> give the bytes of the document, for every document that fits in 64 MB and whatever the
  initial size, so however often the buffer was reallocated on the way.
\<close>

lemma builder_layout:
  assumes "lay_obj fs" "osize fs + 4 \<le> 2 ^ 26" "0 \<le> sint (initsize + 4)" "sint (initsize + 4) \<le> 2 ^ 26"
  shows "\<exists>ob. build initsize (append_all (\<lambda>e. append_value dbits (fst e) (snd e)) fs) = Ok (enc_obj dbits fs, ob)"
proof -
  have len: "length (enc_fields dbits fs) + 5 = osize fs" using length_enc(2) [OF assms(1)] .
  then have "length (enc_fields dbits fs) + 9 \<le> 2 ^ 26" using assms(2) by simp
  from build_writes [OF assms(3,4) appends_fields [OF assms(1)] this]
  show ?thesis using len by (simp add: enc_obj_def)
qed

lemma as_BSONObj_layout:
  assumes "osize fs + 4 \<le> 2 ^ 26"
  shows "as_BSONObj (enc_obj dbits fs, ob) =
    (if osize fs \<le> BSONObjMaxInternalSize then Ok (enc_obj dbits fs, ob) else Asserted (assertInvalid (osize fs)))"
proof -
  have "sint (rd32 (enc_obj dbits fs)) = int (osize fs)"
    using sint_nat [of "osize fs"] assms by (simp add: enc_obj_def le32_def)
  then show ?thesis by (simp add: as_BSONObj_def isValid_def)
qed

text \<open>
  A subobject or subarray built in place, in the buffer of its parent, is the same bytes as one that was
  built on its own and copied in.
\<close>

theorem sub_builder_in_place:
  assumes "lay_obj fs" "bb_ok (ob_b ob)" "bb_len (ob_b ob) + 2 + length nm + osize fs \<le> 2 ^ 26"
  shows "written (sub_build subobjStart nm (append_all (\<lambda>e. append_value dbits (fst e) (snd e)) fs) ob)
      = Some (bb_data (ob_b ob) @ enc_elem dbits (nm, BObject fs))
    \<and> written (append_object dbits nm fs ob) = Some (bb_data (ob_b ob) @ enc_elem dbits (nm, BObject fs))
    \<and> written (sub_build subarrayStart nm (append_all (\<lambda>e. append_value dbits (fst e) (snd e)) fs) ob)
      = written (appendArray dbits nm fs ob)"
proof -
  have len: "length (enc_fields dbits fs) + 5 = osize fs" using length_enc(2) [OF assms(1)] .
  have room: "bb_len (ob_b ob) + length (enc_elem dbits (nm, v)) \<le> 2 ^ 26" if "v \<in> {BObject fs, BArray fs}" for v
    using that assms(1,3) by (auto simp: enc_elem_def len [symmetric])
  note sub = appends_sub_build [OF _ appends_fields [OF assms(1), of dbits], of _ nm, unfolded len]
  have "appends (sub_build subobjStart nm (append_all (\<lambda>e. append_value dbits (fst e) (snd e)) fs)) (enc_elem dbits (nm, BObject fs))"
    using sub [of subobjStart, OF appends_header [of Object nm, folded subobjStart_def]] by (simp add: enc_elem_def)
  moreover have "appends (sub_build subarrayStart nm (append_all (\<lambda>e. append_value dbits (fst e) (snd e)) fs)) (enc_elem dbits (nm, BArray fs))"
    using sub [of subarrayStart, OF appends_header [of Array nm, folded subarrayStart_def]] by (simp add: enc_elem_def)
  moreover have "appends (append_object dbits nm fs) (enc_elem dbits (nm, BObject fs))"
    "appends (appendArray dbits nm fs) (enc_elem dbits (nm, BArray fs))"
    using appends_value [of "(nm, BObject fs)" dbits] appends_value [of "(nm, BArray fs)" dbits] assms(1) by simp_all
  ultimately show ?thesis using room appends_written [OF _ assms(2)] by simp
qed

lemma sub_builder_in_place_witness:
  "written (sub_build subobjStart ''s'' (append_all (\<lambda>e. append_value (\<lambda>_. 0) (fst e) (snd e)) [(''a'', BNull)])
       \<lparr>ob_b = bb_new 0, ob_offset = 0, ob_doneCalled = False\<rparr>)
     = Some (enc_elem (\<lambda>_. 0) (''s'', BObject [(''a'', BNull)]))"
  using sub_builder_in_place [of "[(''a'', BNull)]" "\<lparr>ob_b = bb_new 0, ob_offset = 0, ob_doneCalled = False\<rparr>" "''s''" "\<lambda>_. 0"]
  by (simp add: NUL_def bb_ok_def bb_new_def bb_len_def)

text \<open>
  C39. The limits of the buffer.  A write that needs at most 64 MB succeeds and keeps everything written before;
  one that needs more, up to 1 GB, fails assertion 13548; one that needs between 1 GB and 2 GB never returns,
  because the size that is doubled wraps to 0 before it is compared with the limit.
\<close>

theorem bb_append_limits:
  assumes "bb_ok b" "need = bb_len b + length s"
  shows "(need \<le> 2 ^ 26 \<longrightarrow> (\<exists>b'. bb_append s b = Ok b' \<and> bb_data b' = bb_data b @ s \<and> bb_ok b'))
    \<and> (2 ^ 26 < need \<and> need \<le> 2 ^ 30 \<longrightarrow> (\<exists>m. bb_append s b = Asserted (MsgAssertion 13548 m)))
    \<and> (2 ^ 30 < need \<and> need < 2 ^ 31 \<longrightarrow> bb_append s b = Stuck)"
proof (intro conjI impI)
  assume "need \<le> 2 ^ 26"
  then obtain z where "bb_append s b = Ok \<lparr>bb_data = bb_data b @ s, bb_size = z\<rparr>" "bb_ok \<lparr>bb_data = bb_data b @ s, bb_size = z\<rparr>"
    using bb_append_ok [OF assms(1), of s] assms(2) by auto
  then show "\<exists>b'. bb_append s b = Ok b' \<and> bb_data b' = bb_data b @ s \<and> bb_ok b'" by auto
next
  have big: "bb_size b <s word_of_nat need" if "2 ^ 26 < need" "need < 2 ^ 31"
    using that assms(1) sint_nat [of need] by (simp add: word_sless_alt bb_ok_def)
  show "\<exists>m. bb_append s b = Asserted (MsgAssertion 13548 m)" if n: "2 ^ 26 < need \<and> need \<le> 2 ^ 30"
  proof -
    obtain m where "grow_reallocate (word_of_nat need) = Asserted (MsgAssertion 13548 m)"
      using grow_reallocate_cases(2) n by blast
    then show ?thesis using big n assms(2) by (simp add: bb_append_def Let_def)
  qed
  show "bb_append s b = Stuck" if n: "2 ^ 30 < need \<and> need < 2 ^ 31"
    using grow_reallocate_cases(3) [of need] big n assms(2) by (simp add: bb_append_def Let_def)
qed

lemma bb_append_limits_witness:
  "bb_append (replicate (2 ^ 30 + 1) NUL) (bb_new 512) = Stuck
   \<and> (\<exists>b'. bb_append ''abc'' (bb_new 0) = Ok b' \<and> bb_data b' = ''abc'')"
proof -
  have "bb_ok (bb_new 512)" "bb_ok (bb_new 0)" by (simp_all add: bb_ok_def bb_new_def bb_len_def)
  then show ?thesis
    using bb_append_limits [of "bb_new 512" "2 ^ 30 + 1" "replicate (2 ^ 30 + 1) NUL"] bb_append_limits [of "bb_new 0" 3 "''abc''"]
    by (auto simp: bb_new_def bb_len_def)
qed

section \<open>Arrays\<close>

definition null_elems :: "nat \<Rightarrow> nat \<Rightarrow> bobj" where
  "null_elems i n = map (\<lambda>j. (int_str (int j), BNull)) [i..<n]"

lemma numStr_nat: "n < 2 ^ 31 \<Longrightarrow> numStr (word_of_nat n) = int_str (int n)"
  by (simp add: numStr_def sint_nat)

lemma ab_with_num_writes:
  assumes "appends (f (int_str (int i))) s" "bb_ok (ob_b (ab_b ab))" "bb_len (ob_b (ab_b ab)) + length s \<le> 2 ^ 26"
    "ab_i ab = word_of_nat i" "i < 2 ^ 31"
  obtains ab' where "ab_with_num f ab = Ok ab'" "bb_ok (ob_b (ab_b ab'))" "ab_i ab' = word_of_nat (i + 1)"
    "bb_data (ob_b (ab_b ab')) = bb_data (ob_b (ab_b ab)) @ s"
proof -
  obtain z where z: "f (int_str (int i)) (ab_b ab) = Ok ((ab_b ab)\<lparr>ob_b := \<lparr>bb_data = bb_data (ob_b (ab_b ab)) @ s, bb_size = z\<rparr>\<rparr>)"
    "bb_ok \<lparr>bb_data = bb_data (ob_b (ab_b ab)) @ s, bb_size = z\<rparr>"
    using appendsD [OF assms(1-3)] by blast
  then show thesis
    using that [of "\<lparr>ab_i = ab_i ab + 1, ab_b = (ab_b ab)\<lparr>ob_b := \<lparr>bb_data = bb_data (ob_b (ab_b ab)) @ s, bb_size = z\<rparr>\<rparr>\<rparr>"] assms(4,5)
    by (simp add: ab_with_num_def numStr_nat add.commute)
qed

lemma fill_loop_writes:
  assumes "i \<le> n" "n < 2 ^ 31" "bb_ok (ob_b (ab_b ab))" "ab_i ab = word_of_nat i"
    "bb_len (ob_b (ab_b ab)) + length (enc_fields dbits (null_elems i n)) \<le> 2 ^ 26"
  shows "\<exists>ab'. fill_loop (word_of_nat n) ab = Some (Ok ab') \<and> bb_ok (ob_b (ab_b ab')) \<and> ab_i ab' = word_of_nat n
    \<and> bb_data (ob_b (ab_b ab')) = bb_data (ob_b (ab_b ab)) @ enc_fields dbits (null_elems i n)"
  using assms(1,3-5)
proof (induction "n - i" arbitrary: i ab)
  case 0
  then have "i = n" by simp
  then show ?case using 0 sless_nat [of n n] assms(2) by (subst fill_loop.simps) (simp add: null_elems_def)
next
  case (Suc k)
  let ?s = "enc_elem dbits (int_str (int i), BNull)"
  have i: "i < n" using Suc(2) by simp
  have split: "null_elems i n = (int_str (int i), BNull) # null_elems (Suc i) n"
    using i by (simp add: null_elems_def upt_conv_Cons)
  have enc: "enc_fields dbits (null_elems i n) = ?s @ enc_fields dbits (null_elems (Suc i) n)"
    by (simp add: split enc_elem_def)
  have ap: "appends (appendNull (int_str (int i))) ?s" using appends_value [of "(int_str (int i), BNull)" dbits] by simp
  obtain ab' where ab': "ab_appendNull ab = Ok ab'" "bb_ok (ob_b (ab_b ab'))" "ab_i ab' = word_of_nat (i + 1)"
    "bb_data (ob_b (ab_b ab')) = bb_data (ob_b (ab_b ab)) @ ?s"
    using ab_with_num_writes [of appendNull i ?s ab, OF ap Suc(4) _ Suc(5)] Suc(6) i assms(2)
    unfolding ab_appendNull_def by (auto simp: enc)
  obtain ab2 where "fill_loop (word_of_nat n) ab' = Some (Ok ab2)" "bb_ok (ob_b (ab_b ab2))" "ab_i ab2 = word_of_nat n"
    "bb_data (ob_b (ab_b ab2)) = bb_data (ob_b (ab_b ab')) @ enc_fields dbits (null_elems (Suc i) n)"
  proof -
    have "k = n - Suc i" "Suc i \<le> n" using Suc(2) by simp_all
    moreover have "ab_i ab' = word_of_nat (Suc i)" using ab'(3) by simp
    moreover have "bb_len (ob_b (ab_b ab')) + length (enc_fields dbits (null_elems (Suc i) n)) \<le> 2 ^ 26"
      using Suc(6) ab'(4) by (simp add: enc bb_len_def)
    ultimately show ?thesis using Suc(1) [of "Suc i" ab'] ab'(2) that by blast
  qed
  moreover have "ab_i ab <s word_of_nat n" using sless_nat [of i n] i assms(2) Suc(5) by simp
  ultimately show ?case using ab' by (subst fill_loop.simps) (simp add: enc)
qed

lemma parse_long: "0 \<le> k \<Longrightarrow> k < 2 ^ 63 \<Longrightarrow> parseNumberFromStringWithBase long_limits (int_str k) 10 = Inr k"
  by (rule parseNumber_int_str) (simp_all add: limits_ok_def long_limits_def)

text \<open>
  Writing to an array by position: the positions that are missing before it are filled with nulls, the
  elements are numbered in order and without gaps, and the next position is the one after it.
\<close>

theorem array_append_at:
  assumes e: "lay_val (snd e)" and n: "i \<le> n" "n \<le> 1500000"
    and ab: "bb_ok (ob_b (ab_b ab))" "ab_i ab = word_of_nat i"
    and room: "bb_len (ob_b (ab_b ab)) + length (enc_fields dbits (null_elems i n @ [(int_str (int n), snd e)])) \<le> 2 ^ 26"
  shows "\<exists>ab'. ab_appendAs dbits e (int_str (int n)) ab = Ok ab' \<and> ab_i ab' = word_of_nat (n + 1)
    \<and> bb_data (ob_b (ab_b ab')) = bb_data (ob_b (ab_b ab)) @ enc_fields dbits (null_elems i n @ [(int_str (int n), snd e)])"
proof -
  let ?s = "enc_elem dbits (int_str (int n), snd e)"
  have enc: "enc_fields dbits (null_elems i n @ [(int_str (int n), snd e)]) = enc_fields dbits (null_elems i n) @ ?s"
    by (simp add: enc_fields_concat)
  have small: "n < 2 ^ 31" using n by simp
  obtain ab1 where ab1: "fill_loop (word_of_nat n) ab = Some (Ok ab1)" "bb_ok (ob_b (ab_b ab1))" "ab_i ab1 = word_of_nat n"
    "bb_data (ob_b (ab_b ab1)) = bb_data (ob_b (ab_b ab)) @ enc_fields dbits (null_elems i n)"
    using fill_loop_writes [OF n(1) small ab, of dbits] room by (auto simp: enc)
  have "\<not> maxElems <s word_of_nat n" using sless_nat [of 1500000 n] n by (simp add: maxElems_def)
  then have fill: "fill_name (int_str (int n)) ab = Ok ab1"
    using ab1(1) n parse_long [of "int n"] by (simp add: fill_name_def fill_to_def)
  obtain ab2 where "ab_append dbits e ab1 = Ok ab2" "ab_i ab2 = word_of_nat (n + 1)"
    "bb_data (ob_b (ab_b ab2)) = bb_data (ob_b (ab_b ab1)) @ ?s"
    using ab_with_num_writes [of "appendAs dbits e" n ?s ab1] renamed.put_appends [of "(e, int_str (int n))" dbits]
      e ab1(2-4) room small unfolding ab_append_def by (auto simp: enc bb_len_def)
  then show ?thesis using fill ab1(4) by (simp add: ab_appendAs_def enc)
qed

definition array0 :: arr_builder where
  "array0 = \<lparr>ab_i = 0, ab_b = \<lparr>ob_b = bb_new 0, ob_offset = 0, ob_doneCalled = False\<rparr>\<rparr>"

lemma array_append_at_witness:
  "\<exists>ab'. ab_appendAs (\<lambda>_. 0) (''x'', BBool True) (int_str (int 1)) array0 = Ok ab' \<and> ab_i ab' = word_of_nat (1 + 1)
    \<and> bb_data (ob_b (ab_b ab')) = bb_data (ob_b (ab_b array0))
        @ enc_fields (\<lambda>_. 0) (null_elems 0 1 @ [(int_str (int 1), snd (''x'', BBool True))])"
  by (rule array_append_at)
     (simp_all add: array0_def bb_ok_def bb_new_def bb_len_def null_elems_def int_str_def nat_str.simps)

text \<open>
  C40. The position is parsed as a \<open>long\<close> and passed on as an \<open>int\<close>: a position that is 2 to the 32 too large is
  not refused but written at the small position.
\<close>

theorem fill_name_truncates:
  assumes "0 \<le> n" "n + 2 ^ 32 < 2 ^ 63"
  shows "fill_name (int_str (n + 2 ^ 32)) ab = fill_name (int_str n) ab"
proof -
  have w: "(word_of_int (n + 2 ^ 32) :: i32) = word_of_int n" by (simp only: word_of_int_eq_iff take_bit_eq_mod) simp
  have p: "parseNumberFromStringWithBase long_limits (int_str (n + 2 ^ 32)) 10 = Inr (n + 2 ^ 32)"
    "parseNumberFromStringWithBase long_limits (int_str n) 10 = Inr n"
    by (rule parse_long; use assms in simp)+
  show ?thesis unfolding fill_name_def p sum.case w ..
qed

lemma fill_name_truncates_witness:
  "fill_name (int_str (2 + 2 ^ 32)) array0 = fill_name (int_str 2) array0"
  by (rule fill_name_truncates) simp_all

end
