(* ===== verification/BsonReader.thy ===== *)
theory BsonReader
  imports BsonBytes
begin

text \<open>
  Reading documents: the accessors of \<open>BSONElement\<close> (\<open>src/src/mongo/bson/bsonelement.h\<close>), the size of an
  element (\<open>bson-inl.h\<close>) and \<open>BSONObjIterator\<close> (\<open>bsonobjiterator.h\<close>).  A pointer into the bytes of a document is the
  text that starts there.  \<open>dec_obj\<close> reads a whole document through the iterator and the accessors; its first
  argument bounds the number of nested calls, and twice the size of a document plus one is enough.
\<close>

section \<open>Accessors\<close>

definition re_type :: "string \<Rightarrow> btype option" where
  "re_type s = type_of_byte (hd s)"

definition re_eoo :: "string \<Rightarrow> bool" where
  "re_eoo s \<longleftrightarrow> re_type s = Some EOO"

definition re_fieldName :: "string \<Rightarrow> string" where
  "re_fieldName s = (if re_eoo s then [] else c_str (tl s))"

definition re_fieldNameSize :: "string \<Rightarrow> nat" where
  "re_fieldNameSize s = (if re_eoo s then 0 else length (re_fieldName s) + 1)"

definition re_value :: "string \<Rightarrow> string" where
  "re_value s = drop (re_fieldNameSize s + 1) s"

definition re_boolean :: "string \<Rightarrow> bool" where
  "re_boolean s \<longleftrightarrow> hd (re_value s) \<noteq> NUL"

definition re_date :: "string \<Rightarrow> i64" where
  "re_date s = rd64 (re_value s)"

definition re_numberDouble :: "(u64 \<Rightarrow> dbl) \<Rightarrow> string \<Rightarrow> dbl" where
  "re_numberDouble undbits s = undbits (rd64 (re_value s))"

definition re_numberInt :: "string \<Rightarrow> i32" where
  "re_numberInt s = rd32 (re_value s)"

definition re_numberLong :: "string \<Rightarrow> i64" where
  "re_numberLong s = rd64 (re_value s)"

definition re_oid :: "string \<Rightarrow> oid" where
  "re_oid s = OID (take 12 (re_value s))"

definition re_valuestrsize :: "string \<Rightarrow> i32" where
  "re_valuestrsize s = rd32 (re_value s)"

definition re_objsize :: "string \<Rightarrow> i32" where
  "re_objsize s = rd32 (re_value s)"

definition re_valuestr :: "string \<Rightarrow> string" where
  "re_valuestr s = drop 4 (re_value s)"

definition re_text :: "string \<Rightarrow> string" where
  "re_text s = take (nat (sint (re_valuestrsize s - 1))) (re_valuestr s)"

definition re_codeWScopeCode :: "string \<Rightarrow> string" where
  "re_codeWScopeCode s = drop 8 (re_value s)"

definition re_codeWScopeCodeLen :: "string \<Rightarrow> i32" where
  "re_codeWScopeCodeLen s = rd32 (drop 4 (re_value s))"

definition re_codeWScopeScopeData :: "string \<Rightarrow> string" where
  "re_codeWScopeScopeData s = drop (nat (sint (re_codeWScopeCodeLen s))) (re_codeWScopeCode s)"

definition re_binData :: "string \<Rightarrow> string" where
  "re_binData s = take (nat (sint (re_valuestrsize s))) (drop 5 (re_value s))"

definition re_binDataType :: "string \<Rightarrow> char" where
  "re_binDataType s = hd (drop 4 (re_value s))"

definition re_regex :: "string \<Rightarrow> string" where
  "re_regex s = c_str (re_value s)"

definition re_regexFlags :: "string \<Rightarrow> string" where
  "re_regexFlags s = c_str (drop (length (re_regex s) + 1) (re_value s))"

definition re_timestampValue :: "string \<Rightarrow> u64" where
  "re_timestampValue s = rd64 (re_value s)"

definition re_dbrefOID :: "string \<Rightarrow> oid" where
  "re_dbrefOID s = OID (take 12 (drop (4 + nat (sint (re_valuestrsize s))) (re_value s)))"

text \<open>The accessors that check the type of the element first.\<close>

definition el_checked :: "merror \<Rightarrow> btype \<Rightarrow> (string \<Rightarrow> 'a) \<Rightarrow> string \<Rightarrow> 'a result" where
  "el_checked err t f s = (if re_type s = Some t then Inr (f s) else Inl err)"

definition el_codeWScopeCode :: "string \<Rightarrow> string result" where
  "el_codeWScopeCode = el_checked (MsgAssertion 16177 ''not codeWScope'') CodeWScope re_codeWScopeCode"

definition el_codeWScopeCodeLen :: "string \<Rightarrow> i32 result" where
  "el_codeWScopeCodeLen = el_checked (MsgAssertion 16178 ''not codeWScope'') CodeWScope re_codeWScopeCodeLen"

definition el_codeWScopeScopeData :: "string \<Rightarrow> string result" where
  "el_codeWScopeScopeData s =
     rbind (el_codeWScopeCode s) (\<lambda>c. rbind (el_codeWScopeCodeLen s) (\<lambda>n. Inr (drop (nat (sint n)) c)))"

definition el_binData :: "string \<Rightarrow> string result" where
  "el_binData = el_checked (VerifyFailed ''type() == BinData'') BinData re_binData"

definition el_binDataType :: "string \<Rightarrow> char result" where
  "el_binDataType = el_checked (VerifyFailed ''type() == BinData'') BinData re_binDataType"

definition el_regex :: "string \<Rightarrow> string result" where
  "el_regex = el_checked (VerifyFailed ''type() == RegEx'') RegEx re_regex"

definition el_regexFlags :: "string \<Rightarrow> string result" where
  "el_regexFlags s = rbind (el_regex s) (\<lambda>p. Inr (c_str (drop (length p + 1) (re_value s))))"

definition el_dbrefNS :: "string \<Rightarrow> string result" where
  "el_dbrefNS = el_checked (UserException 10063 ''not a dbref'') DBRef (\<lambda>s. c_str (re_valuestr s))"

definition el_dbrefOID :: "string \<Rightarrow> oid result" where
  "el_dbrefOID = el_checked (UserException 10064 ''not a dbref'') DBRef re_dbrefOID"

section \<open>Size of an element\<close>

fun fixed_size :: "btype \<Rightarrow> nat option" where
  "fixed_size EOO = Some 0"
| "fixed_size Undefined = Some 0"
| "fixed_size jstNULL = Some 0"
| "fixed_size MaxKey = Some 0"
| "fixed_size MinKey = Some 0"
| "fixed_size Bool = Some 1"
| "fixed_size NumberInt = Some 4"
| "fixed_size Timestamp = Some 8"
| "fixed_size Date = Some 8"
| "fixed_size NumberDouble = Some 8"
| "fixed_size NumberLong = Some 8"
| "fixed_size jstOID = Some 12"
| "fixed_size _ = None"

text \<open>The constructor sets the total size of the end marker to 1.\<close>

definition re_size :: "string \<Rightarrow> i32 result" where
  "re_size s =
     (let total = (\<lambda>x. Inr (x + word_of_nat (re_fieldNameSize s) + 1)) in
      if re_eoo s then Inr 1
      else (case re_type s of
        None \<Rightarrow> Inl (MsgAssertion 10320 (''BSONElement: bad type ''
                  @ int_str (sint (word_of_nat (of_char (hd s)) :: byte))))
      | Some t \<Rightarrow>
          (case fixed_size t of
             Some n \<Rightarrow> total (word_of_nat n)
           | None \<Rightarrow>
               if t \<in> {Symbol, Code, String} then total (re_valuestrsize s + 4)
               else if t = DBRef then total (re_valuestrsize s + 4 + 12)
               else if t \<in> {CodeWScope, Object, Array} then total (re_objsize s)
               else if t = BinData then total (re_valuestrsize s + 4 + 1)
               else total (word_of_nat (length (re_regex s) + 1 + length (re_regexFlags s) + 1)))))"

definition strnlen :: "string \<Rightarrow> int \<Rightarrow> int" where
  "strnlen s n = (if NUL \<in> set (take (nat n) s) then int (length (c_str s)) else -1)"

text \<open>
  \<open>size(maxLen)\<close> with a limit: \<open>remain\<close> is what the name leaves of it.  The lengths of a regular expression are
  unsigned, so an unterminated one counts as \<open>-1\<close>, which the sums wrap away.
\<close>

definition re_size_max :: "int \<Rightarrow> string \<Rightarrow> i32 result" where
  "re_size_max maxLen s =
     (let total = (\<lambda>x. Inr (x + word_of_nat (re_fieldNameSize s) + 1));
          remain = maxLen - int (re_fieldNameSize s) - 1;
          enough = (\<lambda>code x. if remain > 3 then total x
             else Inl (MsgAssertion code ''Insufficient bytes to calculate element size'')) in
      if re_eoo s then Inr 1
      else (case re_type s of
        None \<Rightarrow> Inl (MsgAssertion 13655 (''BSONElement: bad type ''
                  @ int_str (sint (word_of_nat (of_char (hd s)) :: byte))))
      | Some t \<Rightarrow>
          (case fixed_size t of
             Some n \<Rightarrow> total (word_of_nat n)
           | None \<Rightarrow>
               if t \<in> {Symbol, Code, String} then enough 10313 (re_valuestrsize s + 4)
               else if t = CodeWScope then enough 10314 (re_objsize s)
               else if t = DBRef then enough 10315 (re_valuestrsize s + 4 + 12)
               else if t \<in> {Object, Array} then enough 10316 (re_objsize s)
               else if t = BinData then enough 10317 (re_valuestrsize s + 4 + 1)
               else
                 let len1 = strnlen (re_value s) remain;
                     p = drop (nat (len1 + 1)) (re_value s);
                     x = (remain - len1 - 1) mod 2 ^ 64 in
                 if x > 0x7fffffff then Inl (VerifyFailed ''x <= 0x7fffffff'')
                 else total (word_of_int (len1 + 1 + strnlen p x + 1)))))"

section \<open>Iterator\<close>

record bson_iter =
  it_pos :: int
  it_theend :: int

definition BSONObjIterator :: "string \<Rightarrow> bson_iter" where
  "BSONObjIterator d =
     (let sz = sint (rd32 d) in
      if sz = 0 then \<lparr>it_pos = 0, it_theend = 0\<rparr> else \<lparr>it_pos = 4, it_theend = sz - 1\<rparr>)"

definition it_more :: "bson_iter \<Rightarrow> bool" where
  "it_more it \<longleftrightarrow> it_pos it < it_theend it"

definition it_moreWithEOO :: "bson_iter \<Rightarrow> bool" where
  "it_moreWithEOO it \<longleftrightarrow> it_pos it \<le> it_theend it"

definition it_next :: "string \<Rightarrow> bson_iter \<Rightarrow> (string \<times> bson_iter) result" where
  "it_next d it =
     (if it_pos it \<le> it_theend it then
        let e = drop (nat (it_pos it)) d in
        rbind (re_size e) (\<lambda>n. Inr (e, it\<lparr>it_pos := it_pos it + sint n\<rparr>))
      else Inl (VerifyFailed ''_pos <= _theend''))"

text \<open>\<open>next(true)\<close>: the name and the size are measured against what is left of the document.\<close>

definition it_next_checked :: "string \<Rightarrow> bson_iter \<Rightarrow> (string \<times> bson_iter) result" where
  "it_next_checked d it =
     (if it_pos it \<le> it_theend it then
        let e = drop (nat (it_pos it)) d; maxLen = it_theend it + 1 - it_pos it in
        if \<not> re_eoo e \<and> strnlen (tl e) (maxLen - 1) = -1 then Inl (UserException 10333 ''Invalid field name'')
        else rbind (re_size_max maxLen e) (\<lambda>esize.
          if 0 < sint esize then Inr (e, it\<lparr>it_pos := it_pos it + sint esize\<rparr>)
          else Inl (MsgAssertion 16446 ''BSONElement has bad size''))
      else Inl (VerifyFailed ''_pos <= _theend''))"

section \<open>Reading a document\<close>

fun dec_val :: "nat \<Rightarrow> (u64 \<Rightarrow> dbl) \<Rightarrow> string \<Rightarrow> bval option"
  and dec_obj :: "nat \<Rightarrow> (u64 \<Rightarrow> dbl) \<Rightarrow> string \<Rightarrow> bobj option"
  and dec_iter :: "nat \<Rightarrow> (u64 \<Rightarrow> dbl) \<Rightarrow> string \<Rightarrow> bson_iter \<Rightarrow> bobj option" where
  "dec_val 0 u s = None"
| "dec_val (Suc n) u s =
     (case re_type s of
        Some NumberDouble \<Rightarrow> Some (BNumberDouble (re_numberDouble u s))
      | Some String \<Rightarrow> Some (BString (re_text s))
      | Some Object \<Rightarrow> map_option BObject (dec_obj n u (re_value s))
      | Some Array \<Rightarrow> map_option BArray (dec_obj n u (re_value s))
      | Some BinData \<Rightarrow> Some (BBinData (re_binDataType s) (re_binData s))
      | Some Undefined \<Rightarrow> Some BUndefined
      | Some jstOID \<Rightarrow> Some (BOid (re_oid s))
      | Some Bool \<Rightarrow> Some (BBool (re_boolean s))
      | Some Date \<Rightarrow> Some (BDate (re_date s))
      | Some jstNULL \<Rightarrow> Some BNull
      | Some RegEx \<Rightarrow> Some (BRegEx (re_regex s) (re_regexFlags s))
      | Some DBRef \<Rightarrow> Some (BDBRef (re_text s) (re_dbrefOID s))
      | Some Code \<Rightarrow> Some (BCode (re_text s))
      | Some Symbol \<Rightarrow> Some (BSymbol (re_text s))
      | Some CodeWScope \<Rightarrow>
          map_option (BCodeWScope (take (nat (sint (re_codeWScopeCodeLen s - 1))) (re_codeWScopeCode s)))
            (dec_obj n u (re_codeWScopeScopeData s))
      | Some NumberInt \<Rightarrow> Some (BNumberInt (re_numberInt s))
      | Some Timestamp \<Rightarrow> Some (BTimestamp (re_timestampValue s))
      | Some NumberLong \<Rightarrow> Some (BNumberLong (re_numberLong s))
      | Some MinKey \<Rightarrow> Some BMinKey
      | Some MaxKey \<Rightarrow> Some BMaxKey
      | _ \<Rightarrow> None)"
| "dec_obj 0 u d = None"
| "dec_obj (Suc n) u d = dec_iter n u d (BSONObjIterator d)"
| "dec_iter 0 u d it = None"
| "dec_iter (Suc n) u d it =
     (if it_more it then
        case it_next d it of
          Inl _ \<Rightarrow> None
        | Inr (e, it') \<Rightarrow>
            (case dec_val n u e of
               None \<Rightarrow> None
             | Some v \<Rightarrow> map_option (\<lambda>fs. (re_fieldName e, v) # fs) (dec_iter n u d it'))
      else Some [])"

section \<open>Accessors on a layout\<close>

lemma c_str_NUL [simp]: "NUL \<notin> set s \<Longrightarrow> c_str (s @ NUL # r) = s"
  unfolding c_str_def by (induction s) auto

lemma re_head:
  assumes "NUL \<notin> set (fst e)" "lay_val (snd e)"
  shows "re_type (enc_elem dbits e @ r) = Some (vtype (snd e))"
    and "\<not> re_eoo (enc_elem dbits e @ r)"
    and "re_fieldName (enc_elem dbits e @ r) = fst e"
    and "re_fieldNameSize (enc_elem dbits e @ r) = length (fst e) + 1"
    and "re_value (enc_elem dbits e @ r) = enc_val dbits (snd e) @ r"
proof -
  show t: "re_type (enc_elem dbits e @ r) = Some (vtype (snd e))" by (simp add: re_type_def enc_elem_def)
  have "vtype (snd e) \<noteq> EOO" using assms(2) by (cases "snd e") auto
  then show n: "\<not> re_eoo (enc_elem dbits e @ r)" using t by (simp add: re_eoo_def)
  then show f: "re_fieldName (enc_elem dbits e @ r) = fst e"
    using assms(1) by (simp add: re_fieldName_def) (simp add: enc_elem_def)
  then show g: "re_fieldNameSize (enc_elem dbits e @ r) = length (fst e) + 1" using n by (simp add: re_fieldNameSize_def)
  show "re_value (enc_elem dbits e @ r) = enc_val dbits (snd e) @ r"
    unfolding re_value_def g by (simp add: enc_elem_def)
qed

lemma rd32_nat: "n < 2 ^ 31 \<Longrightarrow> sint (rd32 (le_enc 4 n @ s)) = int n"
  by (simp add: signed_of_nat signed_take_bit_int_eq_self)

lemma rd32_nat_pred: "n + 1 < 2 ^ 31 \<Longrightarrow> sint (rd32 (le_enc 4 (n + 1) @ s) - 1) = int n"
  by (simp add: signed_of_nat signed_take_bit_int_eq_self)

lemma re_text_str:
  assumes "re_value s = enc_str t @ r" "length t + 1 < 2 ^ 31"
  shows "re_text s = t"
  unfolding re_text_def re_valuestrsize_def re_valuestr_def assms(1) enc_str_def
  using rd32_nat_pred [OF assms(2)] by simp

lemma re_size_layout:
  assumes e: "NUL \<notin> set (fst e)" "lay_val (snd e)"
  shows "re_size (enc_elem dbits e @ r) = Inr (word_of_nat (esize e))"
  using re_head [OF e, of dbits r] e(2)
  by (cases "snd e")
     (auto simp: re_size_def esize_def re_valuestrsize_def re_objsize_def enc_str_def re_regex_def re_regexFlags_def
        Let_def oid_wf_def kOIDSize_def add_ac)

section \<open>Reading back\<close>

fun dbls_val :: "bval \<Rightarrow> dbl list" and dbls_obj :: "bobj \<Rightarrow> dbl list" where
  "dbls_val (BNumberDouble d) = [d]"
| "dbls_val (BObject fs) = dbls_obj fs"
| "dbls_val (BArray fs) = dbls_obj fs"
| "dbls_val (BCodeWScope s fs) = dbls_obj fs"
| "dbls_val _ = []"
| "dbls_obj [] = []"
| "dbls_obj (e # es) = dbls_val (snd e) @ dbls_obj es"

text \<open>What is read at an element, and from the iterator at the first of a list of fields.\<close>

definition reads_val :: "(dbl \<Rightarrow> u64) \<Rightarrow> (u64 \<Rightarrow> dbl) \<Rightarrow> bval \<Rightarrow> bool" where
  "reads_val dbits u v \<longleftrightarrow> (\<forall>n nm r. NUL \<notin> set nm \<longrightarrow> 2 * vsize v + 2 \<le> n \<longrightarrow> vsize v < 2 ^ 31 \<longrightarrow>
     dec_val n u (enc_elem dbits (nm, v) @ r) = Some v)"

definition reads_fields :: "(dbl \<Rightarrow> u64) \<Rightarrow> (u64 \<Rightarrow> dbl) \<Rightarrow> bobj \<Rightarrow> bool" where
  "reads_fields dbits u fs \<longleftrightarrow> (\<forall>n d p r. drop p d = enc_fields dbits fs @ NUL # r \<longrightarrow> 2 * osize fs \<le> n \<longrightarrow>
     p + osize fs < 2 ^ 31 + 4 \<longrightarrow>
     dec_iter n u d \<lparr>it_pos = int p, it_theend = int (p + length (enc_fields dbits fs))\<rparr> = Some fs)"

lemma dec_obj_layout:
  assumes "lay_obj fs" "reads_fields dbits u fs" "2 * osize fs + 1 \<le> n" "osize fs < 2 ^ 31"
  shows "dec_obj n u (le_enc 4 (osize fs) @ enc_fields dbits fs @ NUL # r) = Some fs"
proof -
  let ?d = "le_enc 4 (osize fs) @ enc_fields dbits fs @ NUL # r"
  obtain k where n: "n = Suc k" "2 * osize fs \<le> k" using assms(3) by (cases n) auto
  have len: "length (enc_fields dbits fs) + 5 = osize fs" using length_enc(2) [OF assms(1)] .
  have sz: "sint (rd32 ?d) = int (osize fs)" using rd32_nat [OF assms(4)] .
  have "BSONObjIterator ?d = \<lparr>it_pos = 4, it_theend = int (osize fs) - 1\<rparr>"
    unfolding BSONObjIterator_def sz using osize_pos [of fs] by (simp add: Let_def)
  also have "\<dots> = \<lparr>it_pos = int 4, it_theend = int (4 + length (enc_fields dbits fs))\<rparr>"
    unfolding len [symmetric] by simp
  finally have "BSONObjIterator ?d = \<lparr>it_pos = int 4, it_theend = int (4 + length (enc_fields dbits fs))\<rparr>" .
  moreover have "dec_iter k u ?d \<lparr>it_pos = int 4, it_theend = int (4 + length (enc_fields dbits fs))\<rparr> = Some fs"
    using assms(2) n(2) assms(4) unfolding reads_fields_def by (elim allE [of _ k] allE [of _ ?d] allE [of _ 4] allE [of _ r]) simp
  ultimately show ?thesis by (simp add: n(1))
qed

lemma reads_val_scalar:
  assumes v: "lay_val v" "\<forall>d \<in> set (dbls_val v). u (dbits d) = d"
    and sub: "\<And>fs. v \<in> {BObject fs, BArray fs} \<or> (\<exists>s. v = BCodeWScope s fs) \<Longrightarrow> reads_fields dbits u fs"
  shows "reads_val dbits u v"
  unfolding reads_val_def
proof (intro allI impI)
  fix n nm r
  assume nm: "NUL \<notin> set nm" and n: "2 * vsize v + 2 \<le> n" and small: "vsize v < 2 ^ 31"
  let ?s = "enc_elem dbits (nm, v) @ r"
  obtain k where k: "n = Suc k" "2 * vsize v + 1 \<le> k" using n by (cases n) auto
  have hd: "re_type ?s = Some (vtype v)" "re_value ?s = enc_val dbits v @ r"
    using re_head [of "(nm, v)" dbits r] nm v(1) by simp_all
  show "dec_val n u ?s = Some v"
  proof (cases v)
    case (BObject fs)
    then show ?thesis
      using hd k v(1) small dec_obj_layout [OF _ sub, of fs k r] by simp
  next
    case (BArray fs)
    then show ?thesis
      using hd k v(1) small dec_obj_layout [OF _ sub, of fs k r] by simp
  next
    case (BCodeWScope t fs)
    let ?scope = "le_enc 4 (osize fs) @ enc_fields dbits fs @ NUL # r"
    have val: "re_value ?s = le_enc 4 (4 + (4 + length t + 1) + osize fs) @ le_enc 4 (length t + 1) @ t @ NUL # ?scope"
      using hd(2) BCodeWScope by (simp add: enc_str_def)
    have len: "length t + 1 < 2 ^ 31" using small BCodeWScope by simp
    have "sint (re_codeWScopeCodeLen ?s) = int (length t + 1)" "sint (re_codeWScopeCodeLen ?s - 1) = int (length t)"
      using rd32_nat [OF len] rd32_nat_pred [OF len] by (simp_all add: re_codeWScopeCodeLen_def val)
    then have "re_codeWScopeScopeData ?s = ?scope"
      "take (nat (sint (re_codeWScopeCodeLen ?s - 1))) (re_codeWScopeCode ?s) = t"
      by (simp_all add: re_codeWScopeScopeData_def re_codeWScopeCode_def val nat_add_distrib)
    then show ?thesis
      using hd(1) BCodeWScope k v(1) small dec_obj_layout [OF _ sub, of fs k r] by simp
  next
    case (BString t)
    then show ?thesis using hd k small re_text_str [of ?s t r] by simp
  next
    case (BCode t)
    then show ?thesis using hd k small re_text_str [of ?s t r] by simp
  next
    case (BSymbol t)
    then show ?thesis using hd k small re_text_str [of ?s t r] by simp
  next
    case (BDBRef t x)
    have val: "re_value ?s = le_enc 4 (length t + 1) @ t @ NUL # oid_data x @ r"
      using hd(2) BDBRef by (simp add: enc_str_def)
    have len: "length t + 1 < 2 ^ 31" using small BDBRef by simp
    have "length (oid_data x) = 12" using v(1) BDBRef by (simp add: oid_wf_def kOIDSize_def)
    then have "re_dbrefOID ?s = x"
      using rd32_nat [OF len, of "t @ NUL # oid_data x @ r"]
      by (simp add: re_dbrefOID_def re_valuestrsize_def val nat_add_distrib del: rd32_of_nat)
    then show ?thesis using hd BDBRef k len re_text_str [of ?s t "oid_data x @ r"] by simp
  next
    case (BBinData c t)
    then have "length t < 2 ^ 31" using small by simp
    from rd32_nat [OF this, of "c # t @ r"]
    show ?thesis using hd BBinData k by (simp add: re_binData_def re_binDataType_def re_valuestrsize_def del: rd32_of_nat)
  next
    case (BRegEx t o')
    then show ?thesis using hd k v by (simp add: re_regex_def re_regexFlags_def)
  qed (use hd k v in \<open>auto simp: re_numberDouble_def re_oid_def re_boolean_def re_date_def
         re_numberInt_def re_timestampValue_def re_numberLong_def oid_wf_def kOIDSize_def NUL_def\<close>)
qed

lemma reads_back:
  shows "lay_val v \<Longrightarrow> \<forall>d \<in> set (dbls_val v). u (dbits d) = d \<Longrightarrow>
      \<forall>fs. v \<in> {BObject fs, BArray fs} \<or> (\<exists>s. v = BCodeWScope s fs) \<longrightarrow> reads_fields dbits u fs"
    and "lay_obj fs \<Longrightarrow> \<forall>d \<in> set (dbls_obj fs). u (dbits d) = d \<Longrightarrow> reads_fields dbits u fs"
proof (induction v and fs rule: enc_val_enc_fields.induct)
  case (18 dbits)
  show ?case unfolding reads_fields_def
  proof (intro allI impI)
    fix n d p r
    assume "2 * osize [] \<le> n"
    then obtain k where "n = Suc k" by (cases n) auto
    then show "dec_iter n u d \<lparr>it_pos = int p, it_theend = int (p + length (enc_fields dbits []))\<rparr> = Some []"
      by (simp add: it_more_def)
  qed
next
  case (19 dbits e es)
  have e: "NUL \<notin> set (fst e)" "lay_val (snd e)" "lay_obj es" using 19(3) by simp_all
  have val: "reads_val dbits u (snd e)"
  proof (rule reads_val_scalar [OF e(2)])
    show dbl: "\<forall>d \<in> set (dbls_val (snd e)). u (dbits d) = d" using 19(4) by simp
    show "reads_fields dbits u fs" if "snd e \<in> {BObject fs, BArray fs} \<or> (\<exists>s. snd e = BCodeWScope s fs)" for fs
      using 19(1) [OF e(2) dbl] that by blast
  qed
  have rest: "reads_fields dbits u es" using 19(2) [OF e(3)] 19(4) by simp
  show ?case unfolding reads_fields_def
  proof (intro allI impI)
    fix n d p r
    assume d: "drop p d = enc_fields dbits (e # es) @ NUL # r" and n: "2 * osize (e # es) \<le> n"
      and small: "p + osize (e # es) < 2 ^ 31 + 4"
    obtain k where k: "n = Suc k" "2 * vsize (snd e) + 2 \<le> k" "2 * osize es \<le> k" using n by (cases n) auto
    have enc: "enc_fields dbits (e # es) = enc_elem dbits e @ enc_fields dbits es" by (simp add: enc_elem_def)
    have len: "length (enc_elem dbits e) = esize e" using e by (simp add: enc_elem_def esize_def)
    have vs: "vsize (snd e) < 2 ^ 31" "esize e < 2 ^ 31" using small osize_ge [of es] by (simp_all add: esize_def)
    let ?it = "\<lparr>it_pos = int p, it_theend = int (p + length (enc_fields dbits (e # es)))\<rparr>"
      and ?it' = "\<lparr>it_pos = int (p + esize e), it_theend = int (p + esize e + length (enc_fields dbits es))\<rparr>"
    have dp: "drop p d = enc_elem dbits e @ enc_fields dbits es @ NUL # r" using d enc by simp
    have "sint (word_of_nat (esize e) :: i32) = int (esize e)"
      using vs(2) by (simp add: signed_of_nat signed_take_bit_int_eq_self)
    then have nxt: "it_next d ?it = Inr (drop p d, ?it')"
      using re_size_layout [OF e(1,2), of dbits "enc_fields dbits es @ NUL # r"] dp len
      by (simp add: it_next_def Let_def enc del: enc_fields.simps)
    have more: "it_more ?it" by (simp add: it_more_def enc_elem_def enc)
    have "dec_val k u (drop p d) = Some (snd e)"
      using val k(2) vs(1) e(1) unfolding reads_val_def dp by (metis prod.collapse)
    moreover have "re_fieldName (drop p d) = fst e" unfolding dp by (rule re_head(3) [OF e(1,2)])
    moreover have "dec_iter k u d ?it' = Some es"
    proof -
      have "drop (p + esize e) d = enc_fields dbits es @ NUL # r"
        using dp len by (metis add.commute append_eq_conv_conj drop_drop)
      moreover have "p + esize e + osize es < 2 ^ 31 + 4" using small by (simp add: esize_def)
      ultimately show ?thesis using rest k(3) unfolding reads_fields_def by blast
    qed
    ultimately show "dec_iter n u d ?it = Some (e # es)" using nxt more by (simp add: k(1))
  qed
qed auto

text \<open>
  Reading inverts the layout: the iterator and the accessors give back the document whose bytes they read,
  at every depth and whatever follows it in memory.
\<close>

lemma dec_obj_enc:
  assumes "lay_obj fs" "osize fs < 2 ^ 31" "\<forall>d \<in> set (dbls_obj fs). u (dbits d) = d" "2 * osize fs + 1 \<le> n"
  shows "dec_obj n u (enc_obj dbits fs @ rest) = Some fs"
  using dec_obj_layout [OF assms(1) reads_back(2) [OF assms(1,3)] assms(4,2), of rest] by (simp add: enc_obj_def)

section \<open>The checked iterator\<close>

lemma strnlen_NUL:
  assumes "NUL \<notin> set s" "int (length s) < n"
  shows "strnlen (s @ NUL # r) n = int (length s)"
proof -
  have "nat n = length s + Suc (nat n - length s - 1)" using assms(2) by simp
  then have "take (nat n) (s @ NUL # r) = s @ NUL # take (nat n - length s - 1) r"
    by (metis append_eq_append_conv2 take_Suc_Cons take_append take_all_iff le_add1 add_diff_cancel_left')
  then have "NUL \<in> set (take (nat n) (s @ NUL # r))" by simp
  then show ?thesis using assms(1) by (simp add: strnlen_def)
qed

lemma re_size_max_layout:
  assumes e: "NUL \<notin> set (fst e)" "lay_val (snd e)"
    and m: "int (esize e) + 1 \<le> maxLen" "maxLen < 2 ^ 31"
  shows "re_size_max maxLen (enc_elem dbits e @ r) = Inr (word_of_nat (esize e))"
proof (cases "vtype (snd e) = RegEx")
  case False
  have "re_size_max maxLen (enc_elem dbits e @ r) = re_size (enc_elem dbits e @ r)"
    using False re_head [OF e, of dbits r] e(2) m(1) osize_ge [of "subelems (snd e)"]
    by (cases "snd e") (auto simp: re_size_max_def re_size_def Let_def esize_def)
  then show ?thesis using re_size_layout [OF e] by simp
next
  case True
  then obtain s t where v: "snd e = BRegEx s t" by (cases "snd e") auto
  let ?remain = "maxLen - int (length (fst e) + 1) - 1"
  have nul: "NUL \<notin> set s" "NUL \<notin> set t" using e(2) v by simp_all
  have val: "re_value (enc_elem dbits e @ r) = s @ NUL # t @ NUL # r" using re_head(5) [OF e] v by simp
  have l1: "strnlen (s @ NUL # t @ NUL # r) ?remain = int (length s)"
    by (rule strnlen_NUL [OF nul(1)]) (use m v in \<open>simp add: esize_def\<close>)
  have x: "(?remain - int (length s) - 1) mod 2 ^ 64 = ?remain - int (length s) - 1"
    using m v by (intro mod_pos_pos_trivial) (simp_all add: esize_def)
  have l2: "strnlen (t @ NUL # r) (?remain - int (length s) - 1) = int (length t)"
    by (rule strnlen_NUL [OF nul(2)]) (use m v in \<open>simp add: esize_def\<close>)
  have d: "drop (nat (int (length s) + 1)) (s @ NUL # t @ NUL # r) = t @ NUL # r" by (simp add: nat_add_distrib)
  have "?remain - int (length s) - 1 \<le> 0x7fffffff" using m v by (simp add: esize_def)
  then show ?thesis
    using re_head [OF e, of dbits r] True
    unfolding re_size_max_def Let_def re_head(4) [OF e] val l1 d x l2 by (simp add: v esize_def add_ac)
qed

section \<open>Properties\<close>

text \<open>
  C22. The checked iteration, which measures every name and size against the end of the document, agrees with the
  unchecked one on every layout.
\<close>

theorem next_checked_agrees:
  assumes e: "NUL \<notin> set (fst e)" "lay_val (snd e)"
    and d: "drop p d = enc_elem dbits e @ enc_fields dbits es @ NUL # r"
    and it: "it_pos it = int p" "it_theend it = int (p + length (enc_elem dbits e @ enc_fields dbits es))"
    and small: "length (enc_elem dbits e @ enc_fields dbits es) + 1 < 2 ^ 31"
  shows "it_next_checked d it = it_next d it \<and> it_next d it = Inr (drop p d, it\<lparr>it_pos := int (p + esize e)\<rparr>)"
proof -
  have len: "length (enc_elem dbits e) = esize e" using e by (simp add: enc_elem_def esize_def)
  let ?m = "it_theend it + 1 - it_pos it"
  have m: "int (esize e) + 1 \<le> ?m" "?m < 2 ^ 31" using small len by (simp_all add: it)
  have pos: "0 < esize e" by (simp add: esize_def)
  have w: "sint (word_of_nat (esize e) :: i32) = int (esize e)"
    using m by (simp add: signed_of_nat signed_take_bit_int_eq_self)
  have "tl (drop p d) = fst e @ NUL # (enc_val dbits (snd e) @ enc_fields dbits es @ NUL # r)"
    unfolding d by (simp add: enc_elem_def)
  then have "strnlen (tl (drop p d)) (?m - 1) = int (length (fst e))"
    using strnlen_NUL [OF e(1), of "?m - 1"] m(1) by (simp add: esize_def)
  then have "it_next_checked d it = Inr (drop p d, it\<lparr>it_pos := int (p + esize e)\<rparr>)"
    using re_size_max_layout [OF e m, of dbits "enc_fields dbits es @ NUL # r"] w pos
    by (simp add: it_next_checked_def Let_def it d)
  moreover have "it_next d it = Inr (drop p d, it\<lparr>it_pos := int (p + esize e)\<rparr>)"
    using re_size_layout [OF e, of dbits "enc_fields dbits es @ NUL # r"] w by (simp add: it_next_def Let_def it d)
  ultimately show ?thesis by simp
qed

lemma next_checked_agrees_witness:
  "it_next_checked (enc_obj (\<lambda>_. 0) [(''a'', BNull)]) \<lparr>it_pos = int 4, it_theend = int (4 + 3)\<rparr>
   = it_next (enc_obj (\<lambda>_. 0) [(''a'', BNull)]) \<lparr>it_pos = int 4, it_theend = int (4 + 3)\<rparr>"
  using next_checked_agrees [of "(''a'', BNull)" 4 "enc_obj (\<lambda>_. 0) [(''a'', BNull)]" "\<lambda>_. 0" "[]" "[]"
      "\<lparr>it_pos = int 4, it_theend = int (4 + 3)\<rparr>"]
  by (simp add: enc_obj_def enc_elem_def NUL_def)

text \<open>
  C38. A regular expression that does not end within the document is not refused by the checked iteration: its
  lengths of -1 wrap to an empty value, and the next element is read from inside its text.
\<close>

theorem unterminated_regex_accepted:
  assumes "NUL \<notin> set nm" "NUL \<notin> set (take (nat remain) text)" "0 < remain" "remain + int (length nm) + 2 < 2 ^ 31"
  shows "re_size_max (remain + int (length nm) + 2) (type_byte RegEx # nm @ NUL # text) = Inr (word_of_nat (length nm + 2))"
proof -
  let ?s = "type_byte RegEx # nm @ NUL # text"
  have t: "re_type ?s = Some RegEx" "\<not> re_eoo ?s" by (simp_all add: re_type_def re_eoo_def)
  then have f: "re_fieldNameSize ?s = length nm + 1" using assms(1) by (simp add: re_fieldNameSize_def re_fieldName_def)
  then have v: "re_value ?s = text" by (simp add: re_value_def)
  have "remain mod 2 ^ 64 = remain" using assms(3,4) by (intro mod_pos_pos_trivial) simp_all
  then show ?thesis
    using assms(2-4) t unfolding re_size_max_def Let_def v f by (simp add: strnlen_def add_ac)
qed

lemma unterminated_regex_accepted_witness:
  "re_size_max 6 (type_byte RegEx # ''a'' @ NUL # ''xyz'') = Inr (word_of_nat (length ''a'' + 2))"
  using unterminated_regex_accepted [of "''a''" 3 "''xyz''"] by (simp add: NUL_def numeral_eq_Suc)

end
