(* ===== verification/BsonValidate.thy ===== *)
theory BsonValidate
  imports BsonBytes
begin

text \<open>
  Validation of the bytes of a document before they are used, \<open>validateBSON\<close> of
  \<open>src/src/mongo/bson/bson_validate.cpp\<close>: the buffer with its unsigned 64-bit position, the frames
  and the state machine.  The machine is a partial function, so a validation that never returns is
  \<open>None\<close>.  An error carries the text of the message and the position of the \<open>_id\<close> element that the
  message prints.
\<close>

unbundle bit_operations_syntax

section \<open>Buffer\<close>

type_synonym verror = "string \<times> u64 option"

record vbuffer =
  vb_data :: string
  vb_position :: u64
  vb_idElem :: "u64 option"

definition vb_maxLength :: "vbuffer \<Rightarrow> u64" where
  "vb_maxLength b = word_of_nat (length (vb_data b))"

definition makeError :: "string \<Rightarrow> u64 option \<Rightarrow> verror" where
  "makeError baseMsg idElem = (baseMsg, idElem)"

definition readNumber :: "nat \<Rightarrow> vbuffer \<Rightarrow> (string \<times> vbuffer) option" where
  "readNumber n b =
     (if vb_position b + word_of_nat n > vb_maxLength b then None
      else Some (take n (drop (unat (vb_position b)) (vb_data b)), b\<lparr>vb_position := vb_position b + word_of_nat n\<rparr>))"

definition readCString :: "vbuffer \<Rightarrow> verror + string \<times> vbuffer" where
  "readCString b =
     (let rest = drop (unat (vb_position b)) (vb_data b); s = takeWhile (\<lambda>c. c \<noteq> NUL) rest
      in if NUL \<notin> set rest then Inl (makeError ''no end of c-string'' (vb_idElem b))
         else Inr (s, b\<lparr>vb_position := vb_position b + (word_of_nat (length s) + 1)\<rparr>))"

definition vskip :: "u64 \<Rightarrow> vbuffer \<Rightarrow> bool \<times> vbuffer" where
  "vskip sz b = (let b' = b\<lparr>vb_position := vb_position b + sz\<rparr> in (vb_position b' < vb_maxLength b', b'))"

definition readUTF8String :: "vbuffer \<Rightarrow> verror + vbuffer" where
  "readUTF8String b =
     (case readNumber 4 b of
        None \<Rightarrow> Inl (makeError ''invalid bson'' (vb_idElem b))
      | Some (n, b1) \<Rightarrow>
          (case vskip (scast (rd32 n - 1)) b1 of
             (False, _) \<Rightarrow> Inl (makeError ''invalid bson'' (vb_idElem b))
           | (True, b2) \<Rightarrow>
               (case readNumber 1 b2 of
                  None \<Rightarrow> Inl (makeError ''invalid bson'' (vb_idElem b))
                | Some (c, b3) \<Rightarrow>
                    if c \<noteq> [NUL] then Inl (makeError ''not null terminated string'' (vb_idElem b)) else Inr b3)))"

section \<open>Frames\<close>

record vframe =
  fr_expectedSize :: i32
  fr_startPosition :: i32

definition sign_bit :: i32 where
  "sign_bit = push_bit 31 1"

definition new_frame :: vframe where
  "new_frame = \<lparr>fr_expectedSize = 0, fr_startPosition = 0\<rparr>"

definition startPosition :: "vframe \<Rightarrow> i32" where
  "startPosition f = fr_startPosition f AND NOT sign_bit"

definition isCodeWithScope :: "vframe \<Rightarrow> bool" where
  "isCodeWithScope f \<longleftrightarrow> fr_startPosition f AND sign_bit \<noteq> 0"

definition setStartPosition :: "i32 \<Rightarrow> vframe \<Rightarrow> vframe" where
  "setStartPosition pos f =
     f\<lparr>fr_startPosition := (fr_startPosition f AND sign_bit) OR (pos AND NOT sign_bit)\<rparr>"

definition setIsCodeWithScope :: "bool \<Rightarrow> vframe \<Rightarrow> vframe" where
  "setIsCodeWithScope cws f =
     (if cws then f\<lparr>fr_startPosition := fr_startPosition f OR sign_bit\<rparr>
      else f\<lparr>fr_startPosition := fr_startPosition f AND NOT sign_bit\<rparr>)"

section \<open>One element\<close>

datatype vstate = BeginObj | WithinObj | EndObj | BeginCodeWScope | EndCodeWScope | VDone

definition skip_to :: "u64 \<Rightarrow> vbuffer \<Rightarrow> vstate \<Rightarrow> verror + vbuffer \<times> vstate" where
  "skip_to sz b st =
     (case vskip sz b of (True, b') \<Rightarrow> Inr (b', st) | (False, _) \<Rightarrow> Inl (makeError ''invalid bson'' (vb_idElem b)))"

definition validateElementInfo :: "vbuffer \<Rightarrow> vstate \<Rightarrow> verror + vbuffer \<times> vstate" where
  "validateElementInfo b st =
     (case readNumber 1 b of
        None \<Rightarrow> Inl (makeError ''invalid bson'' (vb_idElem b))
      | Some (ty, b1) \<Rightarrow>
        if ty = [NUL] then Inr (b1, EndObj)
        else (case readCString b1 of Inl e \<Rightarrow> Inl e | Inr (_, b2) \<Rightarrow>
          (case type_of_byte (hd ty) of
             Some jstOID \<Rightarrow> skip_to 12 b2 st
           | Some NumberInt \<Rightarrow> skip_to 4 b2 st
           | Some Bool \<Rightarrow> skip_to 1 b2 st
           | Some NumberDouble \<Rightarrow> skip_to 8 b2 st
           | Some NumberLong \<Rightarrow> skip_to 8 b2 st
           | Some Timestamp \<Rightarrow> skip_to 8 b2 st
           | Some Date \<Rightarrow> skip_to 8 b2 st
           | Some DBRef \<Rightarrow>
               (case readUTF8String b2 of Inl e \<Rightarrow> Inl e | Inr b3 \<Rightarrow> Inr (snd (vskip 12 b3), st))
           | Some RegEx \<Rightarrow>
               (case readCString b2 of Inl e \<Rightarrow> Inl e | Inr (_, b3) \<Rightarrow>
                 (case readCString b3 of Inl e \<Rightarrow> Inl e | Inr (_, b4) \<Rightarrow> Inr (b4, st)))
           | Some Code \<Rightarrow> (case readUTF8String b2 of Inl e \<Rightarrow> Inl e | Inr b3 \<Rightarrow> Inr (b3, st))
           | Some Symbol \<Rightarrow> (case readUTF8String b2 of Inl e \<Rightarrow> Inl e | Inr b3 \<Rightarrow> Inr (b3, st))
           | Some String \<Rightarrow> (case readUTF8String b2 of Inl e \<Rightarrow> Inl e | Inr b3 \<Rightarrow> Inr (b3, st))
           | Some BinData \<Rightarrow>
               (case readNumber 4 b2 of
                  None \<Rightarrow> Inl (makeError ''invalid bson'' (vb_idElem b))
                | Some (n, b3) \<Rightarrow> skip_to (scast (1 + rd32 n)) b3 st)
           | Some CodeWScope \<Rightarrow> Inr (b2, BeginCodeWScope)
           | Some Object \<Rightarrow> Inr (b2, BeginObj)
           | Some Array \<Rightarrow> Inr (b2, BeginObj)
           | Some MinKey \<Rightarrow> Inr (b2, st)
           | Some MaxKey \<Rightarrow> Inr (b2, st)
           | Some jstNULL \<Rightarrow> Inr (b2, st)
           | Some Undefined \<Rightarrow> Inr (b2, st)
           | _ \<Rightarrow> Inl (makeError ''invalid bson type'' (vb_idElem b)))))"

section \<open>The machine\<close>

record vmachine =
  vm_state :: vstate
  vm_buffer :: vbuffer
  vm_frames :: "vframe list"
  vm_idElemStartPos :: u64

definition vm_fail :: "string \<Rightarrow> vmachine \<Rightarrow> verror + vmachine" where
  "vm_fail msg m = Inl (makeError msg (vb_idElem (vm_buffer m)))"

definition push_frame :: "bool \<Rightarrow> vmachine \<Rightarrow> (string \<times> vmachine) option" where
  "push_frame cws m =
     (let fr = setIsCodeWithScope cws (setStartPosition (ucast (vb_position (vm_buffer m))) new_frame)
      in map_option (\<lambda>(n, b). (n, m\<lparr>vm_buffer := b, vm_frames := fr\<lparr>fr_expectedSize := rd32 n\<rparr> # vm_frames m\<rparr>))
           (readNumber 4 (vm_buffer m)))"

definition withinObj :: "vmachine \<Rightarrow> verror + vmachine" where
  "withinObj m =
     (let atTopLevel = (length (vm_frames m) = 1);
          settled = (atTopLevel \<and> vm_idElemStartPos m \<noteq> 0);
          b = (if settled then (vm_buffer m)\<lparr>vb_idElem := Some (vm_idElemStartPos m)\<rparr> else vm_buffer m);
          idStart = (if settled then 0 else vm_idElemStartPos m);
          elemStartPos = vb_position b
      in case validateElementInfo b WithinObj of
           Inl e \<Rightarrow> Inl e
         | Inr (b', nextState) \<Rightarrow>
             Inr (m\<lparr>vm_state := nextState, vm_buffer := b',
                    vm_idElemStartPos :=
                      (if nextState \<noteq> EndObj \<and> vb_idElem b = None \<and> atTopLevel
                          \<and> c_str (drop (unat (elemStartPos + 1)) (vb_data b)) = ''_id''
                       then elemStartPos else idStart)\<rparr>))"

definition actualLength :: "vmachine \<Rightarrow> i32" where
  "actualLength m = ucast (vb_position (vm_buffer m) - scast (startPosition (hd (vm_frames m))))"

definition vstep :: "vmachine \<Rightarrow> verror + vmachine" where
  "vstep m =
     (case vm_state m of
        BeginObj \<Rightarrow>
          (case push_frame False m of
             None \<Rightarrow> vm_fail ''bson size is larger than buffer size'' m
           | Some (_, m') \<Rightarrow> withinObj m')
      | WithinObj \<Rightarrow> withinObj m
      | EndObj \<Rightarrow>
          if actualLength m \<noteq> fr_expectedSize (hd (vm_frames m))
          then vm_fail ''bson length doesn't match what we found'' m
          else (case tl (vm_frames m) of
                  [] \<Rightarrow> Inr (m\<lparr>vm_state := VDone, vm_frames := []\<rparr>)
                | fr # frs \<Rightarrow>
                    Inr (m\<lparr>vm_state := (if isCodeWithScope fr then EndCodeWScope else WithinObj),
                           vm_frames := fr # frs\<rparr>))
      | BeginCodeWScope \<Rightarrow>
          (case push_frame True m of
             None \<Rightarrow> vm_fail ''invalid bson CodeWScope size'' m
           | Some (_, m') \<Rightarrow>
               (case readUTF8String (vm_buffer m') of
                  Inl e \<Rightarrow> Inl e
                | Inr b \<Rightarrow> Inr (m'\<lparr>vm_state := BeginObj, vm_buffer := b\<rparr>)))
      | EndCodeWScope \<Rightarrow>
          if actualLength m \<noteq> fr_expectedSize (hd (vm_frames m))
          then vm_fail ''bson length for CodeWScope doesn't match what we found'' m
          else (case tl (vm_frames m) of
                  [] \<Rightarrow> vm_fail ''unnested CodeWScope'' m
                | fr # frs \<Rightarrow> Inr (m\<lparr>vm_state := WithinObj, vm_frames := fr # frs\<rparr>))
      | VDone \<Rightarrow> Inr m)"

partial_function (option) validateBSONIterative :: "vmachine \<Rightarrow> (verror + vmachine) option" where
  "validateBSONIterative m =
     (if vm_state m = VDone then Some (Inr m)
      else case vstep m of Inl e \<Rightarrow> Some (Inl e) | Inr m' \<Rightarrow> validateBSONIterative m')"

definition vm_init :: "string \<Rightarrow> vmachine" where
  "vm_init buf =
     \<lparr>vm_state = BeginObj, vm_buffer = \<lparr>vb_data = buf, vb_position = 0, vb_idElem = None\<rparr>, vm_frames = [],
      vm_idElemStartPos = 0\<rparr>"

definition validateBSON :: "string \<Rightarrow> (verror + vmachine) option" where
  "validateBSON originalBuffer =
     (if word_of_nat (length originalBuffer) < (5 :: u64)
      then Some (Inl (''bson data has to be at least 5 bytes'', None))
      else validateBSONIterative (vm_init originalBuffer))"

section \<open>Basic facts\<close>

definition vat :: "string \<Rightarrow> u64 option \<Rightarrow> nat \<Rightarrow> vbuffer" where
  "vat d i p = \<lparr>vb_data = d, vb_position = word_of_nat p, vb_idElem = i\<rparr>"

lemma vat_sel [simp]:
  "vb_data (vat d i p) = d" "vb_position (vat d i p) = word_of_nat p" "vb_idElem (vat d i p) = i"
  "(vat d i p)\<lparr>vb_idElem := j\<rparr> = vat d j p"
  by (simp_all add: vat_def)

lemma word64_le: "m < 2 ^ 64 \<Longrightarrow> n < 2 ^ 64 \<Longrightarrow> (word_of_nat m :: u64) \<le> word_of_nat n \<longleftrightarrow> m \<le> n"
  by (simp add: word_le_nat_alt unsigned_of_nat take_bit_nat_eq_self)

lemma word64_less: "m < 2 ^ 64 \<Longrightarrow> n < 2 ^ 64 \<Longrightarrow> (word_of_nat m :: u64) < word_of_nat n \<longleftrightarrow> m < n"
  by (simp add: word_less_nat_alt unsigned_of_nat take_bit_nat_eq_self)

lemma unat_word64: "n < 2 ^ 64 \<Longrightarrow> unat (word_of_nat n :: u64) = n"
  by (simp add: unsigned_of_nat take_bit_nat_eq_self)

lemma readNumber_vat:
  assumes "length d < 2 ^ 31" "p + n \<le> length d"
  shows "readNumber n (vat d i p) = Some (take n (drop p d), vat d i (p + n))"
proof -
  have "\<not> word_of_nat (length d) < (word_of_nat (p + n) :: u64)"
    using assms word64_le [of "p + n" "length d"] by (simp add: not_less)
  then show ?thesis
    using assms by (simp add: readNumber_def vb_maxLength_def unat_word64 vat_def)
qed

lemma readCString_vat:
  assumes "length d < 2 ^ 31" "drop p d = s @ NUL # r" "NUL \<notin> set s"
  shows "readCString (vat d i p) = Inr (s, vat d i (p + (length s + 1)))"
proof -
  have "p < length d" using assms(2) by (metis append_is_Nil_conv drop_all list.distinct(1) not_less)
  moreover have "takeWhile (\<lambda>c. c \<noteq> NUL) (s @ NUL # r) = s" using assms(3) by (induction s) auto
  ultimately show ?thesis
    using assms by (simp add: readCString_def unat_word64 vat_def add_ac)
qed

lemma vskip_vat:
  assumes "length d < 2 ^ 31" "p + n < length d"
  shows "vskip (word_of_nat n) (vat d i p) = (True, vat d i (p + n))"
proof -
  have "(word_of_nat (p + n) :: u64) < word_of_nat (length d)"
    using assms word64_less [of "p + n" "length d"] by simp
  then show ?thesis by (simp add: vskip_def vb_maxLength_def vat_def)
qed

lemma snd_vskip_vat: "snd (vskip (word_of_nat n) (vat d i p)) = vat d i (p + n)"
  by (simp add: vskip_def vat_def Let_def)

lemma scast_small: "n < 2 ^ 31 \<Longrightarrow> (scast (word_of_nat n :: i32) :: u64) = word_of_nat n"
  by (simp add: signed_of_nat signed_take_bit_int_eq_self)

lemma drop_append_shift: "drop p d = xs @ ys \<Longrightarrow> drop (p + length xs) d = ys"
  by (metis add.commute append_eq_conv_conj drop_drop)

lemma drop_bound: "drop p d = xs \<Longrightarrow> xs \<noteq> [] \<Longrightarrow> p + length xs = length d"
  by (metis drop_eq_Nil le_add_diff_inverse length_drop nat_le_linear)

lemma readUTF8String_vat:
  assumes "length d < 2 ^ 31" "drop p d = enc_str s @ r"
  shows "readUTF8String (vat d i p) = Inr (vat d i (p + (length s + 5)))"
proof -
  have len: "p + (length s + 5) \<le> length d"
    using drop_bound [OF assms(2)] by (simp add: enc_str_def split: if_splits)
  have d4: "drop (p + 4) d = s @ NUL # r"
    using drop_append_shift [of p d "le_enc 4 (length s + 1)" "s @ NUL # r"] assms(2) by (simp add: enc_str_def)
  have "take 4 (drop p d) = le_enc 4 (length s + 1)" using assms(2) by (simp add: enc_str_def)
  then have sz: "rd32 (take 4 (drop p d)) = word_of_nat (length s + 1)"
    using rd32_of_nat [of "length s + 1" "[]"] by simp
  have skip: "vskip (scast (rd32 (take 4 (drop p d)) - 1)) (vat d i (p + 4)) = (True, vat d i (p + 4 + length s))"
    using vskip_vat [OF assms(1), of "p + 4" "length s" i] len assms(1) by (simp add: sz scast_small)
  have "drop (p + 4 + length s) d = NUL # r" using drop_append_shift [OF d4] by simp
  then show ?thesis
    using assms(1) len by (simp add: readUTF8String_def readNumber_vat skip add_ac)
qed
lemma bits_sign: "bit sign_bit n \<longleftrightarrow> n = 31"
  unfolding sign_bit_def by (simp only: bit_push_bit_iff bit_1_iff) auto

definition frame_at :: "bool \<Rightarrow> nat \<Rightarrow> nat \<Rightarrow> vframe" where
  "frame_at cws p n =
     (setIsCodeWithScope cws (setStartPosition (word_of_nat p) new_frame))\<lparr>fr_expectedSize := word_of_nat n\<rparr>"

lemma frame_at_expected [simp]: "fr_expectedSize (frame_at cws p n) = word_of_nat n"
  by (simp add: frame_at_def)

lemma high_bit: "p < 2 ^ 31 \<Longrightarrow> \<not> bit (word_of_nat p :: i32) 31"
proof -
  assume p: "p < 2 ^ 31"
  then have "unat (word_of_nat p :: i32) = p" by (simp add: unsigned_of_nat take_bit_nat_eq_self)
  then have "bit (word_of_nat p :: i32) 31 \<longleftrightarrow> bit p 31" by (metis bit_unsigned_iff possible_bit_nat)
  then show ?thesis using p by (simp add: bit_iff_odd)
qed

lemma frame_at_start [simp]: "p < 2 ^ 31 \<Longrightarrow> startPosition (frame_at cws p n) = word_of_nat p"
  by (rule bit_word_eqI)
     (auto simp: startPosition_def frame_at_def setIsCodeWithScope_def setStartPosition_def new_frame_def
        bit_and_iff bit_or_iff bit_not_iff bits_sign high_bit)

lemma frame_at_cws [simp]: "isCodeWithScope (frame_at cws p n) = cws"
proof -
  have "fr_startPosition (frame_at cws p n) AND sign_bit = (if cws then sign_bit else 0)"
    by (rule bit_word_eqI)
       (auto simp: frame_at_def setIsCodeWithScope_def setStartPosition_def new_frame_def
          bit_and_iff bit_or_iff bit_not_iff bits_sign)
  moreover have "sign_bit \<noteq> 0" using bits_sign [of 31] by auto
  ultimately show ?thesis by (simp add: isCodeWithScope_def)
qed

definition mat :: "vstate \<Rightarrow> string \<Rightarrow> u64 option \<Rightarrow> nat \<Rightarrow> vframe list \<Rightarrow> u64 \<Rightarrow> vmachine" where
  "mat st d i p frs j = \<lparr>vm_state = st, vm_buffer = vat d i p, vm_frames = frs, vm_idElemStartPos = j\<rparr>"

lemma mat_sel [simp]:
  "vm_state (mat st d i p frs j) = st" "vm_buffer (mat st d i p frs j) = vat d i p"
  "vm_frames (mat st d i p frs j) = frs" "vm_idElemStartPos (mat st d i p frs j) = j"
  "(mat st d i p frs j)\<lparr>vm_state := st'\<rparr> = mat st' d i p frs j"
  "(mat st d i p frs j)\<lparr>vm_frames := frs'\<rparr> = mat st d i p frs' j"
  "(mat st d i p frs j)\<lparr>vm_buffer := vat d' i' p'\<rparr> = mat st d' i' p' frs j"
  "(mat st d i p frs j)\<lparr>vm_idElemStartPos := j'\<rparr> = mat st d i p frs j'"
  by (simp_all add: mat_def)

lemma validateBSONIterative_step:
  "vm_state m \<noteq> VDone \<Longrightarrow> vstep m = Inr m' \<Longrightarrow> validateBSONIterative m = validateBSONIterative m'"
  by (subst validateBSONIterative.simps) simp

lemma validateBSON_start:
  assumes "5 \<le> length d" "length d < 2 ^ 31"
  shows "validateBSON d = validateBSONIterative (mat BeginObj d None 0 [] 0)"
proof -
  have "\<not> word_of_nat (length d) < (word_of_nat 5 :: u64)" using word64_less [of "length d" 5] assms by simp
  moreover have "vm_init d = mat BeginObj d None 0 [] 0" by (simp add: vm_init_def mat_def vat_def)
  ultimately show ?thesis by (simp add: validateBSON_def)
qed

lemma withinObj_mat:
  assumes "\<And>i. validateElementInfo (vat d i p) WithinObj = Inr (vat d i p', st')"
  shows "\<exists>i' j'. withinObj (mat st d i p frs j) = Inr (mat st' d i' p' frs j')"
  by (auto simp: withinObj_def Let_def assms)

lemma withinObj_run:
  assumes "\<And>i. validateElementInfo (vat d i p) WithinObj = Inr (vat d i p', st')"
  shows "\<exists>i' j'. validateBSONIterative (mat WithinObj d i p frs j) = validateBSONIterative (mat st' d i' p' frs j')"
proof -
  obtain i' j' where "withinObj (mat WithinObj d i p frs j) = Inr (mat st' d i' p' frs j')"
    using withinObj_mat [OF assms] by blast
  then have "vstep (mat WithinObj d i p frs j) = Inr (mat st' d i' p' frs j')" by (simp add: vstep_def)
  then show ?thesis using validateBSONIterative_step by force
qed

section \<open>Every layout is accepted\<close>

lemma skip_to_vat:
  "length d < 2 ^ 31 \<Longrightarrow> p + n < length d \<Longrightarrow> skip_to (word_of_nat n) (vat d i p) st = Inr (vat d i (p + n), st)"
  by (simp add: skip_to_def vskip_vat)

text \<open>The head of an element: its type byte and its name.\<close>

lemma validateElementInfo_head:
  assumes "length d < 2 ^ 31" "drop p d = type_byte t # nm @ NUL # w" "NUL \<notin> set nm" "t \<noteq> EOO"
  shows "readNumber 1 (vat d i p) = Some ([type_byte t], vat d i (p + 1))"
    and "readCString (vat d i (p + 1)) = Inr (nm, vat d i (p + 1 + (length nm + 1)))"
    and "drop (p + 1 + (length nm + 1)) d = w"
proof -
  have len: "p + 1 \<le> length d" using drop_bound [OF assms(2)] by simp
  show "readNumber 1 (vat d i p) = Some ([type_byte t], vat d i (p + 1))"
    using readNumber_vat [OF assms(1) len] assms(2) by simp
  have d1: "drop (p + 1) d = nm @ NUL # w"
    using drop_append_shift [of p d "[type_byte t]"] assms(2) by simp
  then show "readCString (vat d i (p + 1)) = Inr (nm, vat d i (p + 1 + (length nm + 1)))"
    using readCString_vat [OF assms(1) _ assms(3)] by blast
  show "drop (p + 1 + (length nm + 1)) d = w"
    using drop_append_shift [of "p + 1" d "nm @ [NUL]" w] d1 by simp
qed

fun is_doc :: "bval \<Rightarrow> bool" where
  "is_doc (BObject _) = True"
| "is_doc (BArray _) = True"
| "is_doc (BCodeWScope _ _) = True"
| "is_doc _ = False"

lemma vtype_lay: "lay_val v \<Longrightarrow> vtype v \<noteq> EOO"
  by (cases v) auto

text \<open>The value after the head, for the types that are not documents.\<close>

lemma validateElementInfo_scalar:
  assumes d: "length d < 2 ^ 31" "drop p d = type_byte (vtype v) # nm @ NUL # enc_val dbits v @ r" "NUL \<notin> set nm"
    and v: "lay_val v" "\<not> is_doc v" "r \<noteq> []"
  shows "validateElementInfo (vat d i p) WithinObj = Inr (vat d i (p + 1 + (length nm + 1) + vsize v), WithinObj)"
proof -
  let ?q = "p + 1 + (length nm + 1)"
  note hd = validateElementInfo_head [OF d vtype_lay [OF v(1)]]
  have len: "?q + vsize v < length d"
    using drop_bound [OF hd(3)] v(1,3) by (cases r) simp_all
  show ?thesis
  proof (cases v)
    case (BString s)
    then show ?thesis
      using hd readUTF8String_vat [OF d(1) hd(3) [unfolded BString enc_val.simps]]
      by (simp add: validateElementInfo_def add_ac)
  next
    case (BCode s)
    then show ?thesis
      using hd readUTF8String_vat [OF d(1) hd(3) [unfolded BCode enc_val.simps]]
      by (simp add: validateElementInfo_def add_ac)
  next
    case (BSymbol s)
    then show ?thesis
      using hd readUTF8String_vat [OF d(1) hd(3) [unfolded BSymbol enc_val.simps]]
      by (simp add: validateElementInfo_def add_ac)
  next
    case (BBinData c s)
    then have "take 4 (drop ?q d) = le_enc 4 (length s)" using hd(3) by simp
    then have "rd32 (take 4 (drop ?q d)) = word_of_nat (length s)"
      using rd32_of_nat [of "length s" "[]"] by simp
    then show ?thesis
      using BBinData hd len d(1) skip_to_vat [OF d(1), of "?q + 4" "1 + length s" i]
        scast_small [of "1 + length s"] readNumber_vat [OF d(1), of ?q 4 i]
      by (simp add: validateElementInfo_def add_ac)
  next
    case (BRegEx s t)
    then have dq: "drop ?q d = s @ NUL # (t @ NUL # r)" using hd(3) by simp
    note rs = readCString_vat [OF d(1) dq]
    have "drop (?q + (length s + 1)) d = t @ NUL # r"
      using drop_append_shift [of ?q d "s @ [NUL]" "t @ NUL # r"] dq by simp
    note rt = readCString_vat [OF d(1) this]
    show ?thesis
      using BRegEx hd rs rt v by (simp add: validateElementInfo_def add_ac)
  next
    case (BDBRef s x)
    then have "drop ?q d = enc_str s @ (oid_data x @ r)" using hd(3) by simp
    then show ?thesis
      using BDBRef hd readUTF8String_vat [OF d(1), of ?q s "oid_data x @ r" i] snd_vskip_vat [of 12]
      by (simp add: validateElementInfo_def add_ac)
  qed (use hd v len d(1) skip_to_vat [OF d(1), of ?q 4 i] skip_to_vat [OF d(1), of ?q 8 i]
         skip_to_vat [OF d(1), of ?q 12 i] skip_to_vat [OF d(1), of ?q 1 i]
       in \<open>simp_all add: validateElementInfo_def add_ac\<close>)
qed

definition after_obj :: "vframe list \<Rightarrow> vstate" where
  "after_obj frs = (case frs of [] \<Rightarrow> VDone | fr # _ \<Rightarrow> if isCodeWithScope fr then EndCodeWScope else WithinObj)"

lemma withinObj_state [simp]: "withinObj (mat BeginObj d i p frs j) = withinObj (mat WithinObj d i p frs j)"
  by (auto simp: withinObj_def mat_def Let_def split: sum.splits)

lemma push_frame_mat:
  assumes "length d < 2 ^ 31" "drop p d = le_enc 4 n @ w"
  shows "\<exists>x. push_frame cws (mat st d i p frs j) = Some (x, mat st d i (p + 4) (frame_at cws p n # frs) j)"
proof -
  have len: "p + 4 \<le> length d" using drop_bound [OF assms(2)] by simp
  have "rd32 (take 4 (drop p d)) = word_of_nat n" using assms(2) rd32_of_nat [of n "[]"] by simp
  moreover have "ucast (word_of_nat p :: u64) = (word_of_nat p :: i32)" by (simp add: unsigned_of_nat word_of_nat_eq_iff)
  ultimately show ?thesis
    using readNumber_vat [OF assms(1) len, of i]
    by (simp add: push_frame_def Let_def frame_at_def mat_def)
qed

lemma begin_run:
  assumes "length d < 2 ^ 31" "drop p d = le_enc 4 n @ w"
  shows "validateBSONIterative (mat BeginObj d i p frs j)
       = validateBSONIterative (mat WithinObj d i (p + 4) (frame_at False p n # frs) j)"
  using push_frame_mat [OF assms, of False BeginObj i frs j]
  by (auto simp: validateBSONIterative.simps [of "mat BeginObj d i p frs j"]
     validateBSONIterative.simps [of "mat WithinObj d i (p + 4) (frame_at False p n # frs) j"] vstep_def)

lemma actualLength_mat:
  assumes "s + n < 2 ^ 31"
  shows "actualLength (mat st d i (s + n) (frame_at cws s k # frs) j) = word_of_nat n"
  using assms scast_small [of s]
  by (simp add: actualLength_def unsigned_of_nat word_of_nat_eq_iff)

lemma end_run:
  assumes "s + n < 2 ^ 31"
  shows "validateBSONIterative (mat EndObj d i (s + n) (frame_at cws s n # frs) j)
       = validateBSONIterative (mat (after_obj frs) d i (s + n) frs j)"
  by (rule validateBSONIterative_step)
     (use actualLength_mat [OF assms] in \<open>auto simp: vstep_def after_obj_def split: list.splits\<close>)

lemma end_cws_run:
  assumes "s + n < 2 ^ 31"
  shows "validateBSONIterative (mat EndCodeWScope d i (s + n) (frame_at cws s n # fr # frs) j)
       = validateBSONIterative (mat WithinObj d i (s + n) (fr # frs) j)"
  by (rule validateBSONIterative_step)
     (use actualLength_mat [OF assms] in \<open>auto simp: vstep_def\<close>)

lemma begin_cws_run:
  assumes d: "length d < 2 ^ 31" "drop p d = le_enc 4 n @ enc_str s @ w"
  shows "validateBSONIterative (mat BeginCodeWScope d i p frs j)
       = validateBSONIterative (mat BeginObj d i (p + 4 + (length s + 5)) (frame_at True p n # frs) j)"
proof (rule validateBSONIterative_step)
  have "drop (p + 4) d = enc_str s @ w" using drop_append_shift [OF d(2)] by simp
  then show "vstep (mat BeginCodeWScope d i p frs j) = Inr (mat BeginObj d i (p + 4 + (length s + 5)) (frame_at True p n # frs) j)"
    using push_frame_mat [OF d, of True BeginCodeWScope i frs j] readUTF8String_vat [OF d(1), of "p + 4" s w i]
    by (auto simp: vstep_def)
qed simp

text \<open>The fields of a document are passed, from any position and inside any frames.\<close>

definition fields_ok :: "(dbl \<Rightarrow> u64) \<Rightarrow> string \<Rightarrow> bobj \<Rightarrow> bool" where
  "fields_ok dbits d fs \<longleftrightarrow> (\<forall>p r i frs j. frs \<noteq> [] \<longrightarrow> \<not> isCodeWithScope (hd frs) \<longrightarrow>
     drop p d = enc_fields dbits fs @ NUL # r \<longrightarrow>
     (\<exists>i' j'. validateBSONIterative (mat WithinObj d i p frs j)
       = validateBSONIterative (mat EndObj d i' (p + length (enc_fields dbits fs) + 1) frs j')))"

lemma doc_run:
  assumes d: "length d < 2 ^ 31" "drop p d = le_enc 4 (osize fs) @ enc_fields dbits fs @ NUL # r"
    and ok: "lay_obj fs" "fields_ok dbits d fs"
  shows "\<exists>i' j'. validateBSONIterative (mat BeginObj d i p frs j)
    = validateBSONIterative (mat (after_obj frs) d i' (p + osize fs) frs j')"
proof -
  have sz: "p + 4 + length (enc_fields dbits fs) + 1 = p + osize fs"
    using length_enc(2) [OF ok(1), of dbits] by simp
  have len: "p + osize fs < 2 ^ 31" using drop_bound [OF d(2)] d(1) sz by simp
  have "drop (p + 4) d = enc_fields dbits fs @ NUL # r" using drop_append_shift [OF d(2)] by simp
  then obtain i' j' where "validateBSONIterative (mat WithinObj d i (p + 4) (frame_at False p (osize fs) # frs) j)
      = validateBSONIterative (mat EndObj d i' (p + osize fs) (frame_at False p (osize fs) # frs) j')"
    using ok(2) sz unfolding fields_ok_def by (metis frame_at_cws list.sel(1) list.distinct(1))
  then show ?thesis using begin_run [OF d] end_run [OF len] by metis
qed

lemma cws_run:
  assumes d: "length d < 2 ^ 31" "drop p d = le_enc 4 (9 + length s + osize fs) @ enc_str s
      @ le_enc 4 (osize fs) @ enc_fields dbits fs @ NUL # r"
    and ok: "lay_obj fs" "fields_ok dbits d fs"
  shows "\<exists>i' j'. validateBSONIterative (mat BeginCodeWScope d i p (fr # frs) j)
    = validateBSONIterative (mat WithinObj d i' (p + (9 + length s + osize fs)) (fr # frs) j')"
proof -
  let ?n = "9 + length s + osize fs" and ?q = "p + 4 + (length s + 5)"
  have len: "p + ?n < 2 ^ 31" using drop_bound [OF d(2)] d(1) length_enc(2) [OF ok(1), of dbits] by simp
  have "drop (p + 4) d = enc_str s @ le_enc 4 (osize fs) @ enc_fields dbits fs @ NUL # r"
    using drop_append_shift [OF d(2)] by simp
  from drop_append_shift [OF this]
  have dq: "drop ?q d = le_enc 4 (osize fs) @ enc_fields dbits fs @ NUL # r" by (simp add: add_ac)
  have q: "?q + osize fs = p + ?n" by simp
  have after: "after_obj (frame_at True p ?n # fr # frs) = EndCodeWScope" by (simp add: after_obj_def)
  show ?thesis
    using doc_run [OF d(1) dq ok, of i "frame_at True p ?n # fr # frs" j, unfolded q after]
      begin_cws_run [OF d, of i "fr # frs" j] end_cws_run [OF len, of d _ True fr frs] by metis
qed

fun sub_doc :: "bval \<Rightarrow> bobj option" where
  "sub_doc (BObject fs) = Some fs"
| "sub_doc (BArray fs) = Some fs"
| "sub_doc (BCodeWScope _ fs) = Some fs"
| "sub_doc _ = None"

lemma elem_run:
  assumes d: "length d < 2 ^ 31" "drop p d = type_byte (vtype v) # nm @ NUL # enc_val dbits v @ r" "NUL \<notin> set nm"
    and v: "lay_val v" "r \<noteq> []" "\<forall>fs. sub_doc v = Some fs \<longrightarrow> fields_ok dbits d fs"
    and frs: "frs = fr # frs'" "\<not> isCodeWithScope fr"
  shows "\<exists>i' j'. validateBSONIterative (mat WithinObj d i p frs j)
    = validateBSONIterative (mat WithinObj d i' (p + 1 + (length nm + 1) + vsize v) frs j')"
proof -
  let ?q = "p + 1 + (length nm + 1)"
  note hd = validateElementInfo_head [OF d vtype_lay [OF v(1)]]
  have after: "after_obj frs = WithinObj" using frs by (simp add: after_obj_def)
  have obj: "\<exists>i' j'. validateBSONIterative (mat WithinObj d i p frs j)
      = validateBSONIterative (mat WithinObj d i' (?q + osize fs) frs j')"
    if "vtype v \<in> {Object, Array}" "drop ?q d = le_enc 4 (osize fs) @ enc_fields dbits fs @ NUL # r"
      "lay_obj fs" "fields_ok dbits d fs" for fs
  proof -
    have "validateElementInfo (vat d k p) WithinObj = Inr (vat d k ?q, BeginObj)" for k
      using hd(1,2) [of k] that(1) by (auto simp: validateElementInfo_def)
    from withinObj_run [OF this, of i frs j] show ?thesis using doc_run [OF d(1) that(2-4)] after by metis
  qed
  show ?thesis
  proof (cases "is_doc v")
    case False
    then show ?thesis using withinObj_run [OF validateElementInfo_scalar [OF d v(1) _ v(2)]] by blast
  next
    case True
    then show ?thesis
    proof (cases v)
      case (BObject fs)
      then show ?thesis using obj [of fs] hd(3) v by simp
    next
      case (BArray fs)
      then show ?thesis using obj [of fs] hd(3) v by simp
    next
      case (BCodeWScope s fs)
      have dq: "drop ?q d = le_enc 4 (9 + length s + osize fs) @ enc_str s
          @ le_enc 4 (osize fs) @ enc_fields dbits fs @ NUL # r"
        using hd(3) BCodeWScope by simp
      have "validateElementInfo (vat d k p) WithinObj = Inr (vat d k ?q, BeginCodeWScope)" for k
        using hd(1,2) [of k] BCodeWScope by (simp add: validateElementInfo_def)
      from withinObj_run [OF this, of i frs j] obtain i' j' where
        within: "validateBSONIterative (mat WithinObj d i p frs j)
          = validateBSONIterative (mat BeginCodeWScope d i' ?q frs j')" by blast
      have "vsize v = 9 + length s + osize fs" using BCodeWScope by simp
      then show ?thesis
        using cws_run [OF d(1) dq, of i' fr frs' j'] within BCodeWScope frs v by simp
    qed auto
  qed
qed

lemma fields_accepted:
  assumes d: "length d < 2 ^ 31"
  shows "lay_val v \<Longrightarrow> \<forall>fs. sub_doc v = Some fs \<longrightarrow> fields_ok dbits d fs"
    and "lay_obj fs \<Longrightarrow> fields_ok dbits d fs"
proof (induction v and fs rule: enc_val_enc_fields.induct)
  case (18 dbits)
  have "validateElementInfo (vat d k p) WithinObj = Inr (vat d k (p + 1), EndObj)" if "drop p d = NUL # r" for k p r
    using readNumber_vat [OF d, of p 1 k] that drop_bound [OF that] by (simp add: validateElementInfo_def)
  then show ?case using withinObj_run unfolding fields_ok_def by simp
next
  case (19 dbits e es)
  show ?case
    unfolding fields_ok_def
  proof (intro allI impI)
    fix p r i j and frs :: "vframe list"
    assume frs: "frs \<noteq> []" "\<not> isCodeWithScope (hd frs)" and p: "drop p d = enc_fields dbits (e # es) @ NUL # r"
    let ?p = "p + 1 + (length (fst e) + 1) + vsize (snd e)"
    have dp: "drop p d = type_byte (vtype (snd e)) # fst e @ NUL # enc_val dbits (snd e) @ (enc_fields dbits es @ NUL # r)"
      using p by simp
    obtain i' j' where one: "validateBSONIterative (mat WithinObj d i p frs j)
        = validateBSONIterative (mat WithinObj d i' ?p frs j')"
      using elem_run [OF d dp, where i = i and j = j and frs = frs and fr = "hd frs" and frs' = "tl frs"] 19 frs by auto
    have "drop ?p d = enc_fields dbits es @ NUL # r"
      using drop_append_shift [of p d "type_byte (vtype (snd e)) # fst e @ NUL # enc_val dbits (snd e)"] dp 19 by (simp add: add.assoc)
    then obtain i'' j'' where "validateBSONIterative (mat WithinObj d i' ?p frs j')
        = validateBSONIterative (mat EndObj d i'' (?p + length (enc_fields dbits es) + 1) frs j'')"
      using 19 frs unfolding fields_ok_def by (metis lay_obj.simps(2))
    with one show "\<exists>i' j'. validateBSONIterative (mat WithinObj d i p frs j)
        = validateBSONIterative (mat EndObj d i' (p + length (enc_fields dbits (e # es)) + 1) frs j')"
      using 19 by (auto simp: add_ac)
  qed
qed auto

lemma validateBSON_layout:
  assumes "lay_obj fs" "osize fs + length rest < 2 ^ 31"
  shows "\<exists>i j. validateBSON (enc_obj dbits fs @ rest)
    = Some (Inr (mat VDone (enc_obj dbits fs @ rest) i (osize fs) [] j))"
proof -
  let ?d = "enc_obj dbits fs @ rest"
  have len: "length ?d = osize fs + length rest"
    using length_enc(2) [OF assms(1), of dbits] by (simp add: enc_obj_def)
  have d: "length ?d < 2 ^ 31" using len assms(2) by simp
  have "drop 0 ?d = le_enc 4 (osize fs) @ enc_fields dbits fs @ NUL # rest" by (simp add: enc_obj_def)
  from doc_run [OF d this assms(1) fields_accepted(2) [OF d assms(1)], of None "[]" 0]
  obtain i j where "validateBSONIterative (mat BeginObj ?d None 0 [] 0)
      = validateBSONIterative (mat VDone ?d i (osize fs) [] j)" by (auto simp: after_obj_def)
  then have "validateBSON ?d = Some (Inr (mat VDone ?d i (osize fs) [] j))"
    using validateBSON_start [OF _ d] osize_ge [of fs] len
      validateBSONIterative.simps [of "mat VDone ?d i (osize fs) [] j"] by simp
  then show ?thesis by blast
qed

section \<open>An accepted buffer holds the whole document\<close>

text \<open>What every successful read keeps: the bytes, and a position that has not run away.\<close>

definition reads :: "nat \<Rightarrow> vbuffer \<Rightarrow> vbuffer \<Rightarrow> bool" where
  "reads k b b' \<longleftrightarrow> vb_data b' = vb_data b \<and> unat (vb_position b') \<le> length (vb_data b) + k"

lemma reads_mono: "reads 0 b b' \<Longrightarrow> reads k b b'"
  by (simp add: reads_def)

lemma reads_trans: "reads k b b' \<Longrightarrow> reads k' b' b'' \<Longrightarrow> reads k' b b''"
  by (simp add: reads_def)

lemma reads_max: "length (vb_data b) < 2 ^ 31 \<Longrightarrow> vb_data b' = vb_data b \<Longrightarrow> vb_position b' \<le> vb_maxLength b \<Longrightarrow> reads 0 b b'"
  by (simp add: reads_def vb_maxLength_def word_le_nat_alt unat_word64)

lemma readNumber_SomeD:
  "readNumber n b = Some (x, b') \<Longrightarrow> length (vb_data b) < 2 ^ 31 \<Longrightarrow>
   reads 0 b b' \<and> vb_position b' = vb_position b + word_of_nat n \<and> x = take n (drop (unat (vb_position b)) (vb_data b))"
  by (auto simp: readNumber_def not_less intro!: reads_max split: if_splits)

lemma readCString_InrD:
  assumes "readCString b = Inr (s, b')" "length (vb_data b) < 2 ^ 31"
  shows "reads 0 b b'"
proof -
  let ?rest = "drop (unat (vb_position b)) (vb_data b)" and ?n = "length s + 1"
  have nul: "NUL \<in> set ?rest" and s: "s = takeWhile (\<lambda>c. c \<noteq> NUL) ?rest"
    and b': "b' = b\<lparr>vb_position := vb_position b + (word_of_nat (length s) + 1)\<rparr>"
    using assms(1) by (auto simp: readCString_def Let_def split: if_splits)
  have "length s < length ?rest"
    using nul length_takeWhile_le [of "\<lambda>c. c \<noteq> NUL" ?rest] unfolding s
    by (metis (mono_tags, lifting) le_neq_implies_less set_takeWhileD takeWhile_eq_all_conv takeWhile_eq_take take_all_iff linorder_not_le)
  then have le: "unat (vb_position b) + ?n \<le> length (vb_data b)" by simp
  have "vb_position b' = word_of_nat (unat (vb_position b) + ?n)" by (simp add: b')
  then show ?thesis using le assms(2) unat_word64 [of "unat (vb_position b) + ?n"] b' by (simp add: reads_def add_ac)
qed

lemma vskip_TrueD: "vskip n b = (True, b') \<Longrightarrow> length (vb_data b) < 2 ^ 31 \<Longrightarrow> reads 0 b b'"
  by (auto simp: vskip_def Let_def vb_maxLength_def intro!: reads_max)

lemma skip_to_InrD: "skip_to n b st = Inr (b', st') \<Longrightarrow> length (vb_data b) < 2 ^ 31 \<Longrightarrow> st' = st \<and> reads 0 b b'"
  by (auto simp: skip_to_def dest: vskip_TrueD split: prod.splits bool.splits)

lemma readUTF8String_InrD:
  assumes "readUTF8String b = Inr b'" "length (vb_data b) < 2 ^ 31"
  shows "reads 0 b b'"
proof -
  obtain n b1 c b2 where "readNumber 4 b = Some (n, b1)" "vskip (scast (rd32 n - 1)) b1 = (True, b2)"
    and c: "readNumber 1 b2 = Some (c, b')"
    using assms(1) by (auto simp: readUTF8String_def split: option.splits prod.splits bool.splits if_splits)
  then have "vb_data b2 = vb_data b"
    using readNumber_SomeD [of 4 b] vskip_TrueD [of _ b1 b2] assms(2) by (auto simp: reads_def)
  then show ?thesis using readNumber_SomeD [OF c, THEN conjunct1] assms(2) by (simp add: reads_def)
qed

lemma snd_vskip_reads: "reads 0 b b' \<Longrightarrow> reads 12 b (snd (vskip 12 b'))"
proof -
  have "unat (vb_position b' + 12) \<le> unat (vb_position b') + 12" by (simp add: unat_word_ariths)
  then show "reads 0 b b' \<Longrightarrow> reads 12 b (snd (vskip 12 b'))"
    by (auto simp: reads_def vskip_def Let_def)
qed

lemma validateElementInfo_InrD:
  assumes "validateElementInfo b st = Inr (b', st')" "length (vb_data b) < 2 ^ 31"
  shows "reads 12 b b' \<and> (st' = EndObj \<longrightarrow> st \<noteq> EndObj \<longrightarrow> reads 0 b b' \<and> vb_position b' = vb_position b + 1)
    \<and> st' \<in> {st, EndObj, BeginObj, BeginCodeWScope}"
proof -
  obtain ty b1 where ty: "readNumber 1 b = Some (ty, b1)"
    using assms(1) by (auto simp: validateElementInfo_def split: option.splits)
  note b1 = readNumber_SomeD [OF ty assms(2)]
  show ?thesis
  proof (cases "ty = [NUL]")
    case True
    then show ?thesis using assms(1) ty b1 by (auto simp: validateElementInfo_def intro: reads_mono)
  next
    case False
    then obtain nm b2 where nm: "readCString b1 = Inr (nm, b2)"
      using assms(1) ty by (auto simp: validateElementInfo_def split: sum.splits)
    have d: "vb_data b2 = vb_data b" and len: "length (vb_data b2) < 2 ^ 31"
      using readCString_InrD [OF nm] b1 assms(2) by (auto simp: reads_def)
    have self: "reads 0 b2 b2" using readCString_InrD [OF nm] d b1 assms(2) by (auto simp: reads_def)
    have skip: "reads 12 b2 b' \<and> st' = st" if "skip_to n b2 st = Inr (b', st')" for n
      using skip_to_InrD [OF that len] reads_mono by blast
    have bin: "reads 12 b2 b' \<and> st' = st" if "readNumber 4 b2 = Some (n, b3)" "skip_to k b3 st = Inr (b', st')" for n b3 k
      using readNumber_SomeD [OF that(1) len] skip_to_InrD [OF that(2)] len by (auto simp: reads_def)
    have re: "reads 12 b2 b'" if "readCString b2 = Inr (x, b3)" "readCString b3 = Inr (y, b')" for x y b3
      using readCString_InrD [OF that(1) len] readCString_InrD [OF that(2)] len by (auto simp: reads_def)
    have utf: "reads 12 b2 b3 \<and> reads 12 b2 (snd (vskip 12 b3))" if "readUTF8String b2 = Inr b3" for b3
      using readUTF8String_InrD [OF that len] reads_mono snd_vskip_reads by blast
    note val = assms(1) [unfolded validateElementInfo_def ty nm option.case prod.case sum.case if_not_P [OF False]]
    have "reads 12 b2 b' \<and> st' \<in> {st, BeginObj, BeginCodeWScope}"
    proof (cases "type_of_byte (hd ty)")
      case (Some t)
      show ?thesis
        by (cases t)
           (use val [unfolded Some option.case] skip bin re utf reads_mono [OF self]
             in \<open>auto split: sum.splits option.splits\<close>)
    qed (use val in simp)
    then show ?thesis using d by (auto simp: reads_def)
  qed
qed

definition frames_inv :: "string \<Rightarrow> vframe list \<Rightarrow> bool" where
  "frames_inv d frs \<longleftrightarrow> frs \<noteq> [] \<and> fr_expectedSize (last frs) = rd32 d \<and> startPosition (last frs) = 0"

definition vinv :: "string \<Rightarrow> vmachine \<Rightarrow> bool" where
  "vinv d m \<longleftrightarrow>
     (let pos = vb_position (vm_buffer m); whole = (0 < pos \<and> unat pos \<le> length d)
      in vb_data (vm_buffer m) = d \<and> unat pos \<le> length d + 12 \<and>
         (case vm_state m of
            VDone \<Rightarrow> whole \<and> ucast pos = rd32 d
          | BeginObj \<Rightarrow> frames_inv d (vm_frames m) \<or> vm_frames m = [] \<and> pos = 0
          | EndObj \<Rightarrow> frames_inv d (vm_frames m) \<and> whole
          | _ \<Rightarrow> frames_inv d (vm_frames m)))"

lemma frames_inv_Cons: "frames_inv d (fr # frs) \<Longrightarrow> frs \<noteq> [] \<Longrightarrow> frames_inv d frs"
  by (simp add: frames_inv_def)

lemma frames_inv_push: "frames_inv d frs \<Longrightarrow> frames_inv d (fr # frs)"
  by (simp add: frames_inv_def)

lemma push_frame_SomeD:
  assumes "push_frame cws m = Some (x, m')" "length (vb_data (vm_buffer m)) < 2 ^ 31"
  shows "reads 0 (vm_buffer m) (vm_buffer m')"
    and "\<exists>fr. vm_frames m' = fr # vm_frames m \<and> fr_expectedSize fr = rd32 (drop (unat (vb_position (vm_buffer m))) (vb_data (vm_buffer m)))
           \<and> (vb_position (vm_buffer m) = 0 \<longrightarrow> startPosition fr = 0)"
proof -
  obtain b where b: "readNumber 4 (vm_buffer m) = Some (x, b)" and m': "vm_buffer m' = b"
    and fr: "vm_frames m' = (setIsCodeWithScope cws (setStartPosition (ucast (vb_position (vm_buffer m))) new_frame))
      \<lparr>fr_expectedSize := rd32 x\<rparr> # vm_frames m"
    using assms(1) by (auto simp: push_frame_def Let_def)
  note n = readNumber_SomeD [OF b assms(2)]
  then show "reads 0 (vm_buffer m) (vm_buffer m')" using m' by simp
  have "rd32 x = rd32 (drop (unat (vb_position (vm_buffer m))) (vb_data (vm_buffer m)))" using n by (simp add: rd32_def)
  moreover have "vb_position (vm_buffer m) = 0 \<longrightarrow> startPosition (hd (vm_frames m')) = 0"
    using frame_at_start [of 0 cws 0] fr by (simp add: frame_at_def startPosition_def)
  ultimately show "\<exists>fr. vm_frames m' = fr # vm_frames m
      \<and> fr_expectedSize fr = rd32 (drop (unat (vb_position (vm_buffer m))) (vb_data (vm_buffer m)))
      \<and> (vb_position (vm_buffer m) = 0 \<longrightarrow> startPosition fr = 0)"
    using fr by auto
qed

lemma withinObj_vinv:
  assumes "withinObj m = Inr m'" "length d < 2 ^ 31"
    and m: "vb_data (vm_buffer m) = d" "unat (vb_position (vm_buffer m)) \<le> length d + 12" "frames_inv d (vm_frames m)"
  shows "vinv d m'"
proof -
  obtain b where b: "vb_data b = d" "vb_position b = vb_position (vm_buffer m)"
    and info: "validateElementInfo b WithinObj = Inr (vm_buffer m', vm_state m')"
    and frs: "vm_frames m' = vm_frames m"
  proof -
    define b where "b = (if length (vm_frames m) = 1 \<and> vm_idElemStartPos m \<noteq> 0
      then (vm_buffer m)\<lparr>vb_idElem := Some (vm_idElemStartPos m)\<rparr> else vm_buffer m)"
    have "validateElementInfo b WithinObj = Inr (vm_buffer m', vm_state m')" "vm_frames m' = vm_frames m"
      using assms(1) by (auto simp: withinObj_def Let_def b_def split: sum.splits)
    then show thesis using that [of b] m(1) by (auto simp: b_def)
  qed
  have len: "length (vb_data b) < 2 ^ 31" using b assms(2) by simp
  have "unat (vb_position b + 1) = unat (vb_position b) + 1"
    using b m(2) assms(2) by (simp add: unat_word_ariths)
  then have "0 < vb_position b + 1" by (metis add_is_0 neq0_conv unat_0 word_gt_0 zero_neq_one)
  then show ?thesis
    using validateElementInfo_InrD [OF info len] b frs m(3)
    by (auto simp: vinv_def Let_def reads_def split: vstate.splits)
qed

lemma vstep_vinv:
  assumes inv: "vinv d m" and step: "vstep m = Inr m'" and d: "length d < 2 ^ 31"
  shows "vinv d m'"
proof (cases "vm_state m")
  case BeginObj
  then obtain x m1 where push: "push_frame False m = Some (x, m1)" and within: "withinObj m1 = Inr m'"
    using step by (auto simp: vstep_def vm_fail_def split: option.splits)
  have data: "vb_data (vm_buffer m) = d" using inv by (simp add: vinv_def Let_def)
  note f = push_frame_SomeD [OF push, unfolded data, OF d]
  have "frames_inv d (vm_frames m1)"
    using f(2) inv BeginObj by (auto simp: vinv_def Let_def frames_inv_def)
  then show ?thesis using withinObj_vinv [OF within d] f(1) data by (simp add: reads_def)
next
  case WithinObj
  then show ?thesis using step inv withinObj_vinv [OF _ d, of m m'] by (simp add: vstep_def vinv_def Let_def)
next
  case EndObj
  then have ok: "actualLength m = fr_expectedSize (hd (vm_frames m))"
    using step by (auto simp: vstep_def vm_fail_def split: if_splits)
  then show ?thesis
    using step inv EndObj
    by (cases "vm_frames m"; cases "tl (vm_frames m)")
       (auto simp: vstep_def vinv_def Let_def frames_inv_def actualLength_def)
next
  case BeginCodeWScope
  then obtain x m1 b where push: "push_frame True m = Some (x, m1)" and utf: "readUTF8String (vm_buffer m1) = Inr b"
    and m': "m' = m1\<lparr>vm_state := BeginObj, vm_buffer := b\<rparr>"
    using step by (auto simp: vstep_def vm_fail_def split: option.splits sum.splits)
  have data: "vb_data (vm_buffer m) = d" and frs: "frames_inv d (vm_frames m)"
    using inv BeginCodeWScope by (simp_all add: vinv_def Let_def)
  note f = push_frame_SomeD [OF push, unfolded data, OF d]
  have "reads 0 (vm_buffer m1) b" using readUTF8String_InrD [OF utf] f(1) data d by (simp add: reads_def)
  then show ?thesis using f data frs m' by (auto simp: vinv_def Let_def reads_def frames_inv_push)
next
  case EndCodeWScope
  then show ?thesis
    using step inv
    by (cases "vm_frames m"; cases "tl (vm_frames m)")
       (auto simp: vstep_def vm_fail_def vinv_def Let_def frames_inv_def split: if_splits)
next
  case VDone
  then show ?thesis using step inv by (simp add: vstep_def)
qed

lemma validateBSONIterative_vinv:
  assumes "validateBSONIterative m = Some (Inr m')" "vinv d m" "length d < 2 ^ 31"
  shows "vinv d m' \<and> vm_state m' = VDone"
proof -
  let ?P = "\<lambda>m (y :: verror + vmachine). y = Inr m' \<longrightarrow> vinv d m \<longrightarrow> vinv d m' \<and> vm_state m' = VDone"
  have step: "?P m y"
    if IH: "\<And>m y. f m = Some y \<Longrightarrow> ?P m y"
      and f: "(if vm_state m = VDone then Some (Inr m)
        else case vstep m of Inl e \<Rightarrow> Some (Inl e) | Inr m' \<Rightarrow> f m') = Some y" for f m y
  proof (intro impI)
    assume y: "y = Inr m'" and inv: "vinv d m"
    show "vinv d m' \<and> vm_state m' = VDone"
    proof (cases "vm_state m = VDone")
      case True
      then show ?thesis using f y inv by simp
    next
      case False
      then obtain m1 where m1: "vstep m = Inr m1" "f m1 = Some (Inr m')"
        using f y by (auto split: sum.splits)
      then show ?thesis using IH [of m1 "Inr m'"] vstep_vinv [OF inv m1(1) assms(3)] by simp
    qed
  qed
  have "?P m (Inr m')"
    by (rule validateBSONIterative.raw_induct [of ?P, OF _ assms(1)]) (rule step)
  then show ?thesis using assms(2) by blast
qed

text \<open>
  C21. What validation accepts can be read: the size that an accepted buffer declares in its first four
  bytes is positive, no larger than the buffer, and the position where validation ended.
\<close>

theorem validateBSON_bounds:
  assumes "validateBSON buf = Some (Inr m)" "length buf < 2 ^ 31"
  shows "0 < sint (rd32 buf) \<and> sint (rd32 buf) \<le> int (length buf)
    \<and> sint (rd32 buf) = uint (vb_position (vm_buffer m))"
proof -
  have "validateBSONIterative (vm_init buf) = Some (Inr m)"
    using assms(1) by (auto simp: validateBSON_def split: if_splits)
  moreover have "vinv buf (vm_init buf)" by (simp add: vinv_def vm_init_def Let_def)
  ultimately have inv: "vinv buf m" "vm_state m = VDone" using validateBSONIterative_vinv assms(2) by blast+
  let ?pos = "vb_position (vm_buffer m)"
  have pos: "0 < ?pos" "unat ?pos \<le> length buf" "rd32 buf = ucast ?pos"
    using inv by (simp_all add: vinv_def Let_def)
  define n where "n = unat ?pos"
  have n: "n < 2 ^ 31" "0 < n" "uint ?pos = int n"
    using pos(1,2) assms(2) by (simp_all add: n_def word_less_nat_alt)
  have "ucast ?pos = (word_of_nat n :: i32)" by (simp add: n_def)
  moreover have "sint (word_of_nat n :: i32) = int n"
    using n(1) by (simp add: signed_of_nat signed_take_bit_int_eq_self)
  ultimately have "sint (rd32 buf) = int n" using pos(3) by metis
  moreover have "n \<le> length buf" using pos(2) by (simp only: n_def)
  ultimately show ?thesis using n(2,3) by linarith
qed

lemma validateBSON_bounds_witness:
  "\<exists>m. validateBSON (enc_obj (\<lambda>_. 0) [(''a'', BNull)] @ [NUL]) = Some (Inr m)
     \<and> sint (rd32 (enc_obj (\<lambda>_. 0) [(''a'', BNull)] @ [NUL])) = uint (vb_position (vm_buffer m))"
proof -
  obtain i j where run: "validateBSON (enc_obj (\<lambda>_. 0) [(''a'', BNull)] @ [NUL])
      = Some (Inr (mat VDone (enc_obj (\<lambda>_. 0) [(''a'', BNull)] @ [NUL]) i (osize [(''a'', BNull)]) [] j))"
    using validateBSON_layout [of "[(''a'', BNull)]" "[NUL]" "\<lambda>_. 0"] by (auto simp: NUL_def)
  have "length (enc_obj (\<lambda>_. 0) [(''a'', BNull)] @ [NUL]) < 2 ^ 31" by (simp add: enc_obj_def)
  with validateBSON_bounds [OF run] run show ?thesis by blast
qed

lemma nth_le_enc: "k < n \<Longrightarrow> le_enc n x ! k = char_of (x div 256 ^ k mod 256)"
  by (induction n arbitrary: x k) (auto simp: nth_Cons div_mult2_eq split: nat.splits)

text \<open>
  C20. Validation is complete: it returns, and accepts, the bytes of every document of less than 2 GB, whatever
  bytes follow, and ends after the last byte of the document with no frame left.
\<close>

theorem validateBSON_accepts:
  assumes "lay_obj fs" "osize fs + length rest < 2 ^ 31"
  shows "\<exists>m. validateBSON (enc_obj dbits fs @ rest) = Some (Inr m)
    \<and> vb_position (vm_buffer m) = word_of_nat (length (enc_obj dbits fs)) \<and> vm_frames m = []"
proof -
  have "length (enc_obj dbits fs) = osize fs" using length_enc(2) [OF assms(1), of dbits] by (simp add: enc_obj_def)
  then show ?thesis using validateBSON_layout [OF assms, of dbits] by auto
qed

lemma validateBSON_accepts_witness:
  "\<exists>m. validateBSON (enc_obj (\<lambda>_. 0) [(''a'', BArray [(''0'', BCodeWScope ''f'' [(''x'', BBool True)])])] @ [])
    = Some (Inr m) \<and> vm_frames m = []"
  using validateBSON_accepts [of "[(''a'', BArray [(''0'', BCodeWScope ''f'' [(''x'', BBool True)])])]" "[]" "\<lambda>_. 0"]
  by (auto simp: NUL_def)

section \<open>Negative lengths\<close>

text \<open>
  The length of a string is read as an \<open>int\<close> and converted to an unsigned 64-bit number, so a negative
  one moves the position back.
\<close>

lemma scast_minus: "0 < k \<Longrightarrow> k \<le> 2 ^ 30 \<Longrightarrow> (scast (- word_of_nat k - 1 :: i32) :: u64) = - word_of_nat (k + 1)"
proof -
  assume k: "0 < k" "k \<le> 2 ^ 30"
  have "- word_of_nat k - 1 = (word_of_int (- int k - 1) :: i32)" by simp
  moreover have "signed_take_bit 31 (- int k - 1) = - int k - 1"
    using k by (intro signed_take_bit_int_eq_self) simp_all
  ultimately have "(scast (- word_of_nat k - 1 :: i32) :: u64) = word_of_int (- int k - 1)"
    by (simp only: signed_of_int) simp
  then show ?thesis by simp
qed

lemma readUTF8String_back:
  assumes d: "length d < 2 ^ 31" "p + 4 \<le> length d" "rd32 (take 4 (drop p d)) = - word_of_nat k"
    and k: "0 < k" "k < p + 4" "k \<le> 2 ^ 30" "d ! (p + 3 - k) = NUL"
  shows "readUTF8String (vat d i p) = Inr (vat d i (p + 4 - k))"
proof -
  let ?q = "p + 3 - k"
  have q: "?q + (k + 1) = p + 4" "?q < length d" using k d(2) by simp_all
  have "(word_of_nat (p + 4) :: u64) - word_of_nat (k + 1) = word_of_nat ?q"
    unfolding q(1) [symmetric] by simp
  moreover have "(word_of_nat ?q :: u64) < word_of_nat (length d)"
    using q d(1) word64_less [of ?q "length d"] by simp
  ultimately have skip: "vskip (scast (rd32 (take 4 (drop p d)) - 1)) (vat d i (p + 4)) = (True, vat d i ?q)"
    by (simp only: d(3) scast_minus [OF k(1,3)] vskip_def vat_def vb_maxLength_def Let_def) simp
  have "readNumber 1 (vat d i ?q) = Some ([NUL], vat d i (?q + 1))"
    using readNumber_vat [OF d(1), of ?q 1 i] q k(4) by (simp add: take_Suc_conv_app_nth hd_drop_conv_nth take_Suc)
  moreover have "?q + 1 = p + 4 - k" using k by simp
  ultimately show ?thesis by (simp add: readUTF8String_def readNumber_vat [OF d(1,2)] skip)
qed

lemma validateElementInfo_back:
  assumes d: "length d < 2 ^ 31" "drop p d = type_byte String # nm @ NUL # le_enc 4 (2 ^ 32 - k) @ r" "NUL \<notin> set nm"
    and k: "0 < k" "k < p + length nm + 6" "k \<le> 2 ^ 30" "d ! (p + length nm + 5 - k) = NUL"
  shows "validateElementInfo (vat d i p) WithinObj = Inr (vat d i (p + length nm + 6 - k), WithinObj)"
proof -
  let ?q = "p + 1 + (length nm + 1)"
  have hd: "readNumber 1 (vat d i p) = Some ([type_byte String], vat d i (p + 1))"
    "readCString (vat d i (p + 1)) = Inr (nm, vat d i ?q)"
    "drop ?q d = le_enc 4 (2 ^ 32 - k) @ r"
    using validateElementInfo_head [OF d] by simp_all
  have len: "?q + 4 \<le> length d" using drop_bound [OF hd(3)] by simp
  have "(word_of_nat (2 ^ 32 - k) :: i32) + word_of_nat k = word_of_nat (2 ^ 32)"
    using k(3) by (simp only: of_nat_add [symmetric]) simp
  then have "(word_of_nat (2 ^ 32 - k) :: i32) = - word_of_nat k"
    by (simp add: eq_neg_iff_add_eq_0)
  then have "rd32 (take 4 (drop ?q d)) = - word_of_nat k"
    using hd(3) rd32_of_nat [of "2 ^ 32 - k" "[]"] by simp
  from readUTF8String_back [OF d(1) len this, of i]
  have "readUTF8String (vat d i ?q) = Inr (vat d i (p + length nm + 6 - k))" using k by (simp add: add_ac)
  then show ?thesis using hd(1,2) by (simp add: validateElementInfo_def)
qed

lemma validateBSONIterative_diverges:
  assumes "\<And>i. validateElementInfo (vat d i p) WithinObj = Inr (vat d i p, WithinObj)"
  shows "validateBSONIterative (mat WithinObj d i p frs j) = None"
proof (rule ccontr)
  assume "validateBSONIterative (mat WithinObj d i p frs j) \<noteq> None"
  then obtain y where y: "validateBSONIterative (mat WithinObj d i p frs j) = Some y" by blast
  let ?P = "\<lambda>m (y :: verror + vmachine). \<forall>i j. m \<noteq> mat WithinObj d i p frs j"
  have "?P m y"
    if IH: "\<And>m y. f m = Some y \<Longrightarrow> ?P m y"
      and f: "(if vm_state m = VDone then Some (Inr m)
        else case vstep m of Inl e \<Rightarrow> Some (Inl e) | Inr m' \<Rightarrow> f m') = Some y" for f m y
  proof (intro allI notI)
    fix i j assume m: "m = mat WithinObj d i p frs j"
    obtain i' j' where "withinObj m = Inr (mat WithinObj d i' p frs j')"
      using withinObj_mat [OF assms, of WithinObj i frs j] unfolding m by blast
    then have "f (mat WithinObj d i' p frs j') = Some y" using f by (simp add: m vstep_def)
    then show False using IH by blast
  qed
  then have "?P (mat WithinObj d i p frs j) y"
    by (rule validateBSONIterative.raw_induct [of ?P, OF _ y])
  then show False by blast
qed

text \<open>
  C36. A string whose length is the negative of the bytes before it sends validation back to the start of the
  element for ever: whatever follows, \<open>validateBSON\<close> never returns.
\<close>

theorem validateBSON_diverges:
  assumes "n < 2 ^ 24" "NUL \<notin> set nm" "length nm < 2 ^ 29" "length rest < 2 ^ 29"
  shows "validateBSON (le32 n @ type_byte String # nm @ NUL # le32 (2 ^ 32 - (length nm + 6)) @ rest) = None"
    (is "validateBSON ?d = None")
proof -
  have d: "length ?d < 2 ^ 31" using assms(3,4) by simp
  have d4: "drop 4 ?d = type_byte String # nm @ NUL # le_enc 4 (2 ^ 32 - (length nm + 6)) @ rest" by simp
  have "?d ! 3 = NUL" using assms(1) by (simp add: nth_append nth_le_enc NUL_def char_of_def)
  then have "validateElementInfo (vat ?d i 4) WithinObj = Inr (vat ?d i 4, WithinObj)" for i
    using validateElementInfo_back [OF d d4 assms(2), of i] assms(3) by simp
  note none = validateBSONIterative_diverges [OF this]
  have "drop 0 ?d = le_enc 4 n @ type_byte String # nm @ NUL # le_enc 4 (2 ^ 32 - (length nm + 6)) @ rest" by simp
  from begin_run [OF d this, of None "[]" 0] none show ?thesis using validateBSON_start [OF _ d] by simp
qed

lemma validateBSON_diverges_witness:
  "validateBSON (le32 11 @ type_byte String # ''a'' @ NUL # le32 (2 ^ 32 - 7)) = None"
  using validateBSON_diverges [of 11 "''a''" "[]"] by (simp add: NUL_def)

lemma validateElementInfo_EOO:
  assumes "length d < 2 ^ 31" "p < length d" "d ! p = NUL"
  shows "validateElementInfo (vat d i p) st = Inr (vat d i (p + 1), EndObj)"
proof -
  have "take 1 (drop p d) = [NUL]" using assms(2,3) by (simp add: take_Suc hd_drop_conv_nth)
  then show ?thesis using readNumber_vat [OF assms(1), of p 1 i] assms(2) by (simp add: validateElementInfo_def)
qed

text \<open>
  C37. A negative length can also take validation back into the length word of the document, where it finds
  an end marker: a buffer that declares 3 bytes, less than the 5 of the empty document, is accepted.
\<close>

theorem validateBSON_accepts_fragment:
  assumes "length rest < 2 ^ 30"
  shows "\<exists>m. validateBSON (le32 3 @ type_byte String # ''a'' @ NUL # le32 (2 ^ 32 - 9) @ rest) = Some (Inr m)"
    (is "\<exists>m. validateBSON ?d = Some (Inr m)")
proof -
  have d: "length ?d < 2 ^ 31" using assms by simp
  have d4: "drop 4 ?d = type_byte String # ''a'' @ NUL # le_enc 4 (2 ^ 32 - 9) @ rest" by simp
  have nul: "?d ! 1 = NUL" "?d ! 2 = NUL"
    unfolding le32_enc by (simp_all add: nth_append nth_le_enc NUL_def char_of_def)
  have bwd: "validateElementInfo (vat ?d i 4) WithinObj = Inr (vat ?d i 2, WithinObj)" for i
    using validateElementInfo_back [OF d d4, of i] nul(1) by (simp add: NUL_def)
  have eoo: "validateElementInfo (vat ?d i 2) WithinObj = Inr (vat ?d i 3, EndObj)" for i
    using validateElementInfo_EOO [OF d, of 2 i WithinObj] nul(2) by simp
  let ?frs = "[frame_at False 0 3]"
  obtain i j where one: "validateBSONIterative (mat WithinObj ?d None 4 ?frs 0) = validateBSONIterative (mat WithinObj ?d i 2 ?frs j)"
    using withinObj_run [OF bwd, of None ?frs 0] by blast
  obtain i' j' where two: "validateBSONIterative (mat WithinObj ?d i 2 ?frs j) = validateBSONIterative (mat EndObj ?d i' 3 ?frs j')"
    using withinObj_run [OF eoo, of i ?frs j] by blast
  have fin: "validateBSONIterative (mat EndObj ?d i' 3 ?frs j') = Some (Inr (mat VDone ?d i' 3 [] j'))"
    using end_run [of 0 3 ?d i' False "[]" j'] validateBSONIterative.simps [of "mat VDone ?d i' 3 [] j'"]
    by (simp add: after_obj_def)
  have "drop 0 ?d = le_enc 4 3 @ type_byte String # ''a'' @ NUL # le_enc 4 (2 ^ 32 - 9) @ rest" by simp
  from begin_run [OF d this, of None "[]" 0] one two fin show ?thesis using validateBSON_start [OF _ d] by simp
qed

lemma validateBSON_accepts_fragment_witness:
  "\<exists>m. validateBSON (le32 3 @ type_byte String # ''a'' @ NUL # le32 (2 ^ 32 - 9) @ [NUL]) = Some (Inr m)"
  by (rule validateBSON_accepts_fragment) simp

end
