(* ===== verification/MatchSemantics.thy ===== *)
theory MatchSemantics
  imports MatchParser
begin

text \<open>
  What the match expressions mean: a truth value for every expression and document, by recursion on the
  expression, with quantifiers over the elements that a path reaches.  The evaluators of \<open>MatchExpr\<close> (\<open>matches\<close>,
  \<open>matchesSingleElement\<close> and \<open>matchesArray\<close> of \<open>src/src/mongo/db/matcher\<close>) compute it: they stop early, record the matched
  array offset and may throw, none of which changes the answer.
\<close>

section \<open>Meaning\<close>

definition holds :: "(belem \<Rightarrow> bool result) \<Rightarrow> belem \<Rightarrow> bool" where
  "holds test x \<longleftrightarrow> test x = Inr True"

definition reached :: "bool \<Rightarrow> string \<Rightarrow> bobj \<Rightarrow> ectx set" where
  "reached leafArrays path doc = set (path_elems leafArrays (split_dot path) doc)"

definition some_reached :: "(belem \<Rightarrow> bool) \<Rightarrow> string \<Rightarrow> bobj \<Rightarrow> bool" where
  "some_reached P path doc \<longleftrightarrow> (\<exists>c \<in> reached True path doc. P (ec_element c))"

definition some_array :: "(bobj \<Rightarrow> bool) \<Rightarrow> string \<Rightarrow> bobj \<Rightarrow> bool" where
  "some_array P path doc \<longleftrightarrow>
     (\<exists>c \<in> reached False path doc. etype (ec_element c) = Array \<and> P (subelems (snd (ec_element c))))"

fun is_array_expr :: "mexpr \<Rightarrow> bool" where
  "is_array_expr (ElemMatchObject _ _) = True"
| "is_array_expr (ElemMatchValue _ _) = True"
| "is_array_expr (SizeMatch _ _) = True"
| "is_array_expr _ = False"

function (sequential) sat :: "mexpr \<Rightarrow> bobj \<Rightarrow> bool"
  and sat_elem :: "mexpr \<Rightarrow> belem \<Rightarrow> bool"
  and sat_array :: "mexpr \<Rightarrow> bobj \<Rightarrow> bool" where
  "sat (AndMatch es) doc = (\<forall>e \<in> set es. sat e doc)"
| "sat (OrMatch es) doc = (\<exists>e \<in> set es. sat e doc)"
| "sat (NorMatch es) doc = (\<forall>e \<in> set es. \<not> sat e doc)"
| "sat (NotMatch e) doc = (\<not> sat e doc)"
| "sat (AllElemMatch path es) doc = some_array (\<lambda>a. es \<noteq> [] \<and> (\<forall>e \<in> set es. sat_array e a)) path doc"
| "sat (ElemMatchObject path e) doc = some_array (sat_array (ElemMatchObject path e)) path doc"
| "sat (ElemMatchValue path es) doc = some_array (sat_array (ElemMatchValue path es)) path doc"
| "sat (SizeMatch path n) doc = some_array (sat_array (SizeMatch path n)) path doc"
| "sat (TypeMatch path t) doc =
     (\<exists>c \<in> reached True path doc. \<not> (sint t = btype_code Array \<and> ec_outerArray c) \<and> type_matches t (ec_element c))"
| "sat (OtherMatch t f g) doc = (f doc = Inr True)"
| "sat AtomicMatch doc = True"
| "sat FalseMatch doc = False"
| "sat (ComparisonMatch mt path rhs) doc = some_reached (sat_elem (ComparisonMatch mt path rhs)) path doc"
| "sat (RegexMatch path r) doc = some_reached (sat_elem (RegexMatch path r)) path doc"
| "sat (ModMatch path d r) doc = some_reached (sat_elem (ModMatch path d r)) path doc"
| "sat (ExistsMatch path) doc = some_reached (sat_elem (ExistsMatch path)) path doc"
| "sat (InMatch path entries) doc = some_reached (sat_elem (InMatch path entries)) path doc"
| "sat_elem (AndMatch es) x = (\<forall>e \<in> set es. sat_elem e x)"
| "sat_elem (OrMatch es) x = (\<exists>e \<in> set es. sat_elem e x)"
| "sat_elem (NorMatch es) x = (\<forall>e \<in> set es. \<not> sat_elem e x)"
| "sat_elem (NotMatch e) x = (\<not> sat_elem e x)"
| "sat_elem (AllElemMatch path es) x =
     (etype x = Array \<and> es \<noteq> [] \<and> (\<forall>e \<in> set es. sat_array e (subelems (snd x))))"
| "sat_elem (ElemMatchObject path e) x = (etype x = Array \<and> sat_array (ElemMatchObject path e) (subelems (snd x)))"
| "sat_elem (ElemMatchValue path es) x = (etype x = Array \<and> sat_array (ElemMatchValue path es) (subelems (snd x)))"
| "sat_elem (SizeMatch path n) x = (etype x = Array \<and> sat_array (SizeMatch path n) (subelems (snd x)))"
| "sat_elem (ComparisonMatch mt path rhs) x = holds (comparison_matches mt rhs) x"
| "sat_elem (RegexMatch path r) x = regex_matches r x"
| "sat_elem (ModMatch path d r) x = holds (mod_matches d r) x"
| "sat_elem (ExistsMatch path) x = (\<not> eoo x)"
| "sat_elem (InMatch path entries) x = holds (in_matches entries) x"
| "sat_elem (TypeMatch path t) x = type_matches t x"
| "sat_elem (OtherMatch t f g) x = (g x = Inr True)"
| "sat_elem AtomicMatch x = True"
| "sat_elem FalseMatch x = False"
| "sat_array (ElemMatchObject path e) a = (\<exists>x \<in> set a. isABSONObj x \<and> sat e (subelems (snd x)))"
| "sat_array (ElemMatchValue path es) a = (\<exists>x \<in> set a. \<forall>e \<in> set es. sat_elem e x)"
| "sat_array (SizeMatch path n) a = (0 \<le> sint n \<and> int (nFields a) = sint n)"
| "sat_array _ a = False"
  by pat_completeness auto
termination
  by (relation "measure (\<lambda>p. case p of Inl (e, _) \<Rightarrow> 3 * size e + 2
        | Inr (Inl (e, _)) \<Rightarrow> 3 * size e + 1 | Inr (Inr (e, _)) \<Rightarrow> 3 * size e)")
     (auto dest: size_list_estimation' [where f = size, OF _ order_refl])

text \<open>
  Expressions whose tests return on every order-safe element: order-safe operands, paths without empty parts
  where they are evaluated on a document (below an array only the value of a member is tested), array
  expressions below \<open>$all\<close>, no \<open>$mod\<close> with divisor -1 (the remainder of the smallest integer by -1 is
  undefined), and callbacks that return.  \<open>L\<close> is what is known of regular expressions and callbacks.
\<close>

definition path_ok :: "bool \<Rightarrow> string \<Rightarrow> bool" where
  "path_ok onDoc path \<longleftrightarrow> (onDoc \<longrightarrow> good_parts (split_dot path))"

fun expr_ok :: "(mexpr \<Rightarrow> bool) \<Rightarrow> bool \<Rightarrow> mexpr \<Rightarrow> bool" where
  "expr_ok L b (AndMatch es) = (\<forall>e \<in> set es. expr_ok L b e)"
| "expr_ok L b (OrMatch es) = (\<forall>e \<in> set es. expr_ok L b e)"
| "expr_ok L b (NorMatch es) = (\<forall>e \<in> set es. expr_ok L b e)"
| "expr_ok L b (NotMatch e) = expr_ok L b e"
| "expr_ok L b (AllElemMatch path es) = (path_ok b path \<and> (\<forall>e \<in> set es. expr_ok L False e \<and> is_array_expr e))"
| "expr_ok L b (ElemMatchObject path e) = (path_ok b path \<and> expr_ok L True e)"
| "expr_ok L b (ElemMatchValue path es) = (path_ok b path \<and> (\<forall>e \<in> set es. expr_ok L False e))"
| "expr_ok L b (SizeMatch path n) = path_ok b path"
| "expr_ok L b (ComparisonMatch mt path rhs) = (path_ok b path \<and> osafe (snd rhs))"
| "expr_ok L b (RegexMatch path r) = (path_ok b path \<and> L (RegexMatch path r))"
| "expr_ok L b (ModMatch path d r) = (path_ok b path \<and> sint d \<noteq> -1)"
| "expr_ok L b (ExistsMatch path) = path_ok b path"
| "expr_ok L b (InMatch path entries) = (path_ok b path \<and> (\<forall>x \<in> set (afe_equalities entries). osafe (snd x))
     \<and> (\<forall>r \<in> set (afe_regexes entries). L (RegexMatch path r)))"
| "expr_ok L b (TypeMatch path t) = path_ok b path"
| "expr_ok L b (OtherMatch t f g) = ((\<forall>doc. \<exists>r. f doc = Inr r) \<and> (\<forall>x. \<exists>r. g x = Inr r) \<and> L (OtherMatch t f g))"
| "expr_ok L b AtomicMatch = True"
| "expr_ok L b FalseMatch = True"

section \<open>Order-safe elements\<close>

lemma osafe_mem: "osafe_obj fs \<Longrightarrow> x \<in> set fs \<Longrightarrow> osafe (snd x)"
  by (induction fs) auto

lemma osafe_EOO [simp]: "osafe (snd EOO_elem)"
  by (simp add: EOO_elem_def)

lemma osafe_getField: "osafe_obj fs \<Longrightarrow> osafe (snd (getField n fs))"
  by (induction fs) auto

lemma osafe_walk: "osafe_obj doc \<Longrightarrow> walk ps doc = (e, r) \<Longrightarrow> osafe (snd e)"
proof (induction ps doc arbitrary: e r rule: walk.induct)
  case (3 p q ps doc)
  then show ?case
    using osafe_getField [OF 3(2), of p] osafe_subelems [OF osafe_getField [OF 3(2), of p]]
    by (auto simp: Let_def split: btype.splits)
qed (simp_all, (metis osafe_getField snd_conv)+)

lemma ec_element_setArrayOffset [simp]: "ec_element (setArrayOffset y c) = ec_element c"
  by (cases c) (simp add: setArrayOffset_def)

lemma osafe_path_elems:
  "osafe_obj doc \<Longrightarrow> c \<in> set (path_elems leaf ps doc) \<Longrightarrow> osafe (snd (ec_element c))"
  "osafe (snd x) \<Longrightarrow> c \<in> set (array_item leaf q qs x) \<Longrightarrow> osafe (snd (ec_element c))"
proof (induction leaf ps doc and leaf q qs x arbitrary: c and c rule: path_elems_array_item.induct)
  case (1 leaf ps doc)
  obtain e rest where w: "walk ps doc = (e, rest)" by fastforce
  have e: "osafe (snd e)" using osafe_walk [OF 1(2) w] .
  note sub = osafe_mem [OF osafe_subelems [OF e]]
  show ?case
  proof (cases "etype e = Array \<and> rest \<noteq> []")
    case True
    then obtain q qs where rest: "rest = q # qs" by (cases rest) auto
    then obtain y where y: "y \<in> set (subelems (snd e))" "c \<in> set (array_item leaf q qs y)"
      using 1(3) True by (auto simp: path_elems.simps [of leaf ps doc] w)
    then show ?thesis using 1(1) [OF w [symmetric] refl _ rest y(1) sub [OF y(1)]] True by simp
  next
    case False
    then show ?thesis
      using 1(3) e sub by (auto simp: path_elems.simps [of leaf ps doc] w leaf_elems_def split: if_splits list.splits)
  qed
next
  case (2 leaf q qs x)
  note sub = osafe_subelems [OF 2(4)]
  note IH = 2(3) [OF refl]
  show ?case
  proof (cases "etype x = Object")
    case True
    then show ?thesis
      using 2(5) 2(1) [OF refl True sub] 2(2) [OF refl True _ _ sub] 2(4)
      by (auto simp: array_item.simps [of leaf q qs x] Let_def split: if_splits)
  next
    case False
    then consider "c = Context x x False" | y where "etype x = Array" "qs \<noteq> []" "isAllDigits q \<and> q = fieldName x"
        "y \<in> set (subelems (snd x))" "\<exists>c'. c = setArrayOffset EOO_elem c' \<and> c' \<in> set (array_item leaf (hd qs) (tl qs) y)"
      using 2(5) by (auto simp: array_item.simps [of leaf q qs x] Let_def split: if_splits)
    then show ?thesis
    proof cases
      case (2 y)
      then show ?thesis using IH [of y] False osafe_mem [OF sub 2(4)] by auto
    qed (use 2(4) in simp)
  qed
qed

section \<open>The loops\<close>

lemma path_loop_sem:
  "\<forall>c \<in> set cs. \<exists>d. body c = Inr (P c, d) \<Longrightarrow> \<exists>d. path_loop body cs None details = Inr (\<exists>c \<in> set cs. P c, d)"
  by (induction cs) auto

lemma elem_loop_sem:
  "\<forall>x \<in> set xs. body x = Inr (P x) \<Longrightarrow> \<exists>d. elem_loop body xs details = Inr (\<exists>x \<in> set xs. P x, d)"
  by (induction xs) auto

lemma all_of_sem: "\<forall>e \<in> set es. f e = Inr (P e) \<Longrightarrow> all_of (map (\<lambda>e u. f e) es) = Inr (\<forall>e \<in> set es. P e)"
  by (induction es) auto

lemma any_of_sem: "\<forall>e \<in> set es. f e = Inr (P e) \<Longrightarrow> any_of (map (\<lambda>e u. f e) es) = Inr (\<exists>e \<in> set es. P e)"
  by (induction es) auto

lemma and_loop_sem:
  "\<forall>e \<in> set es. \<forall>details. \<exists>d. f e details = Inr (P e, d) \<Longrightarrow> \<exists>d. and_loop (map f es) details = Inr (\<forall>e \<in> set es. P e, d)"
proof (induction es arbitrary: details)
  case (Cons e es)
  then obtain d where d: "f e details = Inr (P e, d)" by fastforce
  then show ?case using Cons.IH [of d] Cons.prems by auto
qed simp

lemma path_run_good: "good_parts (split_dot path) \<Longrightarrow> path_run leaf path doc = (path_elems leaf (split_dot path) doc, None)"
  by (simp add: path_run_def bei_run_good)

lemma leaf_matches_sem:
  assumes "good_parts (split_dot path)" "osafe_obj doc" "\<And>x. osafe (snd x) \<Longrightarrow> single x = Inr (P x)"
  shows "\<exists>d. leaf_matches skip single path doc details
    = Inr (\<exists>c \<in> reached True path doc. \<not> (skip \<and> ec_outerArray c) \<and> P (ec_element c), d)"
proof -
  let ?body = "\<lambda>c. if skip \<and> ec_outerArray c then Inr (False, details)
    else rbind (single (ec_element c)) (\<lambda>b. Inr (b,
      if b then record_key (\<not> eoo (ec_arrayOffset c)) (fieldName (ec_arrayOffset c)) details else details))"
  have "\<forall>c \<in> set (path_elems True (split_dot path) doc).
      \<exists>d. ?body c = Inr (\<not> (skip \<and> ec_outerArray c) \<and> P (ec_element c), d)"
    using assms(3) osafe_path_elems(1) [OF assms(2)] by simp
  from path_loop_sem [OF this, of details] show ?thesis
    by (simp add: leaf_matches_def path_run_good [OF assms(1)] reached_def)
qed

lemma array_matches_sem:
  assumes "good_parts (split_dot path)" "osafe_obj doc"
    "\<And>a details. osafe_obj a \<Longrightarrow> \<exists>d. f a details = Inr (P a, d)"
  shows "\<exists>d. array_matches f path doc details = Inr (some_array P path doc, d)"
proof -
  let ?body = "\<lambda>c. if etype (ec_element c) \<noteq> Array then Inr (False, details)
        else let amIRoot = eoo (ec_arrayOffset c) in
          rbind (f (subelems (snd (ec_element c))) (if amIRoot then details else None))
            (\<lambda>(b, details').
              if \<not> b then Inr (False, details)
              else if amIRoot then Inr (True, details')
              else Inr (True, record_key True (fieldName (ec_arrayOffset c)) details))"
  have "\<exists>d. ?body c = Inr (etype (ec_element c) = Array \<and> P (subelems (snd (ec_element c))), d)"
    if "c \<in> set (path_elems False (split_dot path) doc)" for c
  proof -
    have "osafe_obj (subelems (snd (ec_element c)))" using osafe_subelems [OF osafe_path_elems(1) [OF assms(2) that]] .
    then obtain d where "f (subelems (snd (ec_element c))) (if eoo (ec_arrayOffset c) then details else None)
        = Inr (P (subelems (snd (ec_element c))), d)" using assms(3) by blast
    then show ?thesis by (auto simp: Let_def)
  qed
  then have "\<forall>c \<in> set (path_elems False (split_dot path) doc).
      \<exists>d. ?body c = Inr (etype (ec_element c) = Array \<and> P (subelems (snd (ec_element c))), d)" by blast
  from path_loop_sem [OF this, of details] show ?thesis
    by (simp add: array_matches_def path_run_good [OF assms(1)] some_array_def reached_def)
qed

section \<open>The single tests return\<close>

lemma comparison_returns:
  "osafe (snd rhs) \<Longrightarrow> osafe (snd x) \<Longrightarrow> comparison_matches mt rhs x = Inr (holds (comparison_matches mt rhs) x)"
  using woCompare_returns_all(1) [of x rhs] by (fastforce simp: comparison_matches_def holds_def)

lemma mod_returns: "sint d \<noteq> -1 \<Longrightarrow> mod_matches d r x = Inr (holds (mod_matches d r) x)"
  by (simp add: mod_matches_def holds_def Let_def)

lemma in_returns:
  "\<forall>y \<in> set (afe_equalities entries). osafe (snd y) \<Longrightarrow> osafe (snd x) \<Longrightarrow>
   in_matches entries x = Inr (holds (in_matches entries) x)"
  by (simp add: in_matches_def matchesRealElement_def holds_def elset_count_eq)

section \<open>Evaluation computes the meaning\<close>

definition evaluates :: "bool \<Rightarrow> mexpr \<Rightarrow> bool" where
  "evaluates onDoc e \<longleftrightarrow>
     (\<forall>doc details. onDoc \<longrightarrow> osafe_obj doc \<longrightarrow> (\<exists>d. matches e doc details = Inr (sat e doc, d)))
     \<and> (\<forall>x. osafe (snd x) \<longrightarrow> matchesSingleElement e x = Inr (sat_elem e x))
     \<and> (\<forall>a details. is_array_expr e \<longrightarrow> osafe_obj a \<longrightarrow> (\<exists>d. matchesArray e a details = Inr (sat_array e a, d)))"

lemma evaluatesD:
  assumes "evaluates onDoc e"
  shows "onDoc \<Longrightarrow> osafe_obj doc \<Longrightarrow> \<exists>d. matches e doc details = Inr (sat e doc, d)"
    and "osafe (snd x) \<Longrightarrow> matchesSingleElement e x = Inr (sat_elem e x)"
    and "is_array_expr e \<Longrightarrow> osafe_obj a \<Longrightarrow> \<exists>d. matchesArray e a details = Inr (sat_array e a, d)"
    and "onDoc \<Longrightarrow> osafe_obj doc \<Longrightarrow> rbind (matches e doc None) (\<lambda>(b, _). Inr b) = Inr (sat e doc)"
    and "is_array_expr e \<Longrightarrow> osafe_obj a \<Longrightarrow> rbind (matchesArray e a None) (\<lambda>(b, _). Inr b) = Inr (sat_array e a)"
proof -
  show doc: "\<exists>d. matches e doc details = Inr (sat e doc, d)" if "onDoc" "osafe_obj doc" for doc details
    using assms that unfolding evaluates_def by blast
  show "osafe (snd x) \<Longrightarrow> matchesSingleElement e x = Inr (sat_elem e x)"
    using assms unfolding evaluates_def by blast
  show arr: "\<exists>d. matchesArray e a details = Inr (sat_array e a, d)" if "is_array_expr e" "osafe_obj a" for a details
    using assms that unfolding evaluates_def by blast
  show "rbind (matches e doc None) (\<lambda>(b, _). Inr b) = Inr (sat e doc)" if "onDoc" "osafe_obj doc"
    using doc [OF that, of None] by auto
  show "rbind (matchesArray e a None) (\<lambda>(b, _). Inr b) = Inr (sat_array e a)" if "is_array_expr e" "osafe_obj a"
    using arr [OF that, of None] by auto
qed

lemma evaluates_leaf:
  assumes "path_ok onDoc path" "\<And>x. osafe (snd x) \<Longrightarrow> single x = Inr (P x)"
    "\<And>doc details. matches e doc details = leaf_matches False single path doc details"
    "\<And>x. matchesSingleElement e x = single x" "\<And>doc. sat e doc = some_reached (sat_elem e) path doc"
    "\<And>x. sat_elem e x = P x" "\<not> is_array_expr e"
  shows "evaluates onDoc e"
proof -
  have "\<exists>d. matches e doc details = Inr (sat e doc, d)" if "onDoc" "osafe_obj doc" for doc details
    using leaf_matches_sem [OF _ that(2), of path single P False details] assms(1,2) that(1)
    by (simp add: assms(3,5,6) some_reached_def path_ok_def)
  then show ?thesis using assms(2,7) by (simp add: evaluates_def assms(4,6))
qed

lemma evaluates_array:
  assumes "path_ok onDoc path"
    and arr: "\<And>a details. osafe_obj a \<Longrightarrow> \<exists>d. matchesArray e a details = Inr (sat_array e a, d)"
    and "\<And>doc details. matches e doc details = array_matches (matchesArray e) path doc details"
    and "\<And>x. matchesSingleElement e x = (if etype x \<noteq> Array then Inr False
        else rbind (matchesArray e (subelems (snd x)) None) (\<lambda>(b, _). Inr b))"
    and "\<And>doc. sat e doc = some_array (sat_array e) path doc"
    and "\<And>x. sat_elem e x = (etype x = Array \<and> sat_array e (subelems (snd x)))"
  shows "evaluates onDoc e"
proof -
  have "matchesSingleElement e x = Inr (sat_elem e x)" if "osafe (snd x)" for x
    using arr [OF osafe_subelems [OF that], of None] by (auto simp: assms(4,6))
  then show ?thesis
    using array_matches_sem [of path _ "matchesArray e" "sat_array e"] arr assms(1) by (simp add: evaluates_def assms(3,5) path_ok_def)
qed

lemma evaluates_AllElemMatch:
  assumes "path_ok onDoc path" "\<forall>e \<in> set es. evaluates False e \<and> is_array_expr e"
  shows "evaluates onDoc (AllElemMatch path es)"
proof -
  have single: "matchesSingleElement (AllElemMatch path es) x = Inr (sat_elem (AllElemMatch path es) x)"
    if "osafe (snd x)" for x
    using all_of_sem [of es "\<lambda>e. rbind (matchesArray e (subelems (snd x)) None) (\<lambda>(b, _). Inr b)" "\<lambda>e. sat_array e (subelems (snd x))"]
      evaluatesD(5) [of False, OF _ _ osafe_subelems [OF that]] assms(2) by simp
  have "\<exists>d. matches (AllElemMatch path es) doc details = Inr (sat (AllElemMatch path es) doc, d)"
    if doc: "onDoc" "osafe_obj doc" for doc details
  proof -
    let ?body = "\<lambda>c. if etype (ec_element c) \<noteq> Array then Inr (False, details)
        else rbind (matchesSingleElement (AllElemMatch path es) (ec_element c)) (\<lambda>b. Inr (b, details))"
    have "\<forall>c \<in> set (path_elems False (split_dot path) doc). \<exists>d. ?body c = Inr (sat_elem (AllElemMatch path es) (ec_element c), d)"
      using single osafe_path_elems(1) [OF doc(2)] by (auto simp del: matchesSingleElement.simps)
    from path_loop_sem [OF this, of details] show ?thesis
      using assms(1) doc(1) by (simp add: path_run_good path_ok_def some_array_def reached_def del: matchesSingleElement.simps)
  qed
  then show ?thesis using single unfolding evaluates_def by auto
qed

lemma any_evaluates:
  assumes "\<forall>e \<in> set es. evaluates onDoc e"
  shows "onDoc \<Longrightarrow> osafe_obj doc \<Longrightarrow>
      any_of (map (\<lambda>e u. rbind (matches e doc None) (\<lambda>(b, _). Inr b)) es) = Inr (\<exists>e \<in> set es. sat e doc)"
    and "osafe (snd x) \<Longrightarrow> any_of (map (\<lambda>e u. matchesSingleElement e x) es) = Inr (\<exists>e \<in> set es. sat_elem e x)"
  using any_of_sem [of es "\<lambda>e. rbind (matches e doc None) (\<lambda>(b, _). Inr b)" "\<lambda>e. sat e doc"] 
    any_of_sem [of es "\<lambda>e. matchesSingleElement e x" "\<lambda>e. sat_elem e x"] assms evaluatesD(2,4) by blast+

lemma expr_evaluates: "expr_ok L onDoc e \<Longrightarrow> evaluates onDoc e"
proof (induction e arbitrary: onDoc)
  case (AndMatch es)
  then have "\<forall>e \<in> set es. evaluates onDoc e" by simp
  then show ?case
    using and_loop_sem [of es "\<lambda>e. matches e _" "\<lambda>e. sat e _"] all_of_sem [of es "\<lambda>e. matchesSingleElement e _"]
    by (auto simp: evaluates_def)
next
  case (OrMatch es)
  then have "\<forall>e \<in> set es. evaluates onDoc e" by simp
  from any_evaluates [OF this] show ?case by (simp add: evaluates_def)
next
  case (NorMatch es)
  then have "\<forall>e \<in> set es. evaluates onDoc e" by simp
  from any_evaluates [OF this] show ?case by (simp add: evaluates_def)
next
  case (NotMatch e)
  then have "evaluates onDoc e" by simp
  then show ?case
    unfolding evaluates_def [of _ "NotMatch e"]
    using evaluatesD(2) evaluatesD(1) [of onDoc e _ None] by fastforce
next
  case (AllElemMatch path es)
  then show ?case by (intro evaluates_AllElemMatch) auto
next
  case (ElemMatchObject path e)
  then have IH: "evaluates True e" by simp
  have "\<exists>d. matchesArray (ElemMatchObject path e) a details = Inr (sat_array (ElemMatchObject path e) a, d)"
    if "osafe_obj a" for a details
    using elem_loop_sem [of a "\<lambda>x. if \<not> isABSONObj x then Inr False
        else rbind (matches e (subelems (snd x)) None) (\<lambda>(b, _). Inr b)" "\<lambda>x. isABSONObj x \<and> sat e (subelems (snd x))"]
      evaluatesD(4) [OF IH TrueI osafe_subelems [OF osafe_mem [OF that]]] by simp
  then show ?case using ElemMatchObject by (intro evaluates_array [of _ path]) auto
next
  case (ElemMatchValue path es)
  then have IH: "\<forall>e \<in> set es. evaluates False e" by simp
  have "\<exists>d. matchesArray (ElemMatchValue path es) a details = Inr (sat_array (ElemMatchValue path es) a, d)"
    if a: "osafe_obj a" for a details
  proof -
    have "all_of (map (\<lambda>e u. matchesSingleElement e x) es) = Inr (\<forall>e \<in> set es. sat_elem e x)" if "x \<in> set a" for x
      using all_of_sem [of es "\<lambda>e. matchesSingleElement e x" "\<lambda>e. sat_elem e x"] IH evaluatesD(2) osafe_mem [OF a that] by blast
    then show ?thesis using elem_loop_sem [of a _ "\<lambda>x. \<forall>e \<in> set es. sat_elem e x"] by simp
  qed
  then show ?case using ElemMatchValue by (intro evaluates_array [of _ path]) auto
next
  case (SizeMatch path n)
  then show ?case by (intro evaluates_array [of _ path]) auto
next
  case (ComparisonMatch mt path rhs)
  then show ?case by (intro evaluates_leaf [of _ path "comparison_matches mt rhs"]) (auto simp: comparison_returns)
next
  case (RegexMatch path r)
  then show ?case by (intro evaluates_leaf [of _ path "\<lambda>e. Inr (regex_matches r e)"]) auto
next
  case (ModMatch path d r)
  then show ?case by (intro evaluates_leaf [of _ path "mod_matches d r"]) (auto simp: mod_returns)
next
  case (ExistsMatch path)
  then show ?case by (intro evaluates_leaf [of _ path "\<lambda>e. Inr (\<not> eoo e)"]) auto
next
  case (InMatch path entries)
  then show ?case by (intro evaluates_leaf [of _ path "in_matches entries"]) (auto simp: in_returns)
next
  case (TypeMatch path t)
  then have "\<exists>d. matches (TypeMatch path t) doc details = Inr (sat (TypeMatch path t) doc, d)"
    if "onDoc" "osafe_obj doc" for doc details
    using leaf_matches_sem [OF _ that(2), of path "\<lambda>e. Inr (type_matches t e)" "type_matches t" "sint t = btype_code Array" details] that(1)
    by (simp add: path_ok_def)
  then show ?case by (simp add: evaluates_def del: matches.simps sat.simps)
next
  case (OtherMatch t f g)
  have "\<exists>d. matches (OtherMatch t f g) doc details = Inr (sat (OtherMatch t f g) doc, d)" for doc details
  proof -
    obtain b where "f doc = Inr b" using OtherMatch [unfolded expr_ok.simps] by blast
    then show ?thesis by simp
  qed
  moreover have "matchesSingleElement (OtherMatch t f g) x = Inr (sat_elem (OtherMatch t f g) x)" for x
  proof -
    obtain b where "g x = Inr b" using OtherMatch [unfolded expr_ok.simps] by blast
    then show ?thesis by simp
  qed
  ultimately show ?case unfolding evaluates_def by simp
qed (auto simp: evaluates_def)

section \<open>Properties\<close>

text \<open>
  C9. Matching computes the meaning of the expression: it returns on every order-safe document, and answers
  whether the document satisfies the expression, whatever it was asked to record about the match.  The
  expression has order-safe operands, paths without empty parts, no \<open>$mod\<close> by -1, and its callbacks, if any,
  return.
\<close>

theorem matches_meaning:
  assumes "expr_ok (\<lambda>_. True) True e" "osafe_obj doc"
  shows "\<exists>details'. matches e doc details = Inr (sat e doc, details')"
  using evaluatesD(1) [OF expr_evaluates [OF assms(1)] TrueI assms(2)] .

definition sample_filter :: mexpr where
  "sample_filter = AndMatch [ComparisonMatch GTE ''a.b'' ([], BNumberInt 3),
     NotMatch (ElemMatchObject ''c'' (ExistsMatch ''d''))]"

lemma matches_meaning_witness:
  "\<exists>details'. matches sample_filter [(''a'', BArray [(''0'', BObject [(''b'', BNumberInt 5)])])] (Some md_init)
     = Inr (sat sample_filter [(''a'', BArray [(''0'', BObject [(''b'', BNumberInt 5)])])], details')"
  by (rule matches_meaning) (simp_all add: sample_filter_def path_ok_def good_parts_def)

end
