(* ===== verification/MatchWellFormed.thy ===== *)
theory MatchWellFormed
  imports MatchSemantics
begin

text \<open>
  What the query parser (db/matcher/expression_parser.cpp) establishes for the matcher: every expression it
  returns for a well-formed query keeps the conditions under which matching returns, so that a matcher built
  from such a query decides every order-safe document.
\<close>

section \<open>Well-formed queries\<close>

text \<open>
  A field is a path without empty parts or an operator that the parser handles itself: not one of those it
  hands to the callbacks for JavaScript, text search and geometry.  Operands are order-safe, and no divisor
  of \<open>$mod\<close> is -1.
\<close>

definition callback_names :: "string set" where
  "callback_names = {''$where'', ''$text'', ''$near'', ''$nearSphere'', ''$geoNear'', ''$maxDistance'', ''$minDistance'',
     ''$within'', ''$geoWithin'', ''$geoIntersects''}"

definition name_ok :: "string \<Rightarrow> bool" where
  "name_ok n \<longleftrightarrow> (starts_dollar n \<or> good_parts (split_dot n)) \<and> n \<notin> callback_names"

definition mod_ok :: "belem \<Rightarrow> bool" where
  "mod_ok e \<longleftrightarrow> (fieldName e = ''$mod'' \<longrightarrow> sint (numberInt (firstElement (subelems (snd e)))) \<noteq> -1)"

fun names_ok :: "bval \<Rightarrow> bool" and names_ok_obj :: "bobj \<Rightarrow> bool" where
  "names_ok (BObject fs) = names_ok_obj fs"
| "names_ok (BArray fs) = names_ok_obj fs"
| "names_ok _ = True"
| "names_ok_obj [] = True"
| "names_ok_obj (e # es) = (name_ok (fieldName e) \<and> mod_ok e \<and> names_ok (snd e) \<and> names_ok_obj es)"

definition query_ok :: "bobj \<Rightarrow> bool" where
  "query_ok q \<longleftrightarrow> osafe_obj q \<and> names_ok_obj q"

definition operand_ok :: "belem \<Rightarrow> bool" where
  "operand_ok e \<longleftrightarrow> osafe (snd e) \<and> names_ok (snd e)"

text \<open>
  The compiled form of a regular expression is what the library makes of its text and flags, and there is no
  callback.
\<close>

definition regex_compiled :: "parse_env \<Rightarrow> regex \<Rightarrow> bool" where
  "regex_compiled env r \<longleftrightarrow> (case r of (rx, flags, re) \<Rightarrow> re = pe_regex env (c_str rx) (flags2options flags))"

fun compiled :: "parse_env \<Rightarrow> mexpr \<Rightarrow> bool" where
  "compiled env (RegexMatch path r) = regex_compiled env r"
| "compiled env (OtherMatch t f g) = False"
| "compiled env _ = True"

lemma names_ok_obj_mem: "names_ok_obj fs \<Longrightarrow> x \<in> set fs \<Longrightarrow> name_ok (fieldName x) \<and> names_ok (snd x)"
  by (induction fs) auto

lemma query_ok_mem: "query_ok q \<Longrightarrow> e \<in> set q \<Longrightarrow> name_ok (fieldName e) \<and> operand_ok e"
  using names_ok_obj_mem osafe_mem unfolding query_ok_def operand_ok_def by blast

lemma query_ok_mod: "query_ok q \<Longrightarrow> e \<in> set q \<Longrightarrow> mod_ok e"
proof -
  have "names_ok_obj fs \<Longrightarrow> e \<in> set fs \<Longrightarrow> mod_ok e" for fs by (induction fs) auto
  then show "query_ok q \<Longrightarrow> e \<in> set q \<Longrightarrow> mod_ok e" unfolding query_ok_def by blast
qed

lemma query_ok_no_geo: "query_ok q \<Longrightarrow> \<not> geo_peek q"
  by (cases q) (auto simp: query_ok_def geo_peek_def name_ok_def callback_names_def)

lemma query_ok_subelems: "operand_ok e \<Longrightarrow> query_ok (subelems (snd e))"
  using osafe_subelems unfolding operand_ok_def query_ok_def by (cases "snd e") auto

lemma operand_ok_first: "query_ok q \<Longrightarrow> operand_ok (firstElement q)"
  by (cases q) (auto simp: firstElement_def EOO_elem_def operand_ok_def query_ok_def)

lemma foldr_result_invariant:
  assumes "foldr_result f xs s = Inr t" "I s" "\<And>x s t. x \<in> set xs \<Longrightarrow> I s \<Longrightarrow> f x s = Inr t \<Longrightarrow> I t"
  shows "I t"
  using assms
proof (induction xs arbitrary: s)
  case (Cons x xs)
  then obtain u where "f x s = Inr u" "foldr_result f xs u = Inr t" by (auto simp: rbind_Inr_iff)
  with Cons show ?case by (metis list.set_intros(1) list.set_intros(2))
qed simp

section \<open>Leaves\<close>

lemma regex_init_ok:
  "regex_init env rx options = Inr r \<Longrightarrow> regex_compiled env r" "regex_init_elem env e = Inr r \<Longrightarrow> regex_compiled env r"
  by (auto simp: regex_init_def regex_init_elem_def regex_compiled_def split: if_splits bval.splits)

lemma comparison_init_ok:
  "comparison_init mt path rhs = Inr x \<Longrightarrow> path_ok b path \<Longrightarrow> operand_ok rhs \<Longrightarrow> expr_ok L b x"
  by (auto simp: comparison_init_def operand_ok_def split: if_splits)

lemma elset_insert_subset: "elset_insert e xs = Inr ys \<Longrightarrow> set ys \<subseteq> insert e (set xs)"
  by (induction xs arbitrary: ys) (auto simp: rbind_Inr_iff split: if_splits)

lemma addEquality_ok:
  assumes "addEquality e en = Inr en'" "osafe (snd e)" "\<forall>x \<in> set (afe_equalities en). osafe (snd x)"
  shows "(\<forall>x \<in> set (afe_equalities en'). osafe (snd x)) \<and> afe_regexes en' = afe_regexes en"
  using assms elset_insert_subset
  by (fastforce simp: addEquality_def Let_def rbind_Inr_iff plift_def split: if_splits sum.splits)

lemma parseArrayFilterEntries_ok:
  assumes "parseArrayFilterEntries env q = Inr en" "query_ok q"
  shows "(\<forall>x \<in> set (afe_equalities en). osafe (snd x)) \<and> (\<forall>r \<in> set (afe_regexes en). regex_compiled env r)"
  using assms(1) unfolding parseArrayFilterEntries_def
proof (rule foldr_result_invariant, goal_cases)
  case (2 x s t)
  then have "osafe (snd x)" using query_ok_mem [OF assms(2)] by (simp add: operand_ok_def)
  with 2 show ?case by (auto simp: rbind_Inr_iff addRegex_def dest: addEquality_ok regex_init_ok(2) split: if_splits)
qed (simp add: afe_init_def)

lemma leaf_parsers_ok:
  assumes "path_ok b name"
  shows "parseComparison name mt e = Inr x \<Longrightarrow> operand_ok e \<Longrightarrow> expr_ok (compiled env) b x"
    "parseMOD name e = Inr x \<Longrightarrow> sint (numberInt (firstElement (subelems (snd e)))) \<noteq> -1 \<Longrightarrow> expr_ok (compiled env) b x"
    "parseRegexElement env name e = Inr x \<Longrightarrow> expr_ok (compiled env) b x"
    "parseRegexDocument env name q = Inr x \<Longrightarrow> expr_ok (compiled env) b x"
    "parseSize name e = Inr x \<Longrightarrow> expr_ok (compiled env) b x"
    "parseType name e = Inr x \<Longrightarrow> expr_ok (compiled env) b x"
  using assms comparison_init_ok [of mt name e x b]
  by (auto dest: regex_init_ok simp: parseComparison_def parseMOD_def mod_init_def parseRegexElement_def parseRegexDocument_def
      parseSize_def parseType_def Let_def rbind_Inr_iff firstElement_def split: if_splits list.splits bval.splits)

section \<open>One step of each parser\<close>

lemma foldr_result_all:
  assumes "foldr_result (\<lambda>e out. rbind (g e) (\<lambda>ys. Inr (out @ ys))) q [] = Inr xs"
    and "\<And>e ys. e \<in> set q \<Longrightarrow> g e = Inr ys \<Longrightarrow> \<forall>x \<in> set ys. P x"
  shows "\<forall>x \<in> set xs. P x"
  using assms(1) by (rule foldr_result_invariant) (use assms(2) in \<open>auto simp: rbind_Inr_iff\<close>)

lemma parse_step:
  assumes "parse env q level = Inr x" "query_ok q"
    and "\<And>e xs. e \<in> set q \<Longrightarrow> name_ok (fieldName e) \<Longrightarrow> operand_ok e \<Longrightarrow>
      parse_elem env (level = 0) e (level + 1) = Inr xs \<Longrightarrow> \<forall>x \<in> set xs. expr_ok (compiled env) True x"
  shows "expr_ok (compiled env) True x"
proof -
  obtain root where root: "foldr_result (\<lambda>e root.
      rbind (parse_elem env (level = 0) e (level + 1)) (\<lambda>xs. Inr (root @ xs))) q [] = Inr root"
    and x: "(case root of [x] \<Rightarrow> Inr x | _ \<Rightarrow> Inr (AndMatch root)) = (Inr x :: perr + mexpr)"
    using assms(1) by (auto simp: parse.simps rbind_Inr_iff split: if_splits)
  have "\<forall>x \<in> set root. expr_ok (compiled env) True x"
    using root by (rule foldr_result_all) (metis assms(3) query_ok_mem [OF assms(2)])
  with x show ?thesis by (auto split: list.splits)
qed

lemma parseTreeList_step:
  assumes "parseTreeList env q level = Inr xs" "query_ok q"
    and "\<And>e x. e \<in> set q \<Longrightarrow> etype e = Object \<Longrightarrow> query_ok (subelems (snd e)) \<Longrightarrow>
      parse env (subelems (snd e)) level = Inr x \<Longrightarrow> expr_ok (compiled env) True x"
  shows "\<forall>x \<in> set xs. expr_ok (compiled env) True x"
proof -
  have "foldr_result (\<lambda>e out.
        if etype e \<noteq> Object then Inl (BadValue ''$or/$and/$nor entries need to be full objects'')
        else rbind (parse env (subelems (snd e)) level) (\<lambda>x. Inr (out @ [x]))) q [] = Inr xs"
    using assms(1) by (simp add: parseTreeList.simps split: if_splits)
  then show ?thesis
  proof (rule foldr_result_invariant, goal_cases)
    case (2 e s t)
    then show ?case using assms(3) [of e] query_ok_subelems [of e] query_ok_mem [OF assms(2), of e]
      by (auto simp: rbind_Inr_iff split: if_splits)
  qed simp
qed

lemma dbref_names: "rest = ''ref'' \<or> rest = ''id'' \<or> rest = ''db'' \<Longrightarrow> path_ok True (CHR ''$'' # rest)"
  by (auto simp: path_ok_def good_parts_def)

lemma starts_dollar_tl: "starts_dollar n \<Longrightarrow> n = CHR ''$'' # tl n"
  by (cases n) (auto simp: starts_dollar_def)

lemma parse_elem_step:
  assumes "parse_elem env topl e level = Inr xs" "name_ok (fieldName e)" "operand_ok e"
    and list: "\<And>xs. starts_dollar (fieldName e) \<Longrightarrow> tl (fieldName e) \<in> {''or'', ''and'', ''nor''} \<Longrightarrow> etype e = Array \<Longrightarrow>
      parseTreeList env (subelems (snd e)) level = Inr xs \<Longrightarrow> \<forall>x \<in> set xs. expr_ok (compiled env) True x"
    and sub: "\<And>xs. path_ok True (fieldName e) \<Longrightarrow> \<not> starts_dollar (fieldName e) \<Longrightarrow> isExpressionDocument e False \<Longrightarrow>
      parseSub env (fieldName e) (subelems (snd e)) level = Inr xs \<Longrightarrow> \<forall>x \<in> set xs. expr_ok (compiled env) True x"
  shows "\<forall>x \<in> set xs. expr_ok (compiled env) True x"
proof (cases "starts_dollar (fieldName e)")
  case True
  note path = dbref_names [of "tl (fieldName e)", folded starts_dollar_tl [OF True]]
  have "fieldName e \<noteq> ''$where''" "fieldName e \<noteq> ''$text''" using assms(2) by (auto simp: name_ok_def callback_names_def)
  then have "tl (fieldName e) \<noteq> ''where''" "tl (fieldName e) \<noteq> ''text''"
    using starts_dollar_tl [OF True] by auto
  then show ?thesis
    using assms(1,3) True list path comparison_init_ok [of EQ "fieldName e" e _ True]
    unfolding parse_elem.simps [of env topl e level] Let_def
    by (auto simp: rbind_Inr_iff split: if_splits)
next
  case False
  then have path: "path_ok True (fieldName e)" using assms(2) by (simp add: name_ok_def path_ok_def)
  show ?thesis
    using assms(1,3) False sub [OF path] leaf_parsers_ok(3) [OF path, of _ e] comparison_init_ok [OF _ path, of _ e]
    by (auto simp: parse_elem.simps [of env topl e level] rbind_Inr_iff split: if_splits)
qed

lemma parseSub_step:
  assumes "parseSub env name q level = Inr xs" "query_ok q"
    and "\<And>e xs. \<not> geo_peek q \<Longrightarrow> e \<in> set q \<Longrightarrow> name_ok (fieldName e) \<Longrightarrow> mod_ok e \<Longrightarrow> operand_ok e \<Longrightarrow>
      parseSubField env q name e (level + 1) = Inr xs \<Longrightarrow> \<forall>x \<in> set xs. expr_ok (compiled env) b x"
  shows "\<forall>x \<in> set xs. expr_ok (compiled env) b x"
proof -
  have geo: "\<not> geo_peek q" using assms(2) by (rule query_ok_no_geo)
  then have "foldr_result (\<lambda>deep root.
        rbind (parseSubField env q name deep (level + 1)) (\<lambda>xs. Inr (root @ xs))) q [] = Inr xs"
    using assms(1) by (simp add: parseSub.simps split: if_splits)
  then show ?thesis
    by (rule foldr_result_all) (metis assms(3) geo query_ok_mem [OF assms(2)] query_ok_mod [OF assms(2)])
qed

lemma handled_ops:
  assumes "name_ok (fieldName e)"
  shows "getGtLtOp (-1) e \<noteq> opWITHIN" "getGtLtOp (-1) e \<noteq> opGEO_INTERSECTS"
    and "mod_ok e \<Longrightarrow> getGtLtOp (-1) e = opMOD \<Longrightarrow> sint (numberInt (firstElement (subelems (snd e)))) \<noteq> -1"
  using assms by (auto simp: name_ok_def callback_names_def mod_ok_def getGtLtOp_def Let_def split: if_splits)

lemma parseSubField_step:
  assumes "parseSubField env q name e level = Inr xs" "operand_ok e" "path_ok b name" "name_ok (fieldName e)" "mod_ok e"
    and "\<And>x. fieldName e = ''$not'' \<Longrightarrow> parseNot env name e level = Inr x \<Longrightarrow> expr_ok (compiled env) b x"
    and "\<And>x. fieldName e \<noteq> ''$eq'' \<Longrightarrow> fieldName e \<noteq> ''$not'' \<Longrightarrow> getGtLtOp (-1) e = opELEM_MATCH \<Longrightarrow>
      parseElemMatch env name e level = Inr x \<Longrightarrow> expr_ok (compiled env) b x"
    and "\<And>x. fieldName e \<noteq> ''$eq'' \<Longrightarrow> fieldName e \<noteq> ''$not'' \<Longrightarrow> getGtLtOp (-1) e = opALL \<Longrightarrow>
      parseAll env name e level = Inr x \<Longrightarrow> expr_ok (compiled env) b x"
  shows "\<forall>x \<in> set xs. expr_ok (compiled env) b x"
proof -
  note leaves = leaf_parsers_ok(1) [OF assms(3) _ assms(2)] leaf_parsers_ok(2) [OF assms(3), of e]
    leaf_parsers_ok(4) [OF assms(3), of env q] leaf_parsers_ok(5,6) [OF assms(3), of e]
    parseArrayFilterEntries_ok [OF _ query_ok_subelems [OF assms(2)]]
  show ?thesis
    using assms(1,3,6-8) leaves handled_ops [OF assms(4)] assms(5) unfolding parseSubField.simps [of env q name e level] Let_def
    by (auto simp: rbind_Inr_iff split: if_splits)
qed

lemma parseNot_step:
  assumes "parseNot env name e level = Inr x" "operand_ok e" "path_ok b name"
    and "\<And>xs. etype e = Object \<Longrightarrow> subelems (snd e) \<noteq> [] \<Longrightarrow>
      parseSub env name (subelems (snd e)) level = Inr xs \<Longrightarrow> \<forall>x \<in> set xs. expr_ok (compiled env) b x"
  shows "expr_ok (compiled env) b x"
  using assms(1,2) assms(4) leaf_parsers_ok(3) [OF assms(3), of env e]
  by (auto simp: parseNot.simps [of env name e level] rbind_Inr_iff split: if_splits)

lemma parseElemMatch_step:
  assumes "parseElemMatch env name e level = Inr x" "path_ok b name"
    and "\<And>xs. isExpressionDocument e True \<Longrightarrow> fieldName (firstElement (subelems (snd e))) \<notin> {''$and'', ''$nor'', ''$or'', ''$where''} \<Longrightarrow>
      etype e = Object \<Longrightarrow> parseSub env '''' (subelems (snd e)) level = Inr xs \<Longrightarrow> \<forall>x \<in> set xs. expr_ok (compiled env) False x"
    and "\<And>x. \<not> (isExpressionDocument e True \<and> fieldName (firstElement (subelems (snd e))) \<notin> {''$and'', ''$nor'', ''$or'', ''$where''}) \<Longrightarrow>
      etype e = Object \<Longrightarrow> parse env (subelems (snd e)) level = Inr x \<Longrightarrow> expr_ok (compiled env) True x"
  shows "expr_ok (compiled env) b x \<and> is_array_expr x"
  using assms by (auto simp: parseElemMatch.simps [of env name e level] Let_def rbind_Inr_iff split: if_splits)

lemma parseAll_elems:
  assumes "query_ok arr" "path_ok b name" "foldr_result (\<lambda>x out.
       if etype x = RegEx then rbind (regex_init_elem env x) (\<lambda>r. Inr (out @ [RegexMatch name r]))
       else if etype x = Object \<and> getGtLtOp (-1) (firstElement (subelems (snd x))) \<noteq> -1
       then Inl (BadValue ''no $ expressions in $all'')
       else rbind (comparison_init EQ name x) (\<lambda>y. Inr (out @ [y]))) arr [] = Inr xs"
  shows "\<forall>x \<in> set xs. expr_ok (compiled env) b x"
  using assms(3)
proof (rule foldr_result_invariant, goal_cases)
  case (2 e s t)
  show ?case
  proof (cases "etype e = RegEx")
    case True
    then obtain r where "regex_init_elem env e = Inr r" "t = s @ [RegexMatch name r]"
      using 2 by (auto simp: rbind_Inr_iff)
    with 2 assms(2) regex_init_ok(2) show ?thesis by simp
  next
    case False
    then obtain y where "comparison_init EQ name e = Inr y" "t = s @ [y]"
      using 2 by (auto simp: rbind_Inr_iff split: if_splits)
    with 2 comparison_init_ok [OF _ assms(2)] query_ok_mem [OF assms(1), of e] show ?thesis by simp
  qed
qed simp

lemma parseAll_step:
  assumes "parseAll env name e level = Inr x" "operand_ok e" "path_ok b name"
    and IH: "\<And>h x. etype e = Array \<Longrightarrow> etype (firstElement (subelems (snd e))) = Object \<Longrightarrow>
      fieldName (firstElement (subelems (snd (firstElement (subelems (snd e)))))) = ''$elemMatch'' \<Longrightarrow>
      h \<in> set (subelems (snd e)) \<Longrightarrow> etype h = Object \<Longrightarrow>
      fieldName (firstElement (subelems (snd h))) = ''$elemMatch'' \<Longrightarrow>
      parseElemMatch env '''' (firstElement (subelems (snd h))) level = Inr x \<Longrightarrow> expr_ok (compiled env) False x \<and> is_array_expr x"
  shows "expr_ok (compiled env) b x"
proof (cases "etype (firstElement (subelems (snd e))) = Object \<and>
    fieldName (firstElement (subelems (snd (firstElement (subelems (snd e)))))) = ''$elemMatch''")
  case True
  then obtain xs where xs: "foldr_result (\<lambda>h out.
        if etype h \<noteq> Object \<or> fieldName (firstElement (subelems (snd h))) \<noteq> ''$elemMatch''
        then Inl (BadValue ''$all/$elemMatch has to be consistent'')
        else rbind (parseElemMatch env '''' (firstElement (subelems (snd h))) level)
               (\<lambda>x. Inr (out @ [x]))) (subelems (snd e)) [] = Inr xs"
    and x: "x = AllElemMatch name xs" and arr: "etype e = Array"
    using assms(1) by (auto simp: parseAll.simps [of env name e level] Let_def rbind_Inr_iff split: if_splits)
  have "\<forall>x \<in> set xs. expr_ok (compiled env) False x \<and> is_array_expr x"
    using xs
  proof (rule foldr_result_invariant, goal_cases)
    case (2 h s t)
    then show ?case using IH [OF arr, of h] True by (auto simp: rbind_Inr_iff split: if_splits)
  qed simp
  with x assms(3) show ?thesis by simp
next
  case False
  then obtain xs where xs: "foldr_result (\<lambda>x out.
       if etype x = RegEx then rbind (regex_init_elem env x) (\<lambda>r. Inr (out @ [RegexMatch name r]))
       else if etype x = Object \<and> getGtLtOp (-1) (firstElement (subelems (snd x))) \<noteq> -1
       then Inl (BadValue ''no $ expressions in $all'')
       else rbind (comparison_init EQ name x) (\<lambda>y. Inr (out @ [y]))) (subelems (snd e)) [] = Inr xs"
    and x: "x = (if xs = [] then FalseMatch else AndMatch xs)"
    using assms(1) unfolding parseAll.simps [of env name e level] Let_def
    by (auto simp: rbind_Inr_iff split: if_splits)
  from parseAll_elems [OF query_ok_subelems [OF assms(2)] assms(3) xs] x show ?thesis by simp
qed

section \<open>Parsed expressions are well-formed\<close>

lemmas parser_induct = parse_parse_elem_parseTreeList_parseSub_parseSubField_parseNot_parseElemMatch_parseAll.induct

lemma parser_ok:
  "\<lbrakk>parse env q level = Inr x; query_ok q\<rbrakk> \<Longrightarrow> expr_ok (compiled env) True x"
  "\<lbrakk>parse_elem env topl e level = Inr xs; name_ok (fieldName e); operand_ok e\<rbrakk> \<Longrightarrow> \<forall>x \<in> set xs. expr_ok (compiled env) True x"
  "\<lbrakk>parseTreeList env q level = Inr xs; query_ok q\<rbrakk> \<Longrightarrow> \<forall>x \<in> set xs. expr_ok (compiled env) True x"
  "\<lbrakk>parseSub env name q level = Inr xs; query_ok q; path_ok b name\<rbrakk> \<Longrightarrow> \<forall>x \<in> set xs. expr_ok (compiled env) b x"
  "\<lbrakk>parseSubField env q name e level = Inr xs; operand_ok e; path_ok b name; name_ok (fieldName e); mod_ok e\<rbrakk> \<Longrightarrow> \<forall>x \<in> set xs. expr_ok (compiled env) b x"
  "\<lbrakk>parseNot env name e level = Inr x; operand_ok e; path_ok b name\<rbrakk> \<Longrightarrow> expr_ok (compiled env) b x"
  "\<lbrakk>parseElemMatch env name e level = Inr x; operand_ok e; path_ok b name\<rbrakk> \<Longrightarrow> expr_ok (compiled env) b x \<and> is_array_expr x"
  "\<lbrakk>parseAll env name e level = Inr x; operand_ok e; path_ok b name\<rbrakk> \<Longrightarrow> expr_ok (compiled env) b x"
proof (induction env q level and env topl e level and env q level and env name q level and env q name e level
    and env name e level and env name e level and env name e level
    arbitrary: x and xs and xs and b xs and b xs and b x and b x and b x
    rule: parser_induct)
  case (1 env obj level)
  show ?case using 1(2,3) by (rule parse_step) (use 1 in \<open>auto simp: parse.simps split: if_splits\<close>)
next
  case (2 env topLevel e level)
  note IH = 2(1-4) and q = query_ok_subelems [OF 2(7)]
  show ?case using 2(5-7)
  proof (rule parse_elem_step, goal_cases)
    case (1 ys)
    then show ?case using IH(1-3) [OF _ refl] q by auto
  next
    case (2 ys)
    then show ?case using q IH(4) by blast
  qed
next
  case (3 env arr level)
  show ?case using 3(2,3)
    by (rule parseTreeList_step) (use 3 in \<open>auto simp: parseTreeList.simps split: if_splits\<close>)
next
  case (4 env name sub level)
  show ?case using 4(2,3)
    by (rule parseSub_step) (use 4 in \<open>auto simp: parseSub.simps split: if_splits\<close>)
next
  case (5 env ctx name e level)
  note IH = 5(1-3) [OF refl refl] and env = 5(5,6)
  show ?case using 5(4-8)
  proof (rule parseSubField_step, goal_cases)
    case (1 x)
    then show ?case by (intro IH(1)) (simp_all add: env)
  next
    case (2 x)
    then show ?case by (intro conjunct1 [OF IH(2)]) (simp_all add: env)
  next
    case (3 x)
    then show ?case by (intro IH(3)) (simp_all add: env)
  qed
next
  case (6 env name e level)
  show ?case using 6(2-4) by (rule parseNot_step) (intro 6(1), simp_all add: query_ok_subelems 6(3,4))
next
  case (7 env name e level)
  note q = query_ok_subelems [OF 7(4)]
  show ?case using 7(3,5)
    by (rule parseElemMatch_step) (use 7(1,2) [OF _ refl refl refl] q in \<open>simp_all add: path_ok_def\<close>)
next
  case (8 env name e level)
  have "operand_ok (firstElement (subelems (snd h)))" if "h \<in> set (subelems (snd e))" for h
    using operand_ok_first query_ok_subelems query_ok_mem [OF query_ok_subelems [OF 8(3)] that] by blast
  note first = this
  show ?case using 8(2-4)
  proof (rule parseAll_step, goal_cases)
    case (1 h x)
    then show ?case using 8(1) [OF _ refl, of h x False] first [of h] by (simp add: path_ok_def)
  qed
qed

section \<open>Properties\<close>

text \<open>The expression of a matcher that was built from a well-formed query, and its decision.\<close>

lemma Matcher2_ok: "Matcher2 env q = Inr e \<Longrightarrow> query_ok q \<Longrightarrow> expr_ok (compiled env) True e"
  using parser_ok(1) by (auto simp: Matcher2_def split: sum.splits perr.splits)

text \<open>
  C10. A matcher built from a well-formed query decides every order-safe document: it never throws, and answers
  whether the document satisfies the expression the query parses to.  A well-formed query has order-safe
  operands, paths without empty parts, no \<open>$mod\<close> by -1, and no operator of JavaScript, text search or geometry.
\<close>

theorem Matcher2_decides:
  assumes "Matcher2 env q = Inr e" "query_ok q" "osafe_obj doc"
  shows "\<exists>details'. matcher_matches e doc details = Inr (sat e doc, details')"
  using evaluatesD(1) [OF expr_evaluates [OF Matcher2_ok [OF assms(1,2)]] TrueI assms(3)]
  by (simp add: matcher_matches_def)

definition sample_env :: parse_env where
  "sample_env = \<lparr>pe_regex = (\<lambda>_ _ _. False), pe_geo = expressionParserGeoCallbackDefault,
     pe_where = expressionParserWhereCallbackDefault, pe_text = expressionParserTextCallbackDefault, pe_toString = (\<lambda>_. [])\<rparr>"

definition sample_query :: bobj where
  "sample_query = [(''a'', BObject [(''$gt'', BNumberInt 3), (''$elemMatch'', BObject [(''b.c'', BNumberInt 1)])])]"

definition sample_expr :: mexpr where
  "sample_expr = AndMatch [ComparisonMatch GT ''a'' (''$gt'', BNumberInt 3),
     ElemMatchObject ''a'' (ComparisonMatch EQ ''b.c'' (''b.c'', BNumberInt 1))]"

lemmas sample_parse_simps = Matcher2_def parse.simps parse_elem.simps parseSub.simps parseSubField.simps
  parseElemMatch.simps kMaximumTreeDepth_def starts_dollar_def fieldName_def eoo_def etype_def isExpressionDocument_def
  isDBRefDocument_def firstElement_def geo_peek_def isABSONObj_def getGtLtOp_def parseComparison_def comparison_init_def

lemma sample_parses: "Matcher2 env sample_query = Inr sample_expr"
  by (simp add: sample_query_def sample_expr_def sample_parse_simps)

lemma sample_ok: "query_ok sample_query" "sample_query \<noteq> []"
  by (simp_all add: sample_query_def query_ok_def name_ok_def mod_ok_def callback_names_def starts_dollar_def good_parts_def
      fieldName_def eoo_def etype_def)

lemma Matcher2_decides_witness:
  "\<exists>details'. matcher_matches sample_expr [(''a'', BArray [(''0'', BNumberInt 7)])] (Some md_init)
     = Inr (sat sample_expr [(''a'', BArray [(''0'', BNumberInt 7)])], details')"
  by (rule Matcher2_decides [OF sample_parses sample_ok(1)]) simp

end
