(* ===== verification/MatchEquiv.thy ===== *)
theory MatchEquiv
  imports MatchWellFormed
begin

text \<open>
  The structural comparison of match expressions, \<open>equivalent\<close> of \<open>src/src/mongo/db/matcher/expression*.{h,cpp}\<close>, and its
  soundness: expressions it identifies accept the same documents.  The comparison of geometric, \<open>$where\<close> and text
  expressions is a parameter.
\<close>

section \<open>Comparing expressions\<close>

definition valuesEqual :: "belem \<Rightarrow> belem \<Rightarrow> bool result" where
  "valuesEqual l r = rbind (woCompare False l r) (\<lambda>c. Inr (c = 0))"

definition elem_equal :: "belem \<Rightarrow> belem \<Rightarrow> bool result" where
  "elem_equal l r = rbind (woCompare True l r) (\<lambda>c. Inr (c = 0))"

definition same_length_all :: "('a \<Rightarrow> 'a \<Rightarrow> bool result) \<Rightarrow> 'a list \<Rightarrow> 'a list \<Rightarrow> bool result" where
  "same_length_all eq xs ys =
     (if length xs \<noteq> length ys then Inr False else all_of (map (\<lambda>p u. eq (fst p) (snd p)) (zip xs ys)))"

lemma same_length_all_cong [fundef_cong]:
  assumes "xs = xs'" "ys = ys'" "\<And>x y. x \<in> set xs' \<Longrightarrow> y \<in> set ys' \<Longrightarrow> eq x y = eq' x y"
  shows "same_length_all eq xs ys = same_length_all eq' xs' ys'"
proof -
  have "map (\<lambda>p (u :: unit). eq (fst p) (snd p)) (zip xs' ys') = map (\<lambda>p u. eq' (fst p) (snd p)) (zip xs' ys')"
    by (rule map_cong) (auto simp: fun_eq_iff intro!: assms(3) dest: set_zip_leftD set_zip_rightD)
  then show ?thesis by (simp only: assms(1,2) same_length_all_def)
qed

definition regex_equivalent :: "regex \<Rightarrow> regex \<Rightarrow> bool" where
  "regex_equivalent r s \<longleftrightarrow> fst r = fst s \<and> fst (snd r) = fst (snd s)"

definition afe_equivalent :: "array_filter_entries \<Rightarrow> array_filter_entries \<Rightarrow> bool result" where
  "afe_equivalent en other =
     (if afe_hasNull en \<noteq> afe_hasNull other then Inr False
      else rbind (same_length_all (\<lambda>r s. Inr (regex_equivalent r s)) (afe_regexes en) (afe_regexes other)) (\<lambda>b.
        if \<not> b then Inr False else same_length_all elem_equal (afe_equalities en) (afe_equalities other)))"

function (sequential) equivalent :: "(mexpr \<Rightarrow> mexpr \<Rightarrow> bool) \<Rightarrow> mexpr \<Rightarrow> mexpr \<Rightarrow> bool result" where
  "equivalent q (AndMatch xs) other = (case other of AndMatch ys \<Rightarrow> same_length_all (equivalent q) xs ys | _ \<Rightarrow> Inr False)"
| "equivalent q (OrMatch xs) other = (case other of OrMatch ys \<Rightarrow> same_length_all (equivalent q) xs ys | _ \<Rightarrow> Inr False)"
| "equivalent q (NorMatch xs) other = (case other of NorMatch ys \<Rightarrow> same_length_all (equivalent q) xs ys | _ \<Rightarrow> Inr False)"
| "equivalent q (NotMatch x) other = (case other of NotMatch y \<Rightarrow> equivalent q x y | _ \<Rightarrow> Inr False)"
| "equivalent q (AllElemMatch path xs) other = (case other of
     AllElemMatch path' ys \<Rightarrow> if path \<noteq> path' then Inr False else same_length_all (equivalent q) xs ys
   | _ \<Rightarrow> Inr False)"
| "equivalent q (ElemMatchObject path x) other = (case other of
     ElemMatchObject path' y \<Rightarrow> if path \<noteq> path' then Inr False else equivalent q x y
   | _ \<Rightarrow> Inr False)"
| "equivalent q (ElemMatchValue path xs) other = (case other of
     ElemMatchValue path' ys \<Rightarrow> if path \<noteq> path' then Inr False else same_length_all (equivalent q) xs ys
   | _ \<Rightarrow> Inr False)"
| "equivalent q (SizeMatch path n) other = (case other of
     SizeMatch path' n' \<Rightarrow> Inr (path = path' \<and> n = n') | _ \<Rightarrow> Inr False)"
| "equivalent q (ComparisonMatch mt path rhs) other = (case other of
     ComparisonMatch mt' path' rhs' \<Rightarrow>
       if mt \<noteq> mt' then Inr False else if path \<noteq> path' then Inr False else valuesEqual rhs rhs'
   | _ \<Rightarrow> Inr False)"
| "equivalent q (RegexMatch path r) other = (case other of
     RegexMatch path' r' \<Rightarrow> Inr (path = path' \<and> regex_equivalent r r') | _ \<Rightarrow> Inr False)"
| "equivalent q (ModMatch path d r) other = (case other of
     ModMatch path' d' r' \<Rightarrow> Inr (path = path' \<and> d = d' \<and> r = r') | _ \<Rightarrow> Inr False)"
| "equivalent q (ExistsMatch path) other = (case other of ExistsMatch path' \<Rightarrow> Inr (path = path') | _ \<Rightarrow> Inr False)"
| "equivalent q (InMatch path en) other = (case other of
     InMatch path' en' \<Rightarrow> if path \<noteq> path' then Inr False else afe_equivalent en en' | _ \<Rightarrow> Inr False)"
| "equivalent q (TypeMatch path t) other = (case other of
     TypeMatch path' t' \<Rightarrow> Inr (path = path' \<and> t = t') | _ \<Rightarrow> Inr False)"
| "equivalent q (OtherMatch t f g) other = Inr (q (OtherMatch t f g) other)"
| "equivalent q AtomicMatch other = (case other of AtomicMatch \<Rightarrow> Inr True | _ \<Rightarrow> Inr False)"
| "equivalent q FalseMatch other = (case other of FalseMatch \<Rightarrow> Inr True | _ \<Rightarrow> Inr False)"
  by pat_completeness auto
termination
  by (relation "measure (\<lambda>(q, x, y). size x)") (auto dest: size_list_estimation' [where f = size, OF _ order_refl])

section \<open>Operands that compare equal\<close>

lemma all_of_True: "all_of (map (\<lambda>x u. f x) xs) = Inr True \<Longrightarrow> \<forall>x \<in> set xs. f x = Inr True"
  by (induction xs) (auto simp: rbind_Inr_iff split: if_splits)

lemma same_length_allD:
  assumes "same_length_all eq xs ys = Inr True"
  shows "list_all2 (\<lambda>x y. eq x y = Inr True) xs ys"
proof -
  have "length xs = length ys" and zip: "all_of (map (\<lambda>p u. eq (fst p) (snd p)) (zip xs ys)) = Inr True"
    using assms by (auto simp: same_length_all_def split: if_splits)
  with all_of_True [OF zip] show ?thesis by (auto simp: list_all2_iff)
qed

text \<open>An operand may be replaced by one of the same value: every comparison keeps its sign.\<close>

definition same_operand :: "belem \<Rightarrow> belem \<Rightarrow> bool" where
  "same_operand a b \<longleftrightarrow> osafe (snd a) \<and> osafe (snd b) \<and> canonicalType a = canonicalType b
     \<and> compareElementValues a b = Inr 0 \<and> woCompare False a b = Inr 0"

lemma same_operandI:
  assumes "woCompare f a b = Inr 0" "osafe (snd a)" "osafe (snd b)"
  shows "same_operand a b"
  using assms canonical_number [of a b]
  by (auto simp: woCompare.simps [of _ a b] same_operand_def Let_def split: if_splits)

lemma tri_same:
  "tri x (Inr 0) z \<Longrightarrow> \<exists>c d. x = Inr c \<and> z = Inr d \<and> sgn c = sgn d"
  "tri (Inr 0) x z \<Longrightarrow> \<exists>c d. x = Inr c \<and> z = Inr d \<and> sgn c = sgn d"
  unfolding tri_def by (force simp: sgn_if)+

lemma sgn_cases: "sgn (c :: int) = sgn d \<Longrightarrow> (c < 0 \<longleftrightarrow> d < 0) \<and> (c \<le> 0 \<longleftrightarrow> d \<le> 0) \<and> (c = 0 \<longleftrightarrow> d = 0)
    \<and> (0 < c \<longleftrightarrow> 0 < d) \<and> (0 \<le> c \<longleftrightarrow> 0 \<le> d)"
  by (auto simp: sgn_if split: if_splits)

lemma same_operand_comparison:
  assumes "same_operand a b" "osafe (snd x)"
  shows "comparison_matches mt a x = comparison_matches mt b x"
proof (cases "canonicalType x = canonicalType a")
  case True
  then have "tri (compareElementValues x a) (compareElementValues a b) (compareElementValues x b)"
    using assms by (intro woCompare_tri_all(1)) (auto simp: same_operand_def)
  then obtain c d where "compareElementValues x a = Inr c" "compareElementValues x b = Inr d" "sgn c = sgn d"
    using tri_same(1) assms(1) by (fastforce simp: same_operand_def)
  with True assms(1) sgn_cases [of c d] show ?thesis
    by (simp add: comparison_matches_def same_operand_def split: cmp_type.split)
next
  case False
  moreover have "canonicalType a = canonicalType b" using assms(1) by (simp add: same_operand_def)
  moreover from this have "etype a \<in> {MaxKey, MinKey} \<longleftrightarrow> etype b \<in> {MaxKey, MinKey}"
    by (cases "etype a"; cases "etype b") (auto simp: canonicalType_def)
  ultimately show ?thesis by (simp add: comparison_matches_def)
qed

lemma same_operand_less:
  assumes "same_operand a b" "osafe (snd x)"
  shows "BSONElementCmpWithoutField x a = BSONElementCmpWithoutField x b"
    "BSONElementCmpWithoutField a x = BSONElementCmpWithoutField b x"
proof -
  have ab: "osafe (snd a)" "osafe (snd b)" "woCompare False a b = Inr 0" using assms(1) by (simp_all add: same_operand_def)
  obtain c d where "woCompare False x a = Inr c" "woCompare False x b = Inr d" "sgn c = sgn d"
    using tri_same(1) [OF woCompare_tri_all(2) [OF assms(2) ab(1,2), of False, unfolded ab(3)]] by blast
  with sgn_cases [of c d] show "BSONElementCmpWithoutField x a = BSONElementCmpWithoutField x b"
    by (simp add: BSONElementCmpWithoutField_def)
  obtain c d where "woCompare False b x = Inr c" "woCompare False a x = Inr d" "sgn c = sgn d"
    using tri_same(2) [OF woCompare_tri_all(2) [OF ab(1,2) assms(2), of False, unfolded ab(3)]] by blast
  with sgn_cases [of c d] show "BSONElementCmpWithoutField a x = BSONElementCmpWithoutField b x"
    by (simp add: BSONElementCmpWithoutField_def)
qed

lemma same_operand_count:
  assumes "list_all2 same_operand xs ys" "osafe (snd x)"
  shows "elset_count x xs = elset_count x ys"
  using assms(1)
proof (induction rule: list_all2_induct)
  case (Cons a as b bs)
  show ?case by (simp add: same_operand_less [OF Cons(1) assms(2)] Cons(3) cong: if_cong)
qed simp

lemma regex_equivalent_eq: "regex_equivalent r s \<Longrightarrow> regex_compiled env r \<Longrightarrow> regex_compiled env s \<Longrightarrow> r = s"
  by (cases r; cases s) (simp add: regex_equivalent_def regex_compiled_def)

lemma afe_equivalent_matches:
  assumes "afe_equivalent en en' = Inr True" "osafe (snd x)"
    and "\<forall>x \<in> set (afe_equalities en) \<union> set (afe_equalities en'). osafe (snd x)"
    and "\<forall>r \<in> set (afe_regexes en) \<union> set (afe_regexes en'). regex_compiled env r"
  shows "in_matches en x = in_matches en' x"
proof -
  have nulls: "afe_hasNull en = afe_hasNull en'"
    and re: "list_all2 (\<lambda>r s. regex_equivalent r s) (afe_regexes en) (afe_regexes en')"
    and eq: "list_all2 (\<lambda>a b. elem_equal a b = Inr True) (afe_equalities en) (afe_equalities en')"
    using assms(1) by (auto simp: afe_equivalent_def rbind_Inr_iff dest!: same_length_allD split: if_splits)
  have "list_all2 same_operand (afe_equalities en) (afe_equalities en')"
    using eq assms(3) by (auto simp: list_all2_iff elem_equal_def rbind_Inr_iff intro!: same_operandI dest: set_zip_leftD set_zip_rightD)
  then have count: "elset_count x (afe_equalities en) = elset_count x (afe_equalities en')"
    using assms(2) by (rule same_operand_count)
  have "list_all2 (=) (afe_regexes en) (afe_regexes en')"
    using re by (rule list.rel_mono_strong) (use assms(4) regex_equivalent_eq in blast)
  then have "afe_regexes en = afe_regexes en'" by (simp only: list.rel_eq)
  with nulls count show ?thesis by (simp add: in_matches_def matchesRealElement_def)
qed

section \<open>Equivalent expressions accept the same documents\<close>

definition same_meaning :: "mexpr \<Rightarrow> mexpr \<Rightarrow> bool" where
  "same_meaning x y \<longleftrightarrow> (\<forall>doc. osafe_obj doc \<longrightarrow> sat x doc = sat y doc)
     \<and> (\<forall>e. osafe (snd e) \<longrightarrow> sat_elem x e = sat_elem y e) \<and> (\<forall>a. osafe_obj a \<longrightarrow> sat_array x a = sat_array y a)"

lemma same_meaningD:
  assumes "same_meaning x y"
  shows "osafe_obj doc \<Longrightarrow> sat x doc = sat y doc" "osafe (snd e) \<Longrightarrow> sat_elem x e = sat_elem y e"
    "osafe_obj a \<Longrightarrow> sat_array x a = sat_array y a"
  using assms unfolding same_meaning_def by blast+

lemma some_reached_cong:
  "(\<And>x. osafe (snd x) \<Longrightarrow> P x = Q x) \<Longrightarrow> osafe_obj doc \<Longrightarrow> some_reached P path doc = some_reached Q path doc"
  using osafe_path_elems(1) [of doc] by (auto simp: some_reached_def reached_def)

lemma some_array_cong:
  "(\<And>a. osafe_obj a \<Longrightarrow> P a = Q a) \<Longrightarrow> osafe_obj doc \<Longrightarrow> some_array P path doc = some_array Q path doc"
  unfolding some_array_def reached_def using osafe_subelems [OF osafe_path_elems(1) [of doc]]
  by (intro bex_cong conj_cong refl) blast

lemma same_meaning_leaf:
  assumes "\<And>x. osafe (snd x) \<Longrightarrow> sat_elem e x = sat_elem f x"
    "\<And>doc. sat e doc = some_reached (sat_elem e) path doc" "\<And>doc. sat f doc = some_reached (sat_elem f) path doc"
    "\<And>a. sat_array e a = sat_array f a"
  shows "same_meaning e f"
  using assms some_reached_cong [of "sat_elem e" "sat_elem f"] by (simp add: same_meaning_def)

lemma same_meaning_array:
  assumes "\<And>a. osafe_obj a \<Longrightarrow> sat_array e a = sat_array f a"
    "\<And>doc. sat e doc = some_array (sat_array e) path doc" "\<And>doc. sat f doc = some_array (sat_array f) path doc"
    "\<And>x. sat_elem e x = (etype x = Array \<and> sat_array e (subelems (snd x)))"
    "\<And>x. sat_elem f x = (etype x = Array \<and> sat_array f (subelems (snd x)))"
  shows "same_meaning e f"
  using assms some_array_cong [of "sat_array e" "sat_array f"] osafe_subelems by (auto simp: same_meaning_def)

lemma list_all2_quant:
  assumes "list_all2 (\<lambda>x y. P x = Q y) xs ys"
  shows "(\<forall>x \<in> set xs. P x) = (\<forall>y \<in> set ys. Q y)" "(\<exists>x \<in> set xs. P x) = (\<exists>y \<in> set ys. Q y)"
    "(\<forall>x \<in> set xs. \<not> P x) = (\<forall>y \<in> set ys. \<not> Q y)"
  using assms by (induction rule: list_all2_induct) auto

lemma same_meaning_lists:
  assumes "list_all2 same_meaning xs ys"
  shows "osafe_obj doc \<Longrightarrow> list_all2 (\<lambda>x y. sat x doc = sat y doc) xs ys"
    "osafe (snd e) \<Longrightarrow> list_all2 (\<lambda>x y. sat_elem x e = sat_elem y e) xs ys"
    "osafe_obj a \<Longrightarrow> list_all2 (\<lambda>x y. sat_array x a = sat_array y a) xs ys"
  by (rule list_all2_mono [OF assms], simp add: same_meaningD)+

lemma same_meaning_trees:
  assumes "list_all2 same_meaning xs ys"
  shows "same_meaning (AndMatch xs) (AndMatch ys)" "same_meaning (OrMatch xs) (OrMatch ys)"
    "same_meaning (NorMatch xs) (NorMatch ys)" "same_meaning (ElemMatchValue path xs) (ElemMatchValue path ys)"
    "same_meaning (AllElemMatch path xs) (AllElemMatch path ys)"
proof -
  note docs = list_all2_quant [OF same_meaning_lists(1) [OF assms]]
    and elems = list_all2_quant [OF same_meaning_lists(2) [OF assms]]
    and arrs = list_all2_quant(1) [OF same_meaning_lists(3) [OF assms]]
  show "same_meaning (AndMatch xs) (AndMatch ys)" "same_meaning (OrMatch xs) (OrMatch ys)"
    "same_meaning (NorMatch xs) (NorMatch ys)"
    using docs elems by (simp_all add: same_meaning_def)
  show "same_meaning (ElemMatchValue path xs) (ElemMatchValue path ys)"
  proof (rule same_meaning_array [of _ _ path])
    show "sat_array (ElemMatchValue path xs) a = sat_array (ElemMatchValue path ys) a" if "osafe_obj a" for a
      using elems(1) [OF osafe_mem [OF that]] by simp
  qed simp_all
  have nil: "xs = [] \<longleftrightarrow> ys = []" using assms by auto
  show "same_meaning (AllElemMatch path xs) (AllElemMatch path ys)"
    using arrs nil osafe_subelems
      some_array_cong [of "\<lambda>a. xs \<noteq> [] \<and> (\<forall>e \<in> set xs. sat_array e a)" "\<lambda>a. ys \<noteq> [] \<and> (\<forall>e \<in> set ys. sat_array e a)"]
    by (simp add: same_meaning_def)
qed

lemma equivalent_lists:
  assumes "same_length_all (equivalent q) xs ys = Inr True"
    and "\<And>x y. x \<in> set xs \<Longrightarrow> equivalent q x y = Inr True \<Longrightarrow> expr_ok L b x \<Longrightarrow> expr_ok L b y \<Longrightarrow> same_meaning x y"
    and "\<forall>x \<in> set xs. expr_ok L b x" "\<forall>y \<in> set ys. expr_ok L b y"
  shows "list_all2 same_meaning xs ys"
  using same_length_allD [OF assms(1)] by (rule list.rel_mono_strong) (use assms(2-4) in blast)

lemma equivalent_same_meaning:
  "equivalent q x y = Inr True \<Longrightarrow> expr_ok (compiled env) b x \<Longrightarrow> expr_ok (compiled env) b y \<Longrightarrow> same_meaning x y"
proof (induction x arbitrary: y b)
  case (AndMatch xs)
  then obtain ys where y: "y = AndMatch ys" "same_length_all (equivalent q) xs ys = Inr True" by (cases y) auto
  have "list_all2 same_meaning xs ys"
    by (rule equivalent_lists [OF y(2)], erule (3) AndMatch.IH) (use AndMatch.prems y(1) in \<open>simp_all add: ball_conj_distrib\<close>)
  then show ?case unfolding y(1) by (rule same_meaning_trees(1))
next
  case (OrMatch xs)
  then obtain ys where y: "y = OrMatch ys" "same_length_all (equivalent q) xs ys = Inr True" by (cases y) auto
  have "list_all2 same_meaning xs ys"
    by (rule equivalent_lists [OF y(2)], erule (3) OrMatch.IH) (use OrMatch.prems y(1) in \<open>simp_all add: ball_conj_distrib\<close>)
  then show ?case unfolding y(1) by (rule same_meaning_trees(2))
next
  case (NorMatch xs)
  then obtain ys where y: "y = NorMatch ys" "same_length_all (equivalent q) xs ys = Inr True" by (cases y) auto
  have "list_all2 same_meaning xs ys"
    by (rule equivalent_lists [OF y(2)], erule (3) NorMatch.IH) (use NorMatch.prems y(1) in \<open>simp_all add: ball_conj_distrib\<close>)
  then show ?case unfolding y(1) by (rule same_meaning_trees(3))
next
  case (NotMatch x)
  then obtain y' where "y = NotMatch y'" "same_meaning x y'" by (cases y) auto
  then show ?case by (simp add: same_meaning_def)
next
  case (AllElemMatch path xs)
  then obtain ys where y: "y = AllElemMatch path ys" "same_length_all (equivalent q) xs ys = Inr True"
    by (cases y) (auto split: if_splits)
  have "list_all2 same_meaning xs ys"
    by (rule equivalent_lists [OF y(2), where b = False], erule (3) AllElemMatch.IH) (use AllElemMatch.prems y(1) in \<open>simp_all add: ball_conj_distrib\<close>)
  then show ?case unfolding y(1) by (rule same_meaning_trees(5))
next
  case (ElemMatchObject path x)
  then obtain y' where y: "y = ElemMatchObject path y'" "same_meaning x y'" by (cases y) (auto split: if_splits)
  show ?case unfolding y
  proof (rule same_meaning_array [of _ _ path])
    show "sat_array (ElemMatchObject path x) a = sat_array (ElemMatchObject path y') a" if "osafe_obj a" for a
      using same_meaningD(1) [OF y(2) osafe_subelems [OF osafe_mem [OF that]]] by simp
  qed simp_all
next
  case (ElemMatchValue path xs)
  then obtain ys where y: "y = ElemMatchValue path ys" "same_length_all (equivalent q) xs ys = Inr True"
    by (cases y) (auto split: if_splits)
  have "list_all2 same_meaning xs ys"
    by (rule equivalent_lists [OF y(2), where b = False], erule (3) ElemMatchValue.IH) (use ElemMatchValue.prems y(1) in \<open>simp_all add: ball_conj_distrib\<close>)
  then show ?case unfolding y(1) by (rule same_meaning_trees(4))
next
  case (ComparisonMatch mt path rhs)
  then obtain rhs' where y: "y = ComparisonMatch mt path rhs'" "woCompare False rhs rhs' = Inr 0"
    by (cases y) (auto simp: valuesEqual_def rbind_Inr_iff split: if_splits)
  then have "same_operand rhs rhs'" using ComparisonMatch by (intro same_operandI) auto
  from same_operand_comparison [OF this] show ?case
    unfolding y by (intro same_meaning_leaf [of _ _ path]) (simp_all add: holds_def)
next
  case (RegexMatch path r)
  then obtain r' where y: "y = RegexMatch path r'" "regex_equivalent r r'" by (cases y) auto
  with RegexMatch have "r = r'" using regex_equivalent_eq [of r r' env] by simp
  then show ?case using y by (simp add: same_meaning_def)
next
  case (InMatch path en)
  then obtain en' where y: "y = InMatch path en'" "afe_equivalent en en' = Inr True"
    by (cases y) (auto split: if_splits)
  have "in_matches en x = in_matches en' x" if "osafe (snd x)" for x
    using afe_equivalent_matches [OF y(2) that, of env] InMatch y(1) by auto
  then show ?case unfolding y by (intro same_meaning_leaf [of _ _ path]) (simp_all add: holds_def)
next
  case (OtherMatch t f g)
  then show ?case by simp
qed (auto simp: same_meaning_def split: mexpr.splits)

lemma same_length_all_refl: "(\<And>x. x \<in> set xs \<Longrightarrow> eq x x = Inr True) \<Longrightarrow> same_length_all eq xs xs = Inr True"
  unfolding same_length_all_def by (induction xs) auto

lemma equivalent_refl: "expr_ok (compiled env) b x \<Longrightarrow> equivalent q x x = Inr True"
proof (induction x arbitrary: b)
  case (ComparisonMatch mt path rhs)
  then show ?case using woCompare_refl_all(2) [of rhs rhs False] by (simp add: valuesEqual_def)
next
  case (InMatch path en)
  then have "same_length_all elem_equal (afe_equalities en) (afe_equalities en) = Inr True"
    using woCompare_refl_all(2) [of _ _ True] by (intro same_length_all_refl) (auto simp: elem_equal_def)
  then show ?case by (simp add: afe_equivalent_def same_length_all_refl regex_equivalent_def)
next
  case (OtherMatch t f g)
  then show ?case by simp
qed (auto intro!: same_length_all_refl simp: regex_equivalent_def)

section \<open>Properties\<close>

text \<open>
  C27. Queries that are found equivalent select the same documents.  The matcher of a well-formed query is
  equivalent to itself, and when the expressions of two well-formed queries are found equivalent, both matchers
  return and give the same answer on every order-safe document.  Well-formed queries have order-safe operands,
  paths without empty parts, no \<open>$mod\<close> by -1, and no operator of JavaScript, text search or geometry.
\<close>

theorem equivalent_queries:
  assumes "Matcher2 env q1 = Inr x" "Matcher2 env q2 = Inr y" "query_ok q1" "query_ok q2" "osafe_obj doc"
  shows "equivalent other x x = Inr True \<and> (equivalent other x y = Inr True \<longrightarrow>
    (\<exists>b d e. matcher_matches x doc details = Inr (b, d) \<and> matcher_matches y doc details = Inr (b, e)))"
proof -
  note ok = Matcher2_ok [OF assms(1,3)] Matcher2_ok [OF assms(2,4)]
  obtain d e where "matcher_matches x doc details = Inr (sat x doc, d)" "matcher_matches y doc details = Inr (sat y doc, e)"
    using evaluatesD(1) [OF expr_evaluates [OF ok(1)] TrueI assms(5), of details]
      evaluatesD(1) [OF expr_evaluates [OF ok(2)] TrueI assms(5), of details]
    unfolding matcher_matches_def by blast
  moreover have "sat x doc = sat y doc" if "equivalent other x y = Inr True"
    using equivalent_same_meaning [OF that ok] same_meaningD(1) assms(5) by blast
  moreover have "equivalent other x x = Inr True" using ok(1) by (rule equivalent_refl)
  ultimately show ?thesis by auto
qed

definition sample_query_long :: bobj where
  "sample_query_long = [(''a'', BObject [(''$gt'', BNumberLong 3), (''$elemMatch'', BObject [(''b.c'', BNumberInt 1)])])]"

definition sample_expr_long :: mexpr where
  "sample_expr_long = AndMatch [ComparisonMatch GT ''a'' (''$gt'', BNumberLong 3),
     ElemMatchObject ''a'' (ComparisonMatch EQ ''b.c'' (''b.c'', BNumberInt 1))]"

lemma sample_long_parses: "Matcher2 env sample_query_long = Inr sample_expr_long"
  by (simp add: sample_query_long_def sample_expr_long_def sample_parse_simps)

lemma sample_long_ok: "query_ok sample_query_long"
  by (simp add: sample_query_long_def query_ok_def name_ok_def mod_ok_def callback_names_def starts_dollar_def good_parts_def
      fieldName_def eoo_def etype_def)

lemma sample_equivalent: "equivalent (=) sample_expr sample_expr_long = Inr True"
  by (simp add: sample_expr_def sample_expr_long_def same_length_all_def valuesEqual_def woCompare.simps
      compareElementValues.simps canonicalType_def isNumber_def isABSONObj_def etype_def compareScalars_def
      numberDouble_def compareDoubles_def dbl_of_int_def round53_small)

lemma equivalent_queries_witness:
  "equivalent (=) sample_expr sample_expr = Inr True \<and>
   (\<exists>b d e. matcher_matches sample_expr [(''a'', BNumberInt 7)] None = Inr (b, d)
      \<and> matcher_matches sample_expr_long [(''a'', BNumberInt 7)] None = Inr (b, e))"
  using equivalent_queries [OF sample_parses sample_long_parses sample_ok(1) sample_long_ok,
      of "[(''a'', BNumberInt 7)]" "(=)" None] sample_equivalent by simp

end
