(* ===== verification/Spec2Isabelle.thy ===== *)
theory Spec2Isabelle
  imports PubSubCommands Topology DbEvents BsonBuilder BsonReader BsonValidate MatchEquiv
begin

text \<open>
  Verification of the publish/subscribe extension of the MongoDB server.

  \<^bold>\<open>The program.\<close>  Clients reach the extension through four commands, \<open>publish\<close>, \<open>subscribe\<close>, \<open>poll\<close> and
  \<open>unsubscribe\<close> (db/commands/pubsub_commands.cpp).  \<open>publish\<close> hands a message to the sending socket
  (db/pubsub_sendsock.cpp), which reaches the other processes over the messaging library: members of a replica set
  send to each other, a sharded cluster sends through one config server.  \<open>subscribe\<close> enters a subscription with a
  channel prefix, a filter and a projection into a table (db/pubsub.cpp); \<open>poll\<close> checks subscriptions out, waits in
  short intervals, receives, filters and projects, and checks them in again; \<open>unsubscribe\<close> and a cleanup thread
  remove them.  The filter is an ordinary query, evaluated by the matcher (db/matcher/), and the projection that of
  db/projection.cpp.  Writes to collections report themselves on a reserved channel
  (db/catalog/collection.cpp, db/ops/update.cpp).  Everything is exchanged as BSON, whose values, bytes, builders,
  validation and iteration (bson/) are part of the model.  All paths are below \<open>src/src/mongo\<close>.

  \<^bold>\<open>Conventions.\<close>  Integers whose width matters are words, elsewhere \<open>int\<close>; strings are lists of bytes; exceptions
  and bad states are the left values of a sum (\<open>result\<close>, or a type of the component); undefined behaviour that
  the code can reach is a value of its own (\<open>Stuck\<close>, \<open>Overrun\<close>, \<open>Undef\<close>, \<open>Dangling\<close>, \<open>None\<close>).  The messaging
  library, the regular expression library, the storage engine, the clock and the representation of doubles are
  arguments of the definitions that use them, and so are the functions behind the pointers through which the query
  parser reaches geometry, JavaScript and text search.

  \<^bold>\<open>Theories.\<close>
  \<^item> \<open>Prelude\<close>: words, results, comparison of byte strings, folds that may fail.
  \<^item> \<open>StdLib\<close>: \<open>std::map\<close>, \<open>std::set\<close> and \<open>std::priority_queue\<close> as lists in the order of their comparator, with
    the locales \<open>strict_weak_order\<close> and \<open>prio_queue\<close>, interpreted for the orders of object ids, hosts, strings, BSON
    elements and messages.
  \<^item> \<open>Oid\<close> (bson/oid.{h,cpp}): comparison, hex form and generation of object ids.
  \<^item> \<open>Strings\<close> (base/, util/): slices, splitting and joining, comparison with embedded numbers, integers in a base.
  \<^item> \<open>Bson\<close> (bson/bsonelement.h, bson-inl.h, bsonobj.h): values as \<open>bval\<close>, documents as lists of named values,
    accessors, \<open>woCompare\<close>, sets of elements.  The comparison is a total preorder on \<open>osafe\<close> values, those without
    the types and magnitudes on which the code throws or loses precision.
  \<^item> \<open>BsonObj\<close> (bson/bsonobj.h, bson-inl.h): the assertion that a document is at most 16 MB and 16 KB, and when a
    builder that owns its buffer passes it.  Events and replies are built under it.
  \<^item> \<open>BsonBytes\<close>, \<open>BsonBuilder\<close>, \<open>BsonValidate\<close>, \<open>BsonReader\<close>: the layout \<open>enc_obj\<close>; \<open>_BufBuilder\<close>,
    \<open>BSONObjBuilder\<close> and \<open>BSONArrayBuilder\<close>; the state machine of \<open>validateBSON\<close>; the accessors, element sizes and
    the iterator.  Each is related to the layout, and \<open>document_round_trip\<close> below joins them.  The locale
    \<open>element_writer\<close> is the contract of an append; it is interpreted for the typed, the copying and the renaming one.
  \<^item> \<open>FieldRef\<close> (db/field_ref.cpp) and \<open>Path\<close> (db/matcher/path.cpp): dotted paths, and the iterator over the elements a
    path reaches as the state machine of the code, with a list of elements as its specification.
  \<^item> \<open>MatchExpr\<close> (db/matcher/expression*.cpp, match_details.cpp), \<open>MatchParser\<close> (expression_parser*.cpp, matcher.cpp):
    the expressions, their evaluation on documents, elements and arrays, and the parser with every error branch.
  \<^item> \<open>MatchSemantics\<close>: a truth value \<open>sat\<close> for expressions and documents with quantifiers over the reached elements;
    evaluation returns it.  \<open>MatchWellFormed\<close>: the parser yields expressions for which this holds.
    \<open>MatchEquiv\<close>: the structural comparison of expressions, and that it is sound for the matchers of queries.
  \<^item> \<open>Projection\<close> (db/projection.cpp): parsing and applying projections.
  \<^item> \<open>PubSub\<close> (db/pubsub.cpp): the table with its shared subscription objects in a heap, \<open>subscribe\<close>, \<open>poll\<close> with
    its waits, \<open>recvMessages\<close>, \<open>unsubscribe\<close>, and the rounds of the cleanup thread, which are \<open>Dangling\<close> once the
    iterator of an erased entry is incremented.
  \<^item> \<open>PubSubSystem\<close>: the same table under any number of threads, as the step relation \<open>ps_step\<close>.  The steps are the
    sections that run under the lock, the check-in that does not take it, and the load and the store of every
    assignment to the bit-fields of a subscription.  Every \<open>poll\<close> is a sequence of such steps; a subscription is held
    by one poll at a time.  Three theorems exhibit runs that break what a client expects: a check-in lost to the cleanup
    thread, a socket closed under a poll, and a cancelled subscription that stays.
  \<^item> \<open>HostPort\<close>, \<open>SendSocket\<close> (util/net/hostandport.h, db/pubsub_sendsock.cpp): the sockets a publication goes to and
    the table of replica set members.  \<open>Topology\<close>: what a mongod, config server and mongos start with
    (db/pubsub.cpp, db/pubsub_d.cpp, db/pubsub_s.cpp), and the route of a publication in a sharded cluster.
  \<^item> \<open>Namespaces\<close> (db/namespace_string*.h), \<open>PubSubCommands\<close>: the arguments, calls and replies of the commands.
  \<^item> \<open>DbEvents\<close>: inserts, removals and updates with the events they send.

  \<^bold>\<open>What is shown.\<close>  For subscriptions: mutual exclusion of polls in every interleaving, the bounds on waiting, that a
  cancelled subscription interrupts its poll after a wait without a message, when a round of the cleanup thread is
  defined, and that a client receives exactly the messages that satisfy its filter.  For the commands: the reply holds
  every received message once, under its subscription and channel and in order, when a reply is too large to be built,
  and that the reserved channel cannot be written by clients.  For writes: one event each, no influence on inserts and
  removals of documents of at most 16 MB, and exactly when the event of an update throws.  For BSON: round trip through
  builder, validation and iterator, total order of values, limits of the buffer.  For matching: agreement with the
  declarative meaning, and the same answers for queries found equivalent.  The theorems on queries hold for paths
  without empty parts and values that can be ordered, without \<open>$mod\<close> by -1, \<open>$where\<close>, text and geometric operators.
  For sending: the frames sent, the absence of exceptions, and exactly when applying a replica set configuration is
  defined.  Several theorems state where the code does not keep its promise: the hazards above, negative string lengths
  in validation, unterminated regular expressions, large buffer requests and array positions.

  \<^bold>\<open>Loops, fuel and bounds.\<close>  Loops that always end are total functions with their measures: the poll loop by the
  remaining time, the parser by the size of the query.  Loops that may run for ever (growing a buffer, filling an
  array, validation) are partial functions whose value \<open>None\<close> is divergence; the theorems state that they return
  where they do, and exhibit the divergence where they do not.  Reading a document back uses fuel; twice its size
  plus one is enough, since every nesting level and every element takes at least one byte.  Builder theorems are
  bounded by the 64 MB limit of the buffer.

  \<^bold>\<open>Not modelled.\<close>  Printing and JSON, cloning of expressions, conversions of floating point text, the storage
  engine and indexes, update operators, mutable documents, aggregation, replication and sharding of stored data,
  users and roles, the network layer and the shell.  They are input and output, libraries, or parts of the
  server that publish/subscribe does not call; where it uses their result, the result is a parameter.
\<close>

section \<open>Building, validating and reading a document\<close>

text \<open>
  C8. A document survives the wire.  The typed appends of a builder and \<open>doneFast\<close> give bytes that validation
  accepts to their last byte and from which the iterator and the accessors read the same document back, for
  every document that fits in the buffer, provided that the representation of doubles is inverted on
  the doubles it contains.  \<open>obj\<close> gives the same bytes if the document is at most 16 MB and 16 KB, and fails its
  assertion otherwise.
\<close>

theorem document_round_trip:
  assumes "lay_obj fs" "osize fs + 4 \<le> 2 ^ 26" "0 \<le> sint (initsize + 4)" "sint (initsize + 4) \<le> 2 ^ 26"
    and "\<forall>d \<in> set (dbls_obj fs). undbits (dbits d) = d"
  shows "\<exists>bytes ob m. build initsize (append_all (\<lambda>e. append_value dbits (fst e) (snd e)) fs) = Ok (bytes, ob)
    \<and> build_obj initsize (append_all (\<lambda>e. append_value dbits (fst e) (snd e)) fs)
      = (if osize fs \<le> BSONObjMaxInternalSize then Ok (bytes, ob) else Asserted (assertInvalid (osize fs)))
    \<and> validateBSON bytes = Some (Inr m) \<and> unat (vb_position (vm_buffer m)) = length bytes
    \<and> dec_obj (2 * osize fs + 1) undbits bytes = Some fs"
proof -
  let ?b = "enc_obj dbits fs"
  have len: "length ?b = osize fs" using length_enc(2) [OF assms(1), of dbits] by (simp add: enc_obj_def)
  obtain ob where b: "build initsize (append_all (\<lambda>e. append_value dbits (fst e) (snd e)) fs) = Ok (?b, ob)"
    using builder_layout [OF assms(1-4)] by blast
  moreover have "build_obj initsize (append_all (\<lambda>e. append_value dbits (fst e) (snd e)) fs)
      = (if osize fs \<le> BSONObjMaxInternalSize then Ok (?b, ob) else Asserted (assertInvalid (osize fs)))"
    using b as_BSONObj_layout [OF assms(2)] by (simp add: build_obj_alt)
  moreover obtain i j where "validateBSON ?b = Some (Inr (mat VDone ?b i (osize fs) [] j))"
    using validateBSON_layout [OF assms(1), of "[]" dbits] assms(2) by auto
  moreover have "dec_obj (2 * osize fs + 1) undbits ?b = Some fs"
    using dec_obj_enc [OF assms(1) _ assms(5), of "2 * osize fs + 1" "[]"] assms(2) by simp
  moreover have "unat (word_of_nat (osize fs) :: u64) = osize fs" using unat_word64 [of "osize fs"] assms(2) by simp
  ultimately show ?thesis using len by (intro exI [of _ ?b]) auto
qed

definition sample_doc :: bobj where
  "sample_doc = [(''a'', BNumberDouble (DFin 1)), (''b'', BArray [(''0'', BString ''x''), (''1'', BRegEx ''y'' ''i'')])]"

lemma document_round_trip_witness:
  "\<exists>bytes ob m. build 0 (append_all (\<lambda>e. append_value (\<lambda>_. 7) (fst e) (snd e)) sample_doc) = Ok (bytes, ob)
    \<and> build_obj 0 (append_all (\<lambda>e. append_value (\<lambda>_. 7) (fst e) (snd e)) sample_doc)
      = (if osize sample_doc \<le> BSONObjMaxInternalSize then Ok (bytes, ob) else Asserted (assertInvalid (osize sample_doc)))
    \<and> validateBSON bytes = Some (Inr m) \<and> unat (vb_position (vm_buffer m)) = length bytes
    \<and> dec_obj (2 * osize sample_doc + 1) (\<lambda>_. DFin 1) bytes = Some sample_doc"
  by (rule document_round_trip) (simp_all add: sample_doc_def NUL_def)

section \<open>What a filtered subscription receives\<close>

text \<open>The filter of a subscription made with a well-formed query decides every order-safe message.\<close>

lemma filter_decides:
  assumes "make_filter env q = Inr f" "query_ok q" "osafe_obj m"
  shows "filter_matches f m = Inr (\<forall>e. f = Some e \<longrightarrow> sat e m)"
proof (cases f)
  case None
  then show ?thesis by (simp add: filter_matches_def)
next
  case (Some e)
  then have "expr_ok (compiled env) True e" using assms(1,2) Matcher2_ok by (auto simp: make_filter_def rbind_Inr_iff split: if_splits)
  from evaluatesD(4) [OF expr_evaluates [OF this] TrueI assms(3)] Some show ?thesis
    by (simp add: filter_matches_def matcher_matches_def)
qed

lemma subscribe_info:
  assumes "subscribe env None now mp channel q [] st = (st', Inr sid)" "find_sub sid st = None"
  shows "\<exists>r f. find_sub sid st' = Some r \<and> make_filter env q = Inr f \<and> info st' r = new_info channel f None"
  using assms
  by (auto simp: subscribe_def make_projection_def Let_def rbind_Inr_iff
      oid_order.find_insert_same split: prod.splits sum.splits)

text \<open>
  C3. A subscription delivers exactly the messages that satisfy its filter.  When a client subscribes with a
  nonempty well-formed query and no projection, under a fresh identifier, receiving order-safe messages for that
  subscription never throws, and adds to the outbox one entry for each message that satisfies the expression the
  query parses to, unchanged and under the identifier of the subscription, and nothing for the others.  A
  well-formed query has order-safe operands, paths without empty parts, no \<open>$mod\<close> by -1, and no operator of
  JavaScript, text search or geometry.
\<close>

theorem subscription_filter_delivers:
  assumes "find_sub sid st = None" "subscribe env None now mp channel q [] st = (st', Inr sid)"
    and "query_ok q" "q \<noteq> []" "Matcher2 env q = Inr e"
    and "\<forall>m \<in> set ms. osafe_obj (fst (snd m))" "pq_inv sm_lt outbox"
  shows "\<exists>r outbox'. find_sub sid st' = Some r \<and> recv_loop sid (info st' r) ms outbox = Inr outbox'
    \<and> pq_inv sm_lt outbox' \<and> mset outbox' = mset outbox + mset
        (map (\<lambda>(frame, message, timestamp). \<lparr>sm_subscriptionId = sid, sm_channel = c_str frame,
             sm_message = message, sm_timestamp = timestamp\<rparr>) (filter (\<lambda>m. sat e (fst (snd m))) ms))"
proof -
  obtain r f where r: "find_sub sid st' = Some r" "make_filter env q = Inr f" "info st' r = new_info channel f None"
    using subscribe_info [OF assms(2,1)] by blast
  have f: "f = Some e" using r(2) assms(4,5) by (simp add: make_filter_def)
  have dec: "filter_matches (Some e) (fst (snd m)) = Inr (sat e (fst (snd m)))" if "m \<in> set ms" for m
    using filter_decides [OF r(2) assms(3), of "fst (snd m)"] assms(6) that f by simp
  have "\<forall>m \<in> set ms. decides (new_info channel f None) m"
    using dec f by (auto simp: decides_def new_info_def apply_projection_def split: bool.splits)
  moreover have "delivered sid (new_info channel f None) ms =
      map (\<lambda>(frame, message, timestamp). \<lparr>sm_subscriptionId = sid, sm_channel = c_str frame,
             sm_message = message, sm_timestamp = timestamp\<rparr>) (filter (\<lambda>m. sat e (fst (snd m))) ms)"
    using dec f by (simp add: delivered_def new_info_def apply_projection_def cong: filter_cong)
  ultimately show ?thesis using recv_loop_spec [OF _ assms(7)] r by metis
qed

definition sample_subscription :: "ps_state \<times> oid result" where
  "sample_subscription = subscribe sample_env None 0 \<lparr>machineNumber = ''mno'', mpid = 0\<rparr> ''a'' sample_query [] ps_init"

lemma subscription_filter_delivers_witness:
  "let (st', sid) = (fst sample_subscription, projr (snd sample_subscription));
       ms = [(''a'', [(''a'', BNumberInt 5)], 1), (''a'', [(''b'', BNumberInt 5)], 2)] in
   \<exists>r outbox'. find_sub sid st' = Some r \<and> recv_loop sid (info st' r) ms [] = Inr outbox'
    \<and> pq_inv sm_lt outbox' \<and> mset outbox' = mset [] + mset
        (map (\<lambda>(frame, message, timestamp). \<lparr>sm_subscriptionId = sid, sm_channel = c_str frame,
             sm_message = message, sm_timestamp = timestamp\<rparr>) (filter (\<lambda>m. sat sample_expr (fst (snd m))) ms))"
  unfolding Let_def prod.case
proof (rule subscription_filter_delivers [of _ ps_init sample_env 0 "\<lparr>machineNumber = ''mno'', mpid = 0\<rparr>" "''a''" sample_query], goal_cases)
  case 2
  show ?case
    by (auto simp: sample_subscription_def subscribe_def make_filter_def make_projection_def sample_parses Let_def
        rbind_Inr_iff split: prod.splits)
qed (simp_all add: sample_parses sample_ok ps_init_def pq_inv_def)

end
